(* ===== verification/Koala_Prelude.thy ===== *)
theory Koala_Prelude
  imports Main "HOL-Library.AList" "HOL-Library.Multiset" "HOL-Library.Word"
begin

text \<open>
  Shared vocabulary of the development: the machine types of the Go sources, the two
  ways a Go computation ends without a value (a call of \<^verbatim>\<open>log.Fatalf\<close> and a run-time
  panic), the result types built on them, indexed reads and writes of slices, Go maps,
  and the generic lemmas the components share.

  \<^item> \<open>'a res\<close> is the outcome of code that always ends: a \<open>fault\<close> or a value.
  \<^item> \<open>'a run\<close> is the outcome of code with a loop whose end is not evident:
    \<^term>\<open>None\<close> stands for not returning.
  \<^item> a Go map that is measured or iterated is an association list with distinct keys;
    a Go map that is only read and written by key is a partial function.
\<close>

type_synonym byte = "8 word"
type_synonym u16 = "16 word"
type_synonym u32 = "32 word"
type_synonym u64 = "64 word"
type_synonym ('k, 'v) gomap = "('k \<times> 'v) list"

datatype fault = Fatal string | Panic string

type_synonym 'a res = "fault + 'a"
type_synonym 'a run = "(fault + 'a) option"

text \<open>Rewrite rules for the sequencing combinators, and facts that turn a successful run
  into the runs of its parts.\<close>

named_theorems res_simps
named_theorems res_elims
named_theorems slice_simps


section \<open>Sequencing\<close>

definition rbind :: "'a res \<Rightarrow> ('a \<Rightarrow> 'b res) \<Rightarrow> 'b res" where
  "rbind m f = (case m of Inl e \<Rightarrow> Inl e | Inr x \<Rightarrow> f x)"

definition fatal_if :: "bool \<Rightarrow> string \<Rightarrow> unit res" where
  "fatal_if c msg = (if c then Inl (Fatal msg) else Inr ())"

fun rfold :: "('s \<Rightarrow> 'a \<Rightarrow> 's res) \<Rightarrow> 's \<Rightarrow> 'a list \<Rightarrow> 's res" where
  "rfold f s [] = Inr s"
| "rfold f s (x # xs) = rbind (f s x) (\<lambda>s'. rfold f s' xs)"

definition obind :: "'a run \<Rightarrow> ('a \<Rightarrow> 'b run) \<Rightarrow> 'b run" where
  "obind m f = (case m of None \<Rightarrow> None | Some (Inl e) \<Rightarrow> Some (Inl e) | Some (Inr x) \<Rightarrow> f x)"

fun ofold :: "('s \<Rightarrow> 'a \<Rightarrow> 's run) \<Rightarrow> 's \<Rightarrow> 'a list \<Rightarrow> 's run" where
  "ofold f s [] = Some (Inr s)"
| "ofold f s (x # xs) = obind (f s x) (\<lambda>s'. ofold f s' xs)"


section \<open>Slices\<close>

definition at_idx :: "'a list \<Rightarrow> nat \<Rightarrow> 'a res" where
  "at_idx xs i = (if i < length xs then Inr (xs ! i) else Inl (Panic ''index out of range''))"

definition set_idx :: "'a list \<Rightarrow> nat \<Rightarrow> 'a \<Rightarrow> 'a list res" where
  "set_idx xs i v =
     (if i < length xs then Inr (xs[i := v]) else Inl (Panic ''index out of range''))"

definition at_int :: "'a list \<Rightarrow> int \<Rightarrow> 'a res" where
  "at_int xs i = (if i < 0 then Inl (Panic ''index out of range'') else at_idx xs (nat i))"

text \<open>The slice \<open>xs[i:j]\<close> of a buffer that has no spare capacity.\<close>

definition gslice :: "'a list \<Rightarrow> nat \<Rightarrow> nat \<Rightarrow> 'a list res" where
  "gslice xs i j = (if i \<le> j \<and> j \<le> length xs then Inr (take (j - i) (drop i xs))
                   else Inl (Panic ''slice bounds out of range''))"

text \<open>Big-endian encoding of the low \<open>k\<close> bytes of a number, and decoding, as
  \<^verbatim>\<open>binary.BigEndian\<close> writes and reads them.\<close>

definition bePut :: "nat \<Rightarrow> nat \<Rightarrow> byte list" where
  "bePut k n = map (\<lambda>i. of_nat (n div 256 ^ (k - 1 - i))) [0..<k]"

definition beNat :: "byte list \<Rightarrow> nat" where
  "beNat bs = foldl (\<lambda>a b. a * 256 + unat b) 0 bs"

text \<open>The loop \<open>for j := start; j < end; j++ { xs[j] = v }\<close>.\<close>

function fill :: "'a list \<Rightarrow> nat \<Rightarrow> nat \<Rightarrow> 'a \<Rightarrow> 'a list res" where
  "fill xs j e v =
     (if j < e then rbind (set_idx xs j v) (\<lambda>xs'. fill xs' (Suc j) e v) else Inr xs)"
  by pat_completeness auto
termination by (relation "measure (\<lambda>(xs, j, e, v). e - j)") auto

declare fill.simps [simp del]

text \<open>Reading a pointer that may be nil.\<close>

definition deref :: "'a option \<Rightarrow> 'a res" where
  "deref p = (case p of None \<Rightarrow> Inl (Panic ''nil pointer dereference'') | Some x \<Rightarrow> Inr x)"


section \<open>Maps\<close>

text \<open>Reading a Go map of slices at a missing key gives the nil slice.\<close>

definition mslice :: "('k, 'v list) gomap \<Rightarrow> 'k \<Rightarrow> 'v list" where
  "mslice m k = (case map_of m k of None \<Rightarrow> [] | Some xs \<Rightarrow> xs)"

text \<open>The order in which \<open>range\<close> visits a map is chosen by the run-time system: a
  parameter that permutes the entries.\<close>

definition range_order :: "('a list \<Rightarrow> 'a list) \<Rightarrow> bool" where
  "range_order ord \<longleftrightarrow> (\<forall>m. mset (ord m) = mset m)"


section \<open>Lemmas on sequencing\<close>

lemma rbind_simps [simp, res_simps]:
  "rbind (Inl e) f = Inl e" "rbind (Inr x) f = f x"
  by (simp_all add: rbind_def)

lemma fatal_if_simps [simp, res_simps]:
  "fatal_if True msg = Inl (Fatal msg)" "fatal_if False msg = Inr ()"
  by (simp_all add: fatal_if_def)

lemma rbind_cong [fundef_cong]:
  "m = m' \<Longrightarrow> (\<And>x. m' = Inr x \<Longrightarrow> f x = g x) \<Longrightarrow> rbind m f = rbind m' g"
  by (cases m') auto

lemma rbind_eq_Inr [res_elims]:
  "rbind m f = Inr y \<longleftrightarrow> (\<exists>x. m = Inr x \<and> f x = Inr y)"
  by (cases m) auto

lemma fatal_if_eq_Inr [res_elims]: "fatal_if c msg = Inr u \<longleftrightarrow> \<not> c"
  by (simp add: fatal_if_def)

lemma rbind_assoc: "rbind (rbind m f) g = rbind m (\<lambda>x. rbind (f x) g)"
  by (cases m) auto

lemma obind_simps [simp, res_simps]:
  "obind None f = None" "obind (Some (Inl e)) f = Some (Inl e)" "obind (Some (Inr x)) f = f x"
  by (simp_all add: obind_def)

lemma obind_eq_Some_Inr [res_elims]:
  "obind m f = Some (Inr y) \<longleftrightarrow> (\<exists>x. m = Some (Inr x) \<and> f x = Some (Inr y))"
  by (auto simp: obind_def split: option.splits sum.splits)

lemma rfold_append:
  "rfold f s (xs @ ys) = rbind (rfold f s xs) (\<lambda>s'. rfold f s' ys)"
  by (induction xs arbitrary: s) (simp_all add: rbind_assoc)

text \<open>A fold whose body never fails on the states it meets is an ordinary fold.\<close>

lemma rfold_pure:
  assumes "\<And>s x. I s \<Longrightarrow> x \<in> set xs \<Longrightarrow> f s x = Inr (g s x) \<and> I (g s x)" and "I s"
  shows "rfold f s xs = Inr (foldl g s xs) \<and> I (foldl g s xs)"
  using assms
proof (induction xs arbitrary: s)
  case (Cons x xs)
  have step: "f s x = Inr (g s x) \<and> I (g s x)" using Cons.prems(1)[of s x] Cons.prems(2) by simp
  have "rfold f (g s x) xs = Inr (foldl g (g s x) xs) \<and> I (foldl g (g s x) xs)"
  proof (rule Cons.IH)
    show "f s' y = Inr (g s' y) \<and> I (g s' y)" if "I s'" "y \<in> set xs" for s' y
      using Cons.prems(1)[of s' y] that by simp
  qed (use step in simp)
  with step show ?case by simp
qed simp

lemma rfold_invariant:
  assumes "rfold f s xs = Inr t" "I s"
    and "\<And>s x s'. I s \<Longrightarrow> x \<in> set xs \<Longrightarrow> f s x = Inr s' \<Longrightarrow> I s'"
  shows "I t"
  using assms
proof (induction xs arbitrary: s)
  case (Cons x xs)
  obtain s' where s': "f s x = Inr s'" "rfold f s' xs = Inr t"
    using Cons.prems(1) by (auto simp: rbind_eq_Inr)
  show ?case
  proof (rule Cons.IH[OF s'(2)])
    show "I s'" using Cons.prems(3)[of s x s'] Cons.prems(2) s'(1) by simp
    show "I v" if "I u" "y \<in> set xs" "f u y = Inr v" for u y v
      using Cons.prems(3)[of u y v] that by simp
  qed
qed simp


section \<open>Lemmas on slices\<close>

lemma at_idx_ok [slice_simps]: "i < length xs \<Longrightarrow> at_idx xs i = Inr (xs ! i)"
  by (simp add: at_idx_def)

lemma at_idx_eq_Inr [res_elims]: "at_idx xs i = Inr v \<longleftrightarrow> i < length xs \<and> v = xs ! i"
  by (auto simp: at_idx_def)

lemma set_idx_ok [slice_simps]: "i < length xs \<Longrightarrow> set_idx xs i v = Inr (xs[i := v])"
  by (simp add: set_idx_def)

lemma set_idx_eq_Inr [res_elims]:
  "set_idx xs i v = Inr ys \<longleftrightarrow> i < length xs \<and> ys = xs[i := v]"
  by (auto simp: set_idx_def)

lemma at_int_eq_Inr [res_elims]:
  "at_int xs i = Inr v \<longleftrightarrow> 0 \<le> i \<and> nat i < length xs \<and> v = xs ! nat i"
  by (auto simp: at_int_def at_idx_def)

lemma gslice_append [slice_simps]:
  "gslice (pre @ mid @ post) (length pre) (length pre + length mid) = Inr mid"
  by (simp add: gslice_def)

lemma gslice_at:
  "\<lbrakk>xs = pre @ mid @ post; i = length pre; j = length pre + length mid\<rbrakk> \<Longrightarrow> gslice xs i j = Inr mid"
  by (simp add: gslice_append)

lemma length_bePut [simp]: "length (bePut k n) = k"
  by (simp add: bePut_def)

lemma bePut_Suc: "bePut (Suc k) n = bePut k (n div 256) @ [of_nat n]"
proof -
  have "n div 256 ^ (k - i) = n div 256 div 256 ^ (k - 1 - i)" if "i < k" for i
  proof -
    have "k - i = Suc (k - 1 - i)" using that by simp
    then show ?thesis by (simp add: div_mult2_eq)
  qed
  then show ?thesis by (simp add: bePut_def)
qed

lemma beNat_bePut [simp]: "beNat (bePut k n) = n mod 256 ^ k"
proof (induction k arbitrary: n)
  case 0
  then show ?case by (simp add: bePut_def beNat_def)
next
  case (Suc k)
  have "beNat (bePut (Suc k) n) = beNat (bePut k (n div 256)) * 256 + n mod 256"
    by (simp add: bePut_Suc beNat_def unat_of_nat)
  also have "\<dots> = (n div 256 mod 256 ^ k) * 256 + n mod 256" using Suc by simp
  also have "\<dots> = n mod 256 ^ Suc k" by (simp add: mod_mult2_eq mult.commute)
  finally show ?case .
qed

lemma deref_simps [simp, res_simps]:
  "deref (Some x) = Inr x" "deref None = Inl (Panic ''nil pointer dereference'')"
  by (simp_all add: deref_def)

lemma fill_ok [slice_simps]:
  "\<lbrakk>j \<le> e; e \<le> length xs\<rbrakk> \<Longrightarrow>
     fill xs j e v = Inr (take j xs @ replicate (e - j) v @ drop e xs)"
proof (induction xs j e v rule: fill.induct)
  case (1 xs j e v)
  show ?case
  proof (cases "j < e")
    case True
    then have "fill xs j e v = fill (xs[j := v]) (Suc j) e v"
      using "1.prems" by (subst fill.simps) (simp add: set_idx_def)
    also have "\<dots> = Inr (take (Suc j) (xs[j := v]) @ replicate (e - Suc j) v @ drop e (xs[j := v]))"
      using True "1.prems" "1.IH"[OF True, of "xs[j := v]"] by (simp add: set_idx_def)
    also have "take (Suc j) (xs[j := v]) = take j xs @ [v]"
      using True "1.prems" by (simp add: take_Suc_conv_app_nth)
    finally show ?thesis
      using True by (simp flip: replicate_Suc add: Suc_diff_Suc)
  next
    case False
    then show ?thesis using "1.prems" by (subst fill.simps) simp
  qed
qed

lemma fill_nth:
  assumes "j \<le> e" "e \<le> length xs"
  shows "\<exists>ys. fill xs j e v = Inr ys \<and> length ys = length xs
    \<and> (\<forall>b < length xs. ys ! b = (if j \<le> b \<and> b < e then v else xs ! b))"
proof -
  have "(take j xs @ replicate (e - j) v @ drop e xs) ! b = (if j \<le> b \<and> b < e then v else xs ! b)"
    if "b < length xs" for b
    using that assms by (auto simp: nth_append)
  then show ?thesis using fill_ok[OF assms, of v] assms by simp
qed


section \<open>Lemmas on maps and lists\<close>

lemma mslice_update [simp]:
  "mslice (AList.update k v m) k' = (if k' = k then v else mslice m k')"
  by (simp add: mslice_def update_conv')

lemma map_of_update [simp]: "map_of (AList.update k v m) = (map_of m)(k \<mapsto> v)"
  by (rule update_conv')

lemma map_of_delete [simp]: "map_of (AList.delete k m) = (map_of m)(k := None)"
  by (rule delete_conv')

lemma range_orderD:
  assumes "range_order ord"
  shows "mset (ord m) = mset m" "set (ord m) = set m" "length (ord m) = length m"
proof -
  show "mset (ord m) = mset m" using assms by (simp add: range_order_def)
  then show "set (ord m) = set m" "length (ord m) = length m"
    by (metis set_mset_mset, metis size_mset)
qed

lemma sorted_eq_if_set_eq:
  fixes xs ys :: "'a::linorder list"
  assumes "sorted xs" "sorted ys" "distinct xs" "distinct ys" "set xs = set ys"
  shows "xs = ys"
  using assms by (simp add: sorted_distinct_set_unique)

lemma count_list_update:
  "i < length xs \<Longrightarrow>
     count_list (xs[i := v]) u + (if xs ! i = u then 1 else 0)
       = count_list xs u + (if v = u then 1 else 0)"
proof (induction xs arbitrary: i)
  case (Cons x xs)
  show ?case
  proof (cases i)
    case (Suc j)
    then show ?thesis
      using Cons.IH[of j] Cons.prems by (cases "v = u") (simp_all split: if_splits)
  qed simp
qed simp

lemma sum_list_mset_cong:
  fixes f :: "'a \<Rightarrow> nat"
  assumes "mset xs = mset ys" shows "sum_list (map f xs) = sum_list (map f ys)"
proof -
  have "sum_mset (mset (map f xs)) = sum_mset (mset (map f ys))" by (simp add: assms)
  then show ?thesis by (simp only: sum_mset_sum_list)
qed

lemma sum_list_count_le:
  "(\<forall>x \<in> set xs. f x \<le> (g x :: nat)) \<Longrightarrow> sum_list (map f xs) \<le> sum_list (map g xs)"
  by (induction xs) (auto intro: add_mono)

end
