(* ===== verification/Partition_Policy.thy ===== *)
theory Partition_Policy
  imports Koala_Prelude
begin

text \<open>
  The parts of \<^verbatim>\<open>internal/keyby/partition\<close> that every partition policy shares, and the
  uniform policy: the two bucket types, the policy base with its validation, the
  computation of bucket movements, and the layout of buckets in consecutive runs
  (\<^verbatim>\<open>bucket.go\<close>, \<^verbatim>\<open>bucketV2.go\<close>, \<^verbatim>\<open>partitionPolicy.go\<close>, \<^verbatim>\<open>uniformPartitionPolicy.go\<close>).
  The interface \<^verbatim>\<open>PartitionPolicy\<close> is the locale \<open>partition_policy\<close>, whose laws are what
  the lookup tables rely on.
\<close>

section \<open>Buckets\<close>

text \<open>A Go string used as a state key is its list of bytes.\<close>

type_synonym skey = "byte list"

text \<open>A hash function of the interface \<^verbatim>\<open>hash.HashFunc\<close>.\<close>

type_synonym hashFunc = "byte list \<Rightarrow> u64"

record Bucket =
  b_WorkerID :: u16

text \<open>The map of a bucket is nil (\<^term>\<open>None\<close>) until keys are tracked in it.\<close>

record BucketV2 =
  WorkerID :: u16
  KeyMap :: "(skey, u16) gomap option"

definition MaxSupportedBuckets :: int where
  "MaxSupportedBuckets = 2 ^ 32 - 1"

definition zeroBucketV2 :: BucketV2 where
  "zeroBucketV2 = \<lparr>WorkerID = 0, KeyMap = None\<rparr>"

definition owners :: "BucketV2 list \<Rightarrow> u16 list" where
  "owners bs = map WorkerID bs"


section \<open>Policy base\<close>

record PartitionPolicyBase =
  NumBuckets :: int

definition NewPartitionPolicyBase :: "int \<Rightarrow> PartitionPolicyBase res" where
  "NewPartitionPolicyBase configNumBuckets =
     rbind (fatal_if (configNumBuckets \<le> 0) ''Invalid number of buckets'') (\<lambda>_.
     rbind (fatal_if (MaxSupportedBuckets < configNumBuckets)
              ''Configured num of buckets exceeds the maximum supported value'') (\<lambda>_.
     Inr \<lparr>NumBuckets = configNumBuckets\<rparr>))"

text \<open>Bucket movements: source worker, destination worker, bucket indices.\<close>

type_synonym ownerChanges = "u16 \<rightharpoonup> (u16 \<rightharpoonup> nat list)"

definition recordChange :: "ownerChanges \<Rightarrow> u16 \<Rightarrow> u16 \<Rightarrow> nat \<Rightarrow> ownerChanges" where
  "recordChange ch src dst i =
     (let destMap = (case ch src of None \<Rightarrow> Map.empty | Some m \<Rightarrow> m);
          idxs = (case destMap dst of None \<Rightarrow> [] | Some l \<Rightarrow> l)
      in ch(src \<mapsto> destMap(dst \<mapsto> idxs @ [i])))"

definition computeBucketOwnerChanges ::
    "Bucket option list \<Rightarrow> Bucket option list \<Rightarrow> ownerChanges res" where
  "computeBucketOwnerChanges oldBuckets newBuckets =
     rfold (\<lambda>ch i.
       rbind (rbind (at_idx oldBuckets i) deref) (\<lambda>ob.
       rbind (rbind (at_idx newBuckets i) deref) (\<lambda>nb.
       Inr (if b_WorkerID ob \<noteq> b_WorkerID nb
            then recordChange ch (b_WorkerID ob) (b_WorkerID nb) i else ch))))
     Map.empty [0..<length oldBuckets]"

text \<open>The same loop over buckets held by value, as the second generation of the policies
  writes it inline.\<close>

definition computeBucketOwnerChangesV2 ::
    "BucketV2 list \<Rightarrow> BucketV2 list \<Rightarrow> ownerChanges res" where
  "computeBucketOwnerChangesV2 oldBuckets newBuckets =
     rfold (\<lambda>ch i.
       rbind (at_idx oldBuckets i) (\<lambda>ob.
       rbind (at_idx newBuckets i) (\<lambda>nb.
       Inr (if WorkerID ob \<noteq> WorkerID nb
            then recordChange ch (WorkerID ob) (WorkerID nb) i else ch))))
     Map.empty [0..<length oldBuckets]"


section \<open>Uniform policy\<close>

text \<open>The number of buckets of the worker at position \<open>i\<close> of \<open>n\<close>, and one round of the loop
  that gives each worker its run of buckets. \<open>mk\<close> builds the bucket stored in each slot.\<close>

definition workerShare :: "nat \<Rightarrow> nat \<Rightarrow> nat \<Rightarrow> nat" where
  "workerShare numBuckets n i = numBuckets div n + (if i < numBuckets mod n then 1 else 0)"

definition layoutStep ::
    "(u16 \<Rightarrow> 'b) \<Rightarrow> nat \<Rightarrow> nat \<Rightarrow> nat \<times> 'b list \<Rightarrow> nat \<times> u16 \<Rightarrow> (nat \<times> 'b list) res" where
  "layoutStep mk numBuckets n = (\<lambda>(start, buckets) (i, workerID).
     let end' = start + workerShare numBuckets n i
     in rbind (fill buckets start end' (mk workerID)) (\<lambda>buckets'. Inr (end', buckets')))"

definition generateRuns ::
    "(u16 \<Rightarrow> 'b) \<Rightarrow> 'b \<Rightarrow> PartitionPolicyBase \<Rightarrow> u16 list \<Rightarrow> 'b list res" where
  "generateRuns mk zero p workers =
     rbind (fatal_if (workers = []) ''No worker to generate buckets'') (\<lambda>_.
     rbind (fatal_if (NumBuckets p < int (length workers))
              ''Number of buckets is less than number of workers'') (\<lambda>_.
     let numBuckets = nat (NumBuckets p); n = length workers
     in rbind (rfold (layoutStep mk numBuckets n) (0, replicate numBuckets zero) (enumerate 0 workers))
          (\<lambda>(_, buckets). Inr buckets)))"

definition up_GenerateBuckets :: "PartitionPolicyBase \<Rightarrow> u16 list \<Rightarrow> Bucket option list res" where
  "up_GenerateBuckets up workers =
     generateRuns (\<lambda>w. Some \<lparr>b_WorkerID = w\<rparr>) None up workers"

definition up_GenerateBucketsV2 :: "PartitionPolicyBase \<Rightarrow> u16 list \<Rightarrow> BucketV2 list res" where
  "up_GenerateBucketsV2 up workers =
     generateRuns (\<lambda>w. \<lparr>WorkerID = w, KeyMap = None\<rparr>) zeroBucketV2 up workers"

definition up_RePartition ::
    "PartitionPolicyBase \<Rightarrow> u16 list \<Rightarrow> Bucket option list \<Rightarrow>
       (Bucket option list \<times> ownerChanges) res" where
  "up_RePartition up updatedWorkers oldBuckets =
     rbind (fatal_if (updatedWorkers = []) ''New worker list invalid'') (\<lambda>_.
     rbind (fatal_if (int (length oldBuckets) \<noteq> NumBuckets up) ''Existing bucket list invalid'') (\<lambda>_.
     rbind (up_GenerateBuckets up updatedWorkers) (\<lambda>newBuckets.
     rbind (computeBucketOwnerChanges oldBuckets newBuckets) (\<lambda>ch.
     Inr (newBuckets, ch)))))"

definition up_RePartitionV2 ::
    "PartitionPolicyBase \<Rightarrow> u16 list \<Rightarrow> BucketV2 list \<Rightarrow> (BucketV2 list \<times> ownerChanges) res" where
  "up_RePartitionV2 up updatedWorkers oldBuckets =
     rbind (fatal_if (updatedWorkers = []) ''New worker list invalid'') (\<lambda>_.
     rbind (fatal_if (int (length oldBuckets) \<noteq> NumBuckets up) ''Existing bucket list invalid'') (\<lambda>_.
     rbind (up_GenerateBucketsV2 up updatedWorkers) (\<lambda>newBuckets.
     rbind (computeBucketOwnerChangesV2 oldBuckets newBuckets) (\<lambda>ch.
     Inr (newBuckets, ch)))))"


section \<open>Reference definitions\<close>

text \<open>\<open>ownerDiff old new\<close> is what a map of bucket movements should be for two owner lists:
  for every pair of different workers the increasing list of the buckets that go from the
  first to the second, with no empty entry.\<close>

definition movedBuckets :: "u16 list \<Rightarrow> u16 list \<Rightarrow> u16 \<Rightarrow> u16 \<Rightarrow> nat list" where
  "movedBuckets old new s d = filter (\<lambda>i. old ! i = s \<and> new ! i = d \<and> s \<noteq> d) [0..<length old]"

definition ownerDiff :: "u16 list \<Rightarrow> u16 list \<Rightarrow> ownerChanges" where
  "ownerDiff old new = (\<lambda>s.
     if list_ex (\<lambda>i. old ! i = s \<and> new ! i \<noteq> s) [0..<length old]
     then Some (\<lambda>d. if movedBuckets old new s d = [] then None else Some (movedBuckets old new s d))
     else None)"

text \<open>\<open>balanced N ws os\<close>: the buckets are spread as evenly as possible, earlier workers
  taking the remainder.\<close>

definition balanced :: "nat \<Rightarrow> u16 list \<Rightarrow> u16 list \<Rightarrow> bool" where
  "balanced N ws os \<longleftrightarrow> length os = N \<and>
     (\<forall>i \<in> set [0..<length ws]. count_list os (ws ! i) = workerShare N (length ws) i)"

definition runsOf :: "nat \<Rightarrow> u16 list \<Rightarrow> u16 list" where
  "runsOf N ws =
     concat (map (\<lambda>(i, w). replicate (workerShare N (length ws) i) w) (enumerate 0 ws))"

definition policy_ok :: "PartitionPolicyBase \<Rightarrow> bool" where
  "policy_ok p \<longleftrightarrow> 0 < NumBuckets p \<and> NumBuckets p \<le> MaxSupportedBuckets"


lemma length_owners [simp]: "length (owners bs) = length bs"
  by (simp add: owners_def)


section \<open>Maps of bucket movements\<close>

text \<open>A map of movements is determined by the list stored for each pair, as long as it has
  no empty entry.\<close>

definition moved :: "ownerChanges \<Rightarrow> u16 \<Rightarrow> u16 \<Rightarrow> nat list" where
  "moved ch s d = (case ch s of None \<Rightarrow> [] | Some m \<Rightarrow> (case m d of None \<Rightarrow> [] | Some l \<Rightarrow> l))"

definition no_empty_entry :: "ownerChanges \<Rightarrow> bool" where
  "no_empty_entry ch \<longleftrightarrow> (\<forall>s m. ch s = Some m \<longrightarrow> m \<noteq> Map.empty \<and> (\<forall>d. m d \<noteq> Some []))"

lemma moved_recordChange [simp]:
  "moved (recordChange ch s d i) s' d' = moved ch s' d' @ (if s' = s \<and> d' = d then [i] else [])"
  by (auto simp: moved_def recordChange_def Let_def split: option.splits)

lemma no_empty_entry_empty [simp]: "no_empty_entry Map.empty" "moved Map.empty s d = []"
  by (simp_all add: no_empty_entry_def moved_def)

lemma no_empty_entry_recordChange [simp]:
  "no_empty_entry ch \<Longrightarrow> no_empty_entry (recordChange ch s d i)"
  by (auto simp: no_empty_entry_def recordChange_def Let_def split: option.splits)

lemma ownerChanges_eqI:
  assumes "no_empty_entry ch" "no_empty_entry ch'" and eq: "\<And>s d. moved ch s d = moved ch' s d"
  shows "ch = ch'"
proof
  fix s
  have entry: "m d = (if moved c s d = [] then None else Some (moved c s d))"
    if "no_empty_entry c" "c s = Some m" for c m d
    using that by (auto simp: no_empty_entry_def moved_def split: option.splits)
  have ex: "\<exists>d. moved c s d \<noteq> []" if a: "no_empty_entry c" "c s = Some m" for c m
  proof -
    have "m \<noteq> Map.empty" using a by (simp add: no_empty_entry_def)
    then obtain d where "m d \<noteq> None" by (auto simp: fun_eq_iff)
    then show ?thesis using entry[OF a, of d] by (auto split: if_splits)
  qed
  have none: "moved c s d = []" if "c s = None" for c d using that by (simp add: moved_def)
  show "ch s = ch' s"
  proof (cases "ch s"; cases "ch' s")
    fix m m' assume m: "ch s = Some m" "ch' s = Some m'"
    have "m = m'"
      using entry[OF assms(1) m(1)] entry[OF assms(2) m(2)] eq by (intro ext) simp
    with m show ?thesis by simp
  qed (use ex[OF assms(1)] ex[OF assms(2)] none eq in metis)+
qed

lemma moved_ownerDiff [simp]: "moved (ownerDiff old new) s d = movedBuckets old new s d"
proof (cases "\<exists>i \<in> set [0..<length old]. old ! i = s \<and> new ! i \<noteq> s")
  case True
  then show ?thesis by (auto simp: moved_def ownerDiff_def list_ex_iff)
next
  case False
  then show ?thesis
    by (auto simp: moved_def ownerDiff_def list_ex_iff movedBuckets_def filter_empty_conv)
qed

lemma no_empty_entry_ownerDiff [simp]: "no_empty_entry (ownerDiff old new)"
proof -
  have some: "movedBuckets old new s (new ! i) \<noteq> []"
    if "i < length old" "old ! i = s" "new ! i \<noteq> s" for i s
    using that by (auto simp: movedBuckets_def filter_empty_conv)
  show ?thesis unfolding no_empty_entry_def
  proof (intro allI impI)
    fix s m assume "ownerDiff old new s = Some m"
    then obtain i where i: "i < length old" "old ! i = s" "new ! i \<noteq> s"
      and m: "m = (\<lambda>d. if movedBuckets old new s d = [] then None
                      else Some (movedBuckets old new s d))"
      by (auto simp: ownerDiff_def list_ex_iff split: if_splits)
    from some[OF i] m have "m (new ! i) \<noteq> None" by simp
    then have "m \<noteq> Map.empty" by auto
    then show "m \<noteq> Map.empty \<and> (\<forall>d. m d \<noteq> Some [])" by (simp add: m)
  qed
qed

text \<open>The loop over the indices of the old buckets builds exactly the difference.\<close>

definition diffStep :: "u16 list \<Rightarrow> u16 list \<Rightarrow> ownerChanges \<Rightarrow> nat \<Rightarrow> ownerChanges" where
  "diffStep old new ch i = (if old ! i \<noteq> new ! i then recordChange ch (old ! i) (new ! i) i else ch)"

lemma moved_diffStep_upt:
  "moved (foldl (diffStep old new) Map.empty [0..<n]) s d
     = filter (\<lambda>i. old ! i = s \<and> new ! i = d \<and> s \<noteq> d) [0..<n]"
  by (induction n) (auto simp: diffStep_def)

lemma no_empty_entry_diffStep:
  "no_empty_entry ch \<Longrightarrow> no_empty_entry (foldl (diffStep old new) ch is)"
  by (induction "is" arbitrary: ch) (auto simp: diffStep_def)

lemma foldl_diffStep:
  "foldl (diffStep old new) Map.empty [0..<length old] = ownerDiff old new"
  by (rule ownerChanges_eqI)
    (simp_all add: no_empty_entry_diffStep moved_diffStep_upt movedBuckets_def)

lemma computeBucketOwnerChangesV2_eq:
  assumes "length old \<le> length new"
  shows "computeBucketOwnerChangesV2 old new = Inr (ownerDiff (owners old) (owners new))"
proof -
  have "computeBucketOwnerChangesV2 old new
      = Inr (foldl (diffStep (owners old) (owners new)) Map.empty [0..<length old])"
    unfolding computeBucketOwnerChangesV2_def
    by (rule conjunct1, rule rfold_pure[where I = "\<lambda>_. True"])
      (use assms in \<open>auto simp: at_idx_def diffStep_def owners_def\<close>)
  then show ?thesis using foldl_diffStep[of "owners old" "owners new"] by (simp add: owners_def)
qed

lemma computeBucketOwnerChanges_eq:
  assumes "length old \<le> length new"
  shows "computeBucketOwnerChanges (map Some old) (map Some new)
     = Inr (ownerDiff (map b_WorkerID old) (map b_WorkerID new))"
proof -
  have "computeBucketOwnerChanges (map Some old) (map Some new)
      = Inr (foldl (diffStep (map b_WorkerID old) (map b_WorkerID new)) Map.empty [0..<length old])"
    unfolding computeBucketOwnerChanges_def
    by (simp, rule conjunct1, rule rfold_pure[where I = "\<lambda>_. True"])
      (use assms in \<open>auto simp: at_idx_def diffStep_def\<close>)
  then show ?thesis using foldl_diffStep[of "map b_WorkerID old" "map b_WorkerID new"] by simp
qed

text \<open>What the difference says: applying the movements to the old owners gives the new ones.\<close>

lemma ownerDiff_sound:
  assumes "length old = length new"
  shows "i \<in> set (moved (ownerDiff old new) s d) \<longleftrightarrow>
     i < length old \<and> old ! i = s \<and> new ! i = d \<and> s \<noteq> d"
  using assms by (auto simp: movedBuckets_def)


section \<open>Buckets in consecutive runs\<close>

lemma sum_workerShare_upto:
  "0 < n \<Longrightarrow> m \<le> n \<Longrightarrow>
     sum_list (map (workerShare N n) [0..<m]) = m * (N div n) + min m (N mod n)"
  by (induction m) (auto simp: workerShare_def min_def)

lemma sum_workerShare:
  assumes "0 < n" shows "sum_list (map (workerShare N n) [0..<n]) = N"
proof -
  have "min n (N mod n) = N mod n" using mod_less_divisor[OF assms, of N] by simp
  then show ?thesis using sum_workerShare_upto[OF assms order_refl, of N] by simp
qed

lemma layout_rfold:
  "start + sum_list (map (workerShare N n) [k..<k + length ws]) \<le> length bs \<Longrightarrow>
   rfold (layoutStep mk N n) (start, bs) (enumerate k ws) =
     Inr (start + sum_list (map (workerShare N n) [k..<k + length ws]),
          take start bs
          @ concat (map (\<lambda>(i, w). replicate (workerShare N n i) (mk w)) (enumerate k ws))
          @ drop (start + sum_list (map (workerShare N n) [k..<k + length ws])) bs)"
proof (induction ws arbitrary: k start bs)
  case (Cons w ws)
  let ?c = "workerShare N n k"
  let ?S = "sum_list (map (workerShare N n) [Suc k..<Suc k + length ws])"
  let ?bs = "take start bs @ replicate ?c (mk w) @ drop (start + ?c) bs"
  have total: "sum_list (map (workerShare N n) [k..<k + length (w # ws)]) = ?c + ?S"
    by (simp add: upt_conv_Cons[of k "Suc (k + length ws)"] del: upt_Suc)
  have fits: "start + ?c + ?S \<le> length bs" using Cons.prems unfolding total by simp
  then have len: "length ?bs = length bs" by simp
  have "rfold (layoutStep mk N n) (start + ?c, ?bs) (enumerate (Suc k) ws) =
     Inr (start + ?c + ?S, take (start + ?c) ?bs
       @ concat (map (\<lambda>(i, w). replicate (workerShare N n i) (mk w)) (enumerate (Suc k) ws))
       @ drop (start + ?c + ?S) ?bs)"
    by (rule Cons.IH) (use len fits in simp)
  moreover have "take (start + ?c) ?bs = take start bs @ replicate ?c (mk w)"
    using fits by (simp add: min_def del: upt_Suc)
  moreover have "drop (start + ?c + ?S) ?bs = drop (start + ?c + ?S) bs"
    using fits by (simp add: min_def ac_simps del: upt_Suc)
  moreover have "layoutStep mk N n (start, bs) (k, w) = Inr (start + ?c, ?bs)"
    using fits by (simp add: layoutStep_def fill_ok Let_def del: upt_Suc)
  ultimately show ?case
    unfolding total by (simp add: add.assoc del: upt_Suc)
qed simp

lemma generateRuns_ok:
  assumes "ws \<noteq> []" "int (length ws) \<le> NumBuckets p"
  shows "generateRuns mk zero p ws = Inr (map mk (runsOf (nat (NumBuckets p)) ws))"
proof -
  let ?N = "nat (NumBuckets p)"
  have s: "sum_list (map (workerShare ?N (length ws)) [0..<length ws]) = ?N"
    by (rule sum_workerShare) (use assms in simp)
  have "concat (map (\<lambda>(i, w). replicate (workerShare ?N (length ws) i) (mk w)) (enumerate 0 ws))
      = map mk (runsOf ?N ws)"
    by (simp add: runsOf_def map_concat comp_def case_prod_unfold map_replicate_const)
  then show ?thesis
    using assms layout_rfold[of 0 ?N "length ws" 0 ws "replicate ?N zero" mk] s
    by (simp add: generateRuns_def)
qed

lemma generateRuns_error:
  "generateRuns mk zero p [] = Inl (Fatal ''No worker to generate buckets'')"
  "ws \<noteq> [] \<Longrightarrow> NumBuckets p < int (length ws) \<Longrightarrow>
     generateRuns mk zero p ws = Inl (Fatal ''Number of buckets is less than number of workers'')"
  by (simp_all add: generateRuns_def)

lemma generateRuns_InrD:
  assumes "generateRuns mk zero p ws = Inr bs"
  shows "ws \<noteq> []" "int (length ws) \<le> NumBuckets p" "bs = map mk (runsOf (nat (NumBuckets p)) ws)"
proof -
  show a: "ws \<noteq> []" and b: "int (length ws) \<le> NumBuckets p"
    using assms by (auto simp: generateRuns_def res_elims)
  show "bs = map mk (runsOf (nat (NumBuckets p)) ws)"
    using assms generateRuns_ok[OF a b, of mk zero] by simp
qed

lemma length_runsOf: "ws \<noteq> [] \<Longrightarrow> length (runsOf N ws) = N"
proof -
  assume "ws \<noteq> []"
  have "length (runsOf N ws) = sum_list (map (workerShare N (length ws) \<circ> fst) (enumerate 0 ws))"
    by (simp add: runsOf_def length_concat comp_def case_prod_beta)
  also have "\<dots> = sum_list (map (workerShare N (length ws)) [0..<length ws])"
    by (simp flip: map_map)
  finally show ?thesis using \<open>ws \<noteq> []\<close> by (simp add: sum_workerShare)
qed

lemma set_runsOf: "set (runsOf N ws) \<subseteq> set ws"
  by (auto simp: runsOf_def in_set_enumerate_eq split: if_splits)

lemma count_list_replicate: "count_list (replicate n x) y = (if x = y then n else 0)"
  by (induction n) auto

lemma count_runs:
  "distinct ws \<Longrightarrow> j < length ws \<Longrightarrow>
     count_list (concat (map (\<lambda>(i, w). replicate (f i) w) (enumerate k ws))) (ws ! j) = f (k + j)"
proof (induction ws arbitrary: k j)
  case (Cons w ws)
  have notin: "w \<notin> set (concat (map (\<lambda>(i, w). replicate (f i) w) (enumerate (Suc k) ws)))"
    using Cons.prems by (auto simp: in_set_enumerate_eq split: if_splits)
  show ?case
  proof (cases j)
    case 0
    then show ?thesis using notin by (simp add: count_list_replicate count_list_0_iff)
  next
    case (Suc i)
    then have "w \<noteq> ws ! i" using Cons.prems by auto
    then show ?thesis using Suc Cons.IH[of i "Suc k"] Cons.prems by (simp add: count_list_replicate)
  qed
qed simp

lemma balanced_runsOf: "distinct ws \<Longrightarrow> ws \<noteq> [] \<Longrightarrow> balanced N ws (runsOf N ws)"
  using count_runs[of ws _ "workerShare N (length ws)" 0]
  by (simp add: balanced_def length_runsOf) (simp add: runsOf_def)

text \<open>Consequences of balance: shares differ by at most one and no worker is idle when there
  are at least as many buckets as workers.\<close>

lemma balancedD:
  "balanced N ws os \<Longrightarrow> i < length ws \<Longrightarrow> count_list os (ws ! i) = workerShare N (length ws) i"
  by (simp add: balanced_def)

lemma balanced_shares:
  assumes "balanced N ws os" "i < length ws" "j < length ws"
  shows "count_list os (ws ! i) \<le> Suc (count_list os (ws ! j))"
  using assms by (auto simp: balanced_def workerShare_def)

lemma balanced_no_idle:
  assumes "balanced N ws os" "i < length ws" "length ws \<le> N"
  shows "0 < count_list os (ws ! i)"
proof -
  have "0 < N div length ws" using assms by (auto simp: div_greater_zero_iff)
  then show ?thesis using assms by (simp add: balanced_def workerShare_def)
qed


section \<open>The policy interface\<close>

text \<open>What the lookup tables rely on: a generated or recomputed assignment has one owner for
  each bucket, taken from the given workers, and the reported movements are exactly the
  buckets whose owner differs. A recomputation may loop, so its outcome is a run.\<close>

locale partition_policy =
  fixes numB :: nat
    and generate :: "u16 list \<Rightarrow> BucketV2 list res"
    and repartition :: "u16 list \<Rightarrow> BucketV2 list \<Rightarrow> (BucketV2 list \<times> ownerChanges) run"
  assumes generate_covers:
      "generate ws = Inr bs \<Longrightarrow> length bs = numB \<and> set (owners bs) \<subseteq> set ws"
    and generate_fresh: "generate ws = Inr bs \<Longrightarrow> b \<in> set bs \<Longrightarrow> KeyMap b = None"
    and repartition_covers:
      "repartition ws old = Some (Inr (new, ch)) \<Longrightarrow> length old = numB \<Longrightarrow>
         length new = numB \<and> set (owners new) \<subseteq> set ws"
    and repartition_diff:
      "repartition ws old = Some (Inr (new, ch)) \<Longrightarrow> length old = numB \<Longrightarrow>
         ch = ownerDiff (owners old) (owners new)"
begin

lemma owner_after_generate:
  "generate ws = Inr bs \<Longrightarrow> i < numB \<Longrightarrow> WorkerID (bs ! i) \<in> set ws"
  using generate_covers[of ws bs] by (fastforce simp: owners_def)

lemma owner_after_repartition:
  "repartition ws old = Some (Inr (new, ch)) \<Longrightarrow> length old = numB \<Longrightarrow> i < numB \<Longrightarrow>
     WorkerID (new ! i) \<in> set ws"
  using repartition_covers[of ws old new ch] by (fastforce simp: owners_def)

text \<open>A bucket is reported as moved from \<open>s\<close> to \<open>d\<close> exactly when it changes owner from \<open>s\<close>
  to \<open>d\<close>; in particular it is reported for one pair only.\<close>

lemma moved_iff:
  assumes "repartition ws old = Some (Inr (new, ch))" "length old = numB"
  shows "i \<in> set (moved ch s d) \<longleftrightarrow>
    i < numB \<and> WorkerID (old ! i) = s \<and> WorkerID (new ! i) = d \<and> s \<noteq> d"
proof -
  have "length new = numB" using repartition_covers[OF assms] by simp
  then show ?thesis
    using assms(2) repartition_diff[OF assms] ownerDiff_sound[of "owners old" "owners new" i s d]
    by (auto simp: owners_def)
qed

end

lemma owners_map_mk [simp]: "owners (map (\<lambda>w. \<lparr>WorkerID = w, KeyMap = m\<rparr>) ws) = ws"
  by (simp add: owners_def comp_def)

lemma up_GenerateBucketsV2_InrD:
  assumes "up_GenerateBucketsV2 p ws = Inr bs"
  shows "ws \<noteq> []" "int (length ws) \<le> NumBuckets p" "owners bs = runsOf (nat (NumBuckets p)) ws"
    "length bs = nat (NumBuckets p)" "b \<in> set bs \<Longrightarrow> KeyMap b = None"
  using generateRuns_InrD[OF assms[unfolded up_GenerateBucketsV2_def]]
  by (auto simp: length_runsOf)

lemma up_RePartitionV2_InrD:
  assumes "up_RePartitionV2 p ws old = Inr (new, ch)"
  shows "up_GenerateBucketsV2 p ws = Inr new" "length new = length old"
    "ch = ownerDiff (owners old) (owners new)"
proof -
  show gen: "up_GenerateBucketsV2 p ws = Inr new"
    using assms by (auto simp: up_RePartitionV2_def res_elims)
  show len: "length new = length old"
    using assms up_GenerateBucketsV2_InrD(4)[OF gen] by (auto simp: up_RePartitionV2_def res_elims)
  show "ch = ownerDiff (owners old) (owners new)"
    using assms gen computeBucketOwnerChangesV2_eq[of old new] len
    by (auto simp: up_RePartitionV2_def res_elims)
qed

interpretation up: partition_policy "nat (NumBuckets p)" "up_GenerateBucketsV2 p"
  "\<lambda>ws old. Some (up_RePartitionV2 p ws old)" for p
proof unfold_locales
  show "length bs = nat (NumBuckets p) \<and> set (owners bs) \<subseteq> set ws"
    if "up_GenerateBucketsV2 p ws = Inr bs" for ws bs
    using up_GenerateBucketsV2_InrD[OF that] set_runsOf by auto
  show "KeyMap b = None" if "up_GenerateBucketsV2 p ws = Inr bs" "b \<in> set bs" for ws bs b
    using up_GenerateBucketsV2_InrD(5)[OF that] .
  show "length new = nat (NumBuckets p) \<and> set (owners new) \<subseteq> set ws"
    if "Some (up_RePartitionV2 p ws old) = Some (Inr (new, ch))" "length old = nat (NumBuckets p)"
    for ws old new ch
    using up_RePartitionV2_InrD[of p ws old new ch] that up_GenerateBucketsV2_InrD[of p ws new]
      set_runsOf[of "nat (NumBuckets p)" ws] by simp
  show "ch = ownerDiff (owners old) (owners new)"
    if "Some (up_RePartitionV2 p ws old) = Some (Inr (new, ch))" for ws old new ch
    using up_RePartitionV2_InrD(3)[of p ws old new ch] that by simp
qed

end
