(* ===== verification/Even_Partition.thy ===== *)
theory Even_Partition
  imports Partition_Policy "HOL-Library.Sublist"
begin

text \<open>
  The even policy of \<^verbatim>\<open>internal/keyby/partition/evenPartitionPolicy.go\<close>: the initial
  layout in consecutive runs, and the repartitioning that only moves buckets from
  existing workers to new ones (scale-up) or from removed workers to remaining ones
  (scale-down), taking donors in round-robin order. The inner loop \<open>for need > 0\<close> visits
  donors until it has found enough buckets; it is a partial function, and the lemmas show
  that it returns whenever the donors hold enough.
\<close>

section \<open>Initial layout\<close>

definition ep_GenerateBuckets :: "PartitionPolicyBase \<Rightarrow> u16 list \<Rightarrow> Bucket option list res" where
  "ep_GenerateBuckets ep workers =
     generateRuns (\<lambda>w. Some \<lparr>b_WorkerID = w\<rparr>) None ep workers"

definition ep_GenerateBucketsV2 :: "PartitionPolicyBase \<Rightarrow> u16 list \<Rightarrow> BucketV2 list res" where
  "ep_GenerateBucketsV2 ep workers =
     generateRuns (\<lambda>w. \<lparr>WorkerID = w, KeyMap = None\<rparr>) zeroBucketV2 ep workers"


section \<open>Validation and preparation\<close>

text \<open>The set of updated workers, as the list of its elements.\<close>

definition updatedWorkerSet :: "u16 list \<Rightarrow> u16 list res" where
  "updatedWorkerSet updatedWorkers =
     rfold (\<lambda>seen w.
       rbind (fatal_if (w \<in> set seen) ''Updated worker list invalid: duplicate worker'') (\<lambda>_.
       Inr (seen @ [w]))) [] updatedWorkers"

text \<open>The existing workers in the order they are first seen, and their bucket lists.\<close>

definition existingStep ::
    "u16 list \<times> (u16, nat list) gomap \<Rightarrow> nat \<times> u16 \<Rightarrow> u16 list \<times> (u16, nat list) gomap" where
  "existingStep = (\<lambda>(existing, m) (i, w).
     (if map_of m w = None then existing @ [w] else existing,
      AList.update w (mslice m w @ [i]) m))"

definition existingWorkers :: "BucketV2 list \<Rightarrow> u16 list \<times> (u16, nat list) gomap" where
  "existingWorkers oldBuckets = foldl existingStep ([], []) (enumerate 0 (owners oldBuckets))"

definition validateAndPrepareRepartition ::
    "PartitionPolicyBase \<Rightarrow> u16 list \<Rightarrow> BucketV2 list \<Rightarrow>
       (u16 list \<times> u16 list \<times> (u16, nat list) gomap) res" where
  "validateAndPrepareRepartition ep updatedWorkers oldBuckets =
     rbind (fatal_if (updatedWorkers = []) ''New worker list invalid'') (\<lambda>_.
     rbind (fatal_if (NumBuckets ep < int (length updatedWorkers))
              ''Number of buckets is less than number of workers'') (\<lambda>_.
     rbind (updatedWorkerSet updatedWorkers) (\<lambda>updatedSet.
     case existingWorkers oldBuckets of (existing, bucketsBy) \<Rightarrow>
     rbind (fatal_if (length updatedSet = length bucketsBy)
              ''Updated worker list invalid: number of workers unchanged'') (\<lambda>_.
     rbind (if length bucketsBy < length updatedSet
            then fatal_if (\<not> list_all (\<lambda>w. w \<in> set updatedSet) (map fst bucketsBy))
                   ''Scale-up invalid: existing worker missing in updated list''
            else fatal_if (\<not> list_all (\<lambda>w. map_of bucketsBy w \<noteq> None) updatedSet)
                   ''Scale-down invalid: updated list contains new worker'') (\<lambda>_.
     Inr (updatedSet, existing, bucketsBy))))))"

definition getDesiredCountsPerWorker ::
    "PartitionPolicyBase \<Rightarrow> u16 list \<Rightarrow> (u16, nat) gomap res" where
  "getDesiredCountsPerWorker ep updatedWorkers =
     rbind (fatal_if (updatedWorkers = []) ''No worker to generate desired bucket distribution'') (\<lambda>_.
     Inr (foldl (\<lambda>desired (i, w).
                   AList.update w (workerShare (nat (NumBuckets ep)) (length updatedWorkers) i) desired)
            [] (enumerate 0 updatedWorkers)))"


section \<open>Round-robin transfer\<close>

record Transfer =
  donorIdx :: nat
  donorBuckets :: "(u16, nat list) gomap"
  newBuckets :: "BucketV2 list"
  bucketOwnerChanges :: ownerChanges

text \<open>Popping the last bucket of a donor's nonempty list and giving it to the recipient.\<close>

definition giveBucket :: "u16 \<Rightarrow> u16 \<Rightarrow> Transfer \<Rightarrow> Transfer res" where
  "giveBucket donor recipient st =
     (let buckets = mslice (donorBuckets st) donor; bucketID = last buckets
      in rbind (at_idx (newBuckets st) bucketID) (\<lambda>b.
         Inr (st\<lparr>donorBuckets := AList.update donor (butlast buckets) (donorBuckets st),
                newBuckets := (newBuckets st)[bucketID := b\<lparr>WorkerID := recipient\<rparr>],
                bucketOwnerChanges :=
                  recordChange (bucketOwnerChanges st) donor recipient bucketID\<rparr>)))"

text \<open>The loop \<open>for need > 0\<close>, which scale-up and scale-down share.\<close>

partial_function (option) transferLoop :: "u16 list \<Rightarrow> u16 \<Rightarrow> Transfer \<Rightarrow> nat \<Rightarrow> Transfer run" where
  "transferLoop donors recipient st need =
     (if need = 0 then Some (Inr st)
      else case at_idx donors (donorIdx st) of
        Inl e \<Rightarrow> Some (Inl e)
      | Inr donor \<Rightarrow>
          (if mslice (donorBuckets st) donor = []
           then transferLoop donors recipient
                  (st\<lparr>donorIdx := (donorIdx st + 1) mod length donors\<rparr>) need
           else case giveBucket donor recipient
                       (st\<lparr>donorIdx := (donorIdx st + 1) mod length donors\<rparr>) of
                  Inl e \<Rightarrow> Some (Inl e)
                | Inr st' \<Rightarrow> transferLoop donors recipient st' (need - 1)))"


section \<open>Scale-up\<close>

definition scaleUpDonor ::
    "(u16, nat) gomap \<Rightarrow> (u16, nat list) gomap \<times> nat \<Rightarrow> u16 \<times> nat list \<Rightarrow>
       ((u16, nat list) gomap \<times> nat) res" where
  "scaleUpDonor desiredCounts = (\<lambda>(donors, remaining) (w, bucketList).
     case map_of desiredCounts w of
       None \<Rightarrow> Inl (Fatal ''Scale-up invalid: existing worker missing desired count'')
     | Some desired \<Rightarrow>
         rbind (fatal_if (length bucketList < desired)
                  ''Scale-up invalid: existing worker desires more buckets than it owns'') (\<lambda>_.
         let excess = length bucketList - desired
         in Inr (if excess = 0 then (donors, remaining)
                 else (AList.update w (drop (length bucketList - excess) bucketList) donors,
                       remaining + excess))))"

definition scaleUpRecipient ::
    "(u16, nat) gomap \<Rightarrow> u16 list \<Rightarrow> nat \<times> Transfer \<Rightarrow> u16 \<Rightarrow> (nat \<times> Transfer) run" where
  "scaleUpRecipient desiredCounts existing = (\<lambda>(remaining, st) w.
     case map_of desiredCounts w of
       None \<Rightarrow> Some (Inl (Fatal ''Scale-up invalid: new worker missing desired count''))
     | Some need \<Rightarrow>
         obind (Some (fatal_if (need = 0) ''Scale-up invalid: new worker desires 0 buckets'')) (\<lambda>_.
         obind (Some (fatal_if (remaining < need) ''Scale-up invalid: not enough donated buckets'')) (\<lambda>_.
         obind (transferLoop existing w st need) (\<lambda>st'. Some (Inr (remaining - need, st'))))))"

text \<open>\<open>ord\<close> is the order in which \<open>range\<close> visits the map of existing workers.\<close>

definition repartitionScaleUp ::
    "((u16 \<times> nat list) list \<Rightarrow> (u16 \<times> nat list) list) \<Rightarrow> u16 list \<Rightarrow> (u16, nat) gomap \<Rightarrow>
       u16 list \<Rightarrow> (u16, nat list) gomap \<Rightarrow> BucketV2 list \<Rightarrow> (BucketV2 list \<times> ownerChanges) run" where
  "repartitionScaleUp ord updatedWorkers desiredCounts existing bucketsBy buckets0 =
     (let newWorkers = filter (\<lambda>w. map_of bucketsBy w = None) updatedWorkers
      in obind (Some (fatal_if (newWorkers = []) ''Scale-up invalid: no new worker found'')) (\<lambda>_.
         obind (Some (rfold (scaleUpDonor desiredCounts) ([], 0) (ord bucketsBy))) (\<lambda>(donors, remaining).
         obind (Some (fatal_if (remaining = 0) ''Scale-up invalid: no donor bucket found'')) (\<lambda>_.
         obind (ofold (scaleUpRecipient desiredCounts existing)
                  (remaining, \<lparr>donorIdx = 0, donorBuckets = donors, newBuckets = buckets0,
                               bucketOwnerChanges = Map.empty\<rparr>) newWorkers) (\<lambda>(_, st).
         Some (Inr (newBuckets st, bucketOwnerChanges st)))))))"


section \<open>Scale-down\<close>

definition scaleDownDonor ::
    "(u16, nat list) gomap \<Rightarrow> (u16, nat list) gomap \<times> nat \<Rightarrow> u16 \<Rightarrow>
       ((u16, nat list) gomap \<times> nat) res" where
  "scaleDownDonor bucketsBy = (\<lambda>(donors, donation) w.
     case map_of bucketsBy w of
       None \<Rightarrow> Inl (Fatal ''Scale-down invalid: removed worker not found in existing buckets'')
     | Some bucketList \<Rightarrow>
         Inr (AList.update w bucketList donors, donation + length bucketList))"

definition scaleDownNeed ::
    "(u16, nat) gomap \<Rightarrow> (u16, nat list) gomap \<Rightarrow> (u16, nat) gomap \<times> nat \<Rightarrow> u16 \<Rightarrow>
       ((u16, nat) gomap \<times> nat) res" where
  "scaleDownNeed desiredCounts bucketsBy = (\<lambda>(needs, totalNeed) w.
     let oldCount = length (mslice bucketsBy w)
     in case map_of desiredCounts w of
          None \<Rightarrow> Inl (Fatal ''Scale-down invalid: remaining worker missing desired count'')
        | Some desired \<Rightarrow>
            rbind (fatal_if (desired < oldCount)
                     ''Scale-down invalid: remaining worker already owns more buckets than desired'') (\<lambda>_.
            let need = desired - oldCount
            in Inr (if need = 0 then (needs, totalNeed)
                    else (AList.update w need needs, totalNeed + need))))"

definition scaleDownRecipient ::
    "u16 list \<Rightarrow> (u16, nat) gomap \<Rightarrow> Transfer \<Rightarrow> u16 \<Rightarrow> Transfer run" where
  "scaleDownRecipient removed needs st w =
     transferLoop removed w st (case map_of needs w of None \<Rightarrow> 0 | Some need \<Rightarrow> need)"

definition repartitionScaleDown ::
    "u16 list \<Rightarrow> u16 list \<Rightarrow> (u16, nat) gomap \<Rightarrow> u16 list \<Rightarrow> (u16, nat list) gomap \<Rightarrow>
       BucketV2 list \<Rightarrow> (BucketV2 list \<times> ownerChanges) run" where
  "repartitionScaleDown updatedWorkers updatedSet desiredCounts existing bucketsBy buckets0 =
     (let removed = filter (\<lambda>w. w \<notin> set updatedSet) existing
      in obind (Some (fatal_if (removed = []) ''Scale-down invalid: no removed worker found'')) (\<lambda>_.
         obind (Some (rfold (scaleDownDonor bucketsBy) ([], 0) removed)) (\<lambda>(donors, totalDonation).
         obind (Some (rfold (scaleDownNeed desiredCounts bucketsBy) ([], 0) updatedWorkers)) (\<lambda>(needs, totalNeed).
         obind (Some (fatal_if (totalNeed \<noteq> totalDonation) ''Scale-down invalid: donation != need'')) (\<lambda>_.
         obind (ofold (scaleDownRecipient removed needs)
                  \<lparr>donorIdx = 0, donorBuckets = donors, newBuckets = buckets0,
                   bucketOwnerChanges = Map.empty\<rparr> updatedWorkers) (\<lambda>st.
         Some (Inr (newBuckets st, bucketOwnerChanges st))))))))"


section \<open>Repartitioning\<close>

definition sortChanges :: "ownerChanges \<Rightarrow> ownerChanges" where
  "sortChanges ch = (\<lambda>s. map_option (\<lambda>m d. map_option sort (m d)) (ch s))"

definition ep_RePartitionV2 ::
    "((u16 \<times> nat list) list \<Rightarrow> (u16 \<times> nat list) list) \<Rightarrow> PartitionPolicyBase \<Rightarrow> u16 list \<Rightarrow>
       BucketV2 list \<Rightarrow> (BucketV2 list \<times> ownerChanges) run" where
  "ep_RePartitionV2 ord ep updatedWorkers oldBuckets =
     obind (Some (validateAndPrepareRepartition ep updatedWorkers oldBuckets)) (\<lambda>(updatedSet, existing, bucketsBy).
     obind (Some (getDesiredCountsPerWorker ep updatedWorkers)) (\<lambda>desiredCounts.
     let N = nat (NumBuckets ep);
         buckets0 = take N oldBuckets @ replicate (N - length oldBuckets) zeroBucketV2
     in obind (if length existing < length updatedSet
               then repartitionScaleUp ord updatedWorkers desiredCounts existing bucketsBy buckets0
               else repartitionScaleDown updatedWorkers updatedSet desiredCounts existing bucketsBy
                      buckets0) (\<lambda>(buckets, ch).
        Some (Inr (buckets, sortChanges ch)))))"

definition ep_RePartition ::
    "((u16 \<times> nat list) list \<Rightarrow> (u16 \<times> nat list) list) \<Rightarrow> PartitionPolicyBase \<Rightarrow> u16 list \<Rightarrow>
       Bucket option list \<Rightarrow> (Bucket option list \<times> ownerChanges) run" where
  "ep_RePartition ord ep updatedWorkers oldBuckets =
     obind (Some (rfold (\<lambda>acc ob. rbind (deref ob) (\<lambda>b.
                    Inr (acc @ [\<lparr>WorkerID = b_WorkerID b, KeyMap = None\<rparr>]))) [] oldBuckets)) (\<lambda>oldV2.
     obind (ep_RePartitionV2 ord ep updatedWorkers oldV2) (\<lambda>(newV2, ch).
     Some (Inr (map (\<lambda>b. Some \<lparr>b_WorkerID = WorkerID b\<rparr>) newV2, ch))))"


section \<open>Facts on the preparation\<close>

definition bucketsOf :: "u16 list \<Rightarrow> u16 \<Rightarrow> nat list" where
  "bucketsOf os w = filter (\<lambda>i. os ! i = w) [0..<length os]"

lemma set_bucketsOf [simp]: "i \<in> set (bucketsOf os w) \<longleftrightarrow> i < length os \<and> os ! i = w"
  by (auto simp: bucketsOf_def)

lemma distinct_bucketsOf [simp]: "distinct (bucketsOf os w)"
  by (simp add: bucketsOf_def)

lemma bucketsOf_snoc: "bucketsOf (os @ [v]) w = bucketsOf os w @ (if v = w then [length os] else [])"
proof -
  have "filter (\<lambda>i. (os @ [v]) ! i = w) [0..<length os] = filter (\<lambda>i. os ! i = w) [0..<length os]"
    by (rule filter_cong) (auto simp: nth_append)
  then show ?thesis by (simp add: bucketsOf_def)
qed

lemma length_bucketsOf: "length (bucketsOf os w) = count_list os w"
  by (induction os rule: rev_induct) (auto simp: bucketsOf_snoc bucketsOf_def[of "[]"])

lemma map_fst_update:
  "map fst (AList.update k v m) = map fst m @ (if k \<in> set (map fst m) then [] else [k])"
  by (induction m) auto

lemma existing_fold:
  fixes os :: "u16 list"
  defines "r \<equiv> foldl existingStep ([], []) (enumerate 0 os)"
  shows "map fst (snd r) = fst r \<and> distinct (fst r) \<and> set (fst r) = set os
    \<and> (\<forall>w. mslice (snd r) w = bucketsOf os w)
    \<and> (\<forall>w. map_of (snd r) w = (if w \<in> set os then Some (bucketsOf os w) else None))"
  unfolding r_def
proof (induction os rule: rev_induct)
  case Nil
  then show ?case by (simp add: mslice_def bucketsOf_def)
next
  case (snoc v os)
  obtain ex m where r: "foldl existingStep ([], []) (enumerate 0 os) = (ex, m)" by fastforce
  have step: "foldl existingStep ([], []) (enumerate 0 (os @ [v]))
      = (if v \<in> set os then ex else ex @ [v], AList.update v (mslice m v @ [length os]) m)"
    using snoc r by (simp add: enumerate_append_eq existingStep_def)
  show ?case
    using snoc unfolding step r
    by (auto simp: map_fst_update bucketsOf_snoc)
qed

lemma existingWorkers_facts:
  assumes "existingWorkers old = (existing, bucketsBy)"
  shows "map fst bucketsBy = existing" "distinct existing" "set existing = set (owners old)"
    "mslice bucketsBy w = bucketsOf (owners old) w"
    "map_of bucketsBy w = (if w \<in> set (owners old) then Some (bucketsOf (owners old) w) else None)"
  using existing_fold[of "owners old"] assms by (auto simp: existingWorkers_def)

lemma updatedWorkerSet_rfold:
  "rfold (\<lambda>seen w. rbind (fatal_if (w \<in> set seen) msg) (\<lambda>_. Inr (seen @ [w]))) seen ws
     = (if distinct ws \<and> set ws \<inter> set seen = {} then Inr (seen @ ws) else Inl (Fatal msg))"
  by (induction ws arbitrary: seen) (auto simp: fatal_if_def)

lemma updatedWorkerSet_eq:
  "updatedWorkerSet ws = (if distinct ws then Inr ws
     else Inl (Fatal ''Updated worker list invalid: duplicate worker''))"
  by (simp add: updatedWorkerSet_def updatedWorkerSet_rfold)

lemma desired_fold:
  "distinct ws \<Longrightarrow>
   map_of (foldl (\<lambda>m (i, w). AList.update w (f i) m) m0 (enumerate k ws)) w
     = (if w \<in> set ws then Some (f (k + (THE j. j < length ws \<and> ws ! j = w))) else map_of m0 w)"
proof (induction ws arbitrary: k m0)
  case (Cons v ws)
  show ?case
  proof (cases "w = v")
    case True
    then have "(THE j. j < length (v # ws) \<and> (v # ws) ! j = w) = 0"
      using Cons.prems by (intro the_equality) (auto simp: nth_Cons' split: if_splits)
    then show ?thesis using True Cons by simp
  next
    case False
    show ?thesis
    proof (cases "w \<in> set ws")
      case True
      then obtain j where j: "j < length ws" "ws ! j = w" by (auto simp: in_set_conv_nth)
      have "(THE j. j < length ws \<and> ws ! j = w) = j"
        using j Cons.prems by (intro the_equality) (auto simp: nth_eq_iff_index_eq)
      moreover have "(THE j. j < length (v # ws) \<and> (v # ws) ! j = w) = Suc j"
        using j Cons.prems False
        by (intro the_equality) (auto simp: nth_Cons nth_eq_iff_index_eq split: nat.splits)
      ultimately show ?thesis using True False Cons by simp
    qed (use False Cons in simp)
  qed
qed simp

lemma getDesiredCountsPerWorker_facts:
  assumes "getDesiredCountsPerWorker ep ws = Inr desired" "distinct ws"
  shows "i < length ws \<Longrightarrow>
      map_of desired (ws ! i) = Some (workerShare (nat (NumBuckets ep)) (length ws) i)"
    and "map_of desired w = None \<longleftrightarrow> w \<notin> set ws"
proof -
  let ?f = "workerShare (nat (NumBuckets ep)) (length ws)"
  have d: "map_of desired w = (if w \<in> set ws then Some (?f (THE j. j < length ws \<and> ws ! j = w)) else None)"
    for w
    using assms desired_fold[of ws ?f "[]" 0 w]
    by (auto simp: getDesiredCountsPerWorker_def res_elims)
  show "map_of desired w = None \<longleftrightarrow> w \<notin> set ws" by (simp add: d)
  assume i: "i < length ws"
  then have "(THE j. j < length ws \<and> ws ! j = ws ! i) = i"
    using assms(2) by (intro the_equality) (auto simp: nth_eq_iff_index_eq)
  with i show "map_of desired (ws ! i) = Some (?f i)" by (simp add: d)
qed


section \<open>The transfer loop\<close>

text \<open>The state of a transfer relative to the owners \<open>old\<close> it started from: the donors still
  own what they are listed with, every other change is from a donor to a recipient, only
  owners change, and the recorded movements are the difference to \<open>old\<close>.\<close>

definition transfer_inv ::
    "BucketV2 list \<Rightarrow> u16 list \<Rightarrow> u16 set \<Rightarrow> Transfer \<Rightarrow> bool" where
  "transfer_inv old donors R st \<longleftrightarrow>
     length (newBuckets st) = length old
   \<and> map KeyMap (newBuckets st) = map KeyMap old
   \<and> (\<forall>d \<in> set donors. distinct (mslice (donorBuckets st) d)
        \<and> (\<forall>b \<in> set (mslice (donorBuckets st) d).
              b < length old \<and> owners old ! b = d \<and> owners (newBuckets st) ! b = d))
   \<and> (\<forall>i < length old. owners (newBuckets st) ! i = owners old ! i
        \<or> owners old ! i \<in> set donors \<and> owners (newBuckets st) ! i \<in> R)
   \<and> no_empty_entry (bucketOwnerChanges st)
   \<and> (\<forall>s d. sort (moved (bucketOwnerChanges st) s d)
               = movedBuckets (owners old) (owners (newBuckets st)) s d)"

definition donation :: "u16 list \<Rightarrow> Transfer \<Rightarrow> nat" where
  "donation donors st = sum_list (map (\<lambda>d. length (mslice (donorBuckets st) d)) donors)"

text \<open>What a transfer of \<open>need\<close> buckets to one recipient changes.\<close>

definition transferred :: "u16 list \<Rightarrow> u16 \<Rightarrow> nat \<Rightarrow> Transfer \<Rightarrow> Transfer \<Rightarrow> bool" where
  "transferred donors r need st st' \<longleftrightarrow>
     donation donors st' + need = donation donors st
   \<and> count_list (owners (newBuckets st')) r = count_list (owners (newBuckets st)) r + need
   \<and> (\<forall>w. w \<notin> set donors \<and> w \<noteq> r \<longrightarrow>
        count_list (owners (newBuckets st')) w = count_list (owners (newBuckets st)) w)
   \<and> (\<forall>d \<in> set donors. count_list (owners (newBuckets st')) d + length (mslice (donorBuckets st) d)
        = count_list (owners (newBuckets st)) d + length (mslice (donorBuckets st') d))"

lemma transferred_0: "transferred donors r 0 st st"
  by (simp add: transferred_def)

lemma transferred_add:
  assumes "transferred donors r m st st'" "transferred donors r n st' st''"
  shows "transferred donors r (m + n) st st''"
proof -
  have "count_list (owners (newBuckets st'')) d + length (mslice (donorBuckets st) d)
      = count_list (owners (newBuckets st)) d + length (mslice (donorBuckets st'') d)"
    if "d \<in> set donors" for d
  proof -
    have "count_list (owners (newBuckets st')) d + length (mslice (donorBuckets st) d)
        = count_list (owners (newBuckets st)) d + length (mslice (donorBuckets st') d)"
      "count_list (owners (newBuckets st'')) d + length (mslice (donorBuckets st') d)
        = count_list (owners (newBuckets st')) d + length (mslice (donorBuckets st'') d)"
      using assms that by (simp_all add: transferred_def)
    then show ?thesis by linarith
  qed
  then show ?thesis using assms by (simp add: transferred_def)
qed

lemma sum_list_update_distinct:
  assumes "distinct ds" "d \<in> set ds" "\<And>e. e \<noteq> d \<Longrightarrow> f e = g e"
  shows "sum_list (map f ds) + g d = sum_list (map g ds) + (f d :: nat)"
  using assms
proof (induction ds)
  case (Cons e ds)
  show ?case
  proof (cases "d = e")
    case True
    have "map f ds = map g ds"
      by (rule map_cong[OF refl], rule Cons.prems(3)) (use True Cons.prems(1) in auto)
    then show ?thesis using True by (simp del: map_eq_conv)
  next
    case False
    then show ?thesis using Cons by simp
  qed
qed simp

lemma sort_insert_filter:
  assumes "sort xs = filter P [0..<n]" "i < n" "\<not> P i" "\<And>j. j < n \<Longrightarrow> Q j \<longleftrightarrow> P j \<or> j = i"
  shows "sort (xs @ [i]) = filter Q [0..<n]"
proof (rule sorted_eq_if_set_eq)
  have x: "set xs = {j. j < n \<and> P j}" "distinct xs"
    using arg_cong[OF assms(1), of set] arg_cong[OF assms(1), of distinct] by auto
  then show "distinct (sort (xs @ [i]))" using assms(3) by simp
  show "set (sort (xs @ [i])) = set (filter Q [0..<n])"
    using x assms by auto
qed (auto simp: sorted_wrt_filter)

lemma movedBuckets_update:
  assumes "sort xs = movedBuckets old new s d" "i < length old" "length new = length old"
    "old ! i = dn" "new ! i = dn" "r \<noteq> dn"
  shows "sort (xs @ (if s = dn \<and> d = r then [i] else [])) = movedBuckets old (new[i := r]) s d"
proof (cases "s = dn \<and> d = r")
  case True
  then show ?thesis
    using assms unfolding movedBuckets_def
    by (auto intro!: sort_insert_filter simp: nth_list_update)
next
  case False
  have "movedBuckets old (new[i := r]) s d = movedBuckets old new s d"
    unfolding movedBuckets_def by (rule filter_cong) (use False assms in \<open>auto simp: nth_list_update\<close>)
  with False assms show ?thesis by auto
qed

text \<open>The state after a bucket has been given away, under the facts that hold before.\<close>

definition afterGive :: "u16 \<Rightarrow> u16 \<Rightarrow> Transfer \<Rightarrow> Transfer" where
  "afterGive d r st =
     (let bs = mslice (donorBuckets st) d in
      st\<lparr>donorBuckets := AList.update d (butlast bs) (donorBuckets st),
         newBuckets := (newBuckets st)[last bs := (newBuckets st ! last bs)\<lparr>WorkerID := r\<rparr>],
         bucketOwnerChanges := recordChange (bucketOwnerChanges st) d r (last bs)\<rparr>)"

lemma transfer_invD:
  assumes "transfer_inv old donors R st"
  shows "length (newBuckets st) = length old" "length (owners (newBuckets st)) = length old"
    "map KeyMap (newBuckets st) = map KeyMap old"
    "d \<in> set donors \<Longrightarrow> distinct (mslice (donorBuckets st) d)"
    "d \<in> set donors \<Longrightarrow> b \<in> set (mslice (donorBuckets st) d) \<Longrightarrow>
       b < length old \<and> owners old ! b = d \<and> owners (newBuckets st) ! b = d"
    "i < length old \<Longrightarrow> owners (newBuckets st) ! i = owners old ! i
       \<or> owners old ! i \<in> set donors \<and> owners (newBuckets st) ! i \<in> R"
    "no_empty_entry (bucketOwnerChanges st)"
    "sort (moved (bucketOwnerChanges st) s e)
       = movedBuckets (owners old) (owners (newBuckets st)) s e"
  using assms by (simp_all add: transfer_inv_def)

lemma owners_afterGive [simp]:
  "owners (newBuckets (afterGive d r st))
     = (owners (newBuckets st))[last (mslice (donorBuckets st) d) := r]"
  by (simp add: afterGive_def Let_def owners_def map_update)

lemma afterGive_sel [simp]:
  "mslice (donorBuckets (afterGive d r st)) e
     = (if e = d then butlast (mslice (donorBuckets st) d) else mslice (donorBuckets st) e)"
  "bucketOwnerChanges (afterGive d r st)
     = recordChange (bucketOwnerChanges st) d r (last (mslice (donorBuckets st) d))"
  "donorIdx (afterGive d r st) = donorIdx st"
  "length (newBuckets (afterGive d r st)) = length (newBuckets st)"
  by (simp_all add: afterGive_def Let_def)

lemma KeyMap_afterGive:
  assumes "last (mslice (donorBuckets st) d) < length (newBuckets st)"
  shows "map KeyMap (newBuckets (afterGive d r st)) = map KeyMap (newBuckets st)"
  using assms by (simp add: afterGive_def Let_def map_update list_update_same_conv)

lemma donors_afterGive:
  assumes inv: "transfer_inv old donors R st" and d: "d \<in> set donors" and e: "e \<in> set donors"
    and ne: "mslice (donorBuckets st) d \<noteq> []"
    and i: "i \<in> set (mslice (donorBuckets (afterGive d r st)) e)"
  shows "i < length old \<and> owners old ! i = e \<and> owners (newBuckets (afterGive d r st)) ! i = e"
proof -
  let ?b = "last (mslice (donorBuckets st) d)"
  note D = transfer_invD[OF inv]
  have i': "i \<in> set (mslice (donorBuckets st) e)"
    using i by (auto split: if_splits dest: in_set_butlastD)
  have "i \<noteq> ?b"
  proof (cases "e = d")
    case True
    have "?b \<notin> set (butlast (mslice (donorBuckets st) d))"
      using D(4)[OF d] ne by (metis append_butlast_last_id distinct_append
          disjoint_insert(1) list.set(2))
    with i True show ?thesis by auto
  next
    case False
    have "owners old ! ?b = d" using D(5)[OF d] ne by simp
    with D(5)[OF e i'] False show ?thesis by auto
  qed
  with D(5)[OF e i'] show ?thesis by simp
qed

lemma transfer_inv_afterGive:
  assumes inv: "transfer_inv old donors R st" and d: "d \<in> set donors"
    and r: "r \<in> R" "R \<inter> set donors = {}" and ne: "mslice (donorBuckets st) d \<noteq> []"
  shows "transfer_inv old donors R (afterGive d r st)"
proof -
  let ?b = "last (mslice (donorBuckets st) d)" and ?st = "afterGive d r st"
  note D = transfer_invD[OF inv]
  have b: "?b < length old" "owners old ! ?b = d" "owners (newBuckets st) ! ?b = d"
    using D(5)[OF d, of ?b] ne by auto
  have rd: "r \<noteq> d" using d r by auto
  have "sort (moved (bucketOwnerChanges ?st) s e)
      = movedBuckets (owners old) (owners (newBuckets ?st)) s e" for s e
    using movedBuckets_update[OF D(8), of ?b d r s e] b rd D(2) by simp
  moreover have "owners (newBuckets ?st) ! i = owners old ! i
      \<or> owners old ! i \<in> set donors \<and> owners (newBuckets ?st) ! i \<in> R" if "i < length old" for i
    using D(6)[OF that] b d r D(2) by (cases "i = ?b") auto
  moreover have "distinct (mslice (donorBuckets ?st) e)" if "e \<in> set donors" for e
    using D(4) d that by (simp add: distinct_butlast)
  ultimately show ?thesis
    unfolding transfer_inv_def
    using D(1,3,7) b donors_afterGive[OF inv d _ ne, of _ _ r] KeyMap_afterGive[of st d r] by simp
qed

lemma transferred_afterGive:
  assumes inv: "transfer_inv old donors R st" and d: "d \<in> set donors" "distinct donors"
    and r: "r \<notin> set donors" and ne: "mslice (donorBuckets st) d \<noteq> []"
  shows "transferred donors r 1 st (afterGive d r st)"
proof -
  let ?b = "last (mslice (donorBuckets st) d)" and ?st = "afterGive d r st"
  have b: "?b < length (owners (newBuckets st))" "owners (newBuckets st) ! ?b = d"
    using transfer_invD(2,5)[OF inv] d(1) ne by auto
  have rd: "r \<noteq> d" using d r by auto
  have cnt: "count_list (owners (newBuckets ?st)) w + (if d = w then 1 else 0)
      = count_list (owners (newBuckets st)) w + (if r = w then 1 else 0)" for w
    using count_list_update[of ?b "owners (newBuckets st)" r w] b by simp
  have sl: "length (mslice (donorBuckets ?st) e) + (if e = d then 1 else 0)
      = length (mslice (donorBuckets st) e)" for e
    using ne by (cases "mslice (donorBuckets st) d") auto
  have "donation donors ?st + 1 = donation donors st"
    using sum_list_update_distinct[OF d(2,1), of "\<lambda>e. length (mslice (donorBuckets ?st) e)"
        "\<lambda>e. length (mslice (donorBuckets st) e)"] sl[of d]
    by (simp add: donation_def)
  moreover have "count_list (owners (newBuckets ?st)) e + length (mslice (donorBuckets st) e)
      = count_list (owners (newBuckets st)) e + length (mslice (donorBuckets ?st) e)"
    if "e \<in> set donors" for e
    using cnt[of e] sl[of e] that r rd
    by (cases "e = d") (auto simp del: owners_afterGive afterGive_sel)
  moreover have "count_list (owners (newBuckets ?st)) w = count_list (owners (newBuckets st)) w"
    if "w \<notin> set donors" "w \<noteq> r" for w
    using cnt[of w] that d(1) by (auto simp del: owners_afterGive split: if_splits)
  ultimately show ?thesis using cnt[of r] rd unfolding transferred_def by simp
qed

lemma giveBucket_ok:
  assumes inv: "transfer_inv old donors R st" and d: "d \<in> set donors"
    and ne: "mslice (donorBuckets st) d \<noteq> []"
  shows "giveBucket d r st = Inr (afterGive d r st)"
  using transfer_invD(1,5)[OF inv] d ne
  by (simp add: giveBucket_def afterGive_def Let_def at_idx_ok)


lemma transfer_inv_donorIdx [simp]:
  "transfer_inv old donors R (st\<lparr>donorIdx := k\<rparr>) = transfer_inv old donors R st"
  "transferred donors r need (st\<lparr>donorIdx := k\<rparr>) st' = transferred donors r need st st'"
  "donation donors (st\<lparr>donorIdx := k\<rparr>) = donation donors st"
  by (simp_all add: transfer_inv_def transferred_def donation_def)

text \<open>If the loop returns, it has kept the invariant and moved exactly \<open>need\<close> buckets.\<close>

definition transfer_post ::
    "BucketV2 list \<Rightarrow> u16 set \<Rightarrow> u16 list \<Rightarrow> u16 \<Rightarrow> Transfer \<Rightarrow> nat \<Rightarrow> Transfer res \<Rightarrow> bool" where
  "transfer_post old R donors r st need y \<longleftrightarrow>
     (transfer_inv old donors R st \<longrightarrow> r \<in> R \<longrightarrow> R \<inter> set donors = {} \<longrightarrow> distinct donors \<longrightarrow>
      donorIdx st < length donors \<longrightarrow>
      (\<forall>st'. y = Inr st' \<longrightarrow> transfer_inv old donors R st' \<and> transferred donors r need st st'
         \<and> donorIdx st' < length donors))"

lemma transfer_post_skip:
  assumes "transfer_post old R donors r (st\<lparr>donorIdx := (donorIdx st + 1) mod length donors\<rparr>) need y"
  shows "transfer_post old R donors r st need y"
  unfolding transfer_post_def
proof (intro impI)
  assume pre: "transfer_inv old donors R st" "r \<in> R" "R \<inter> set donors = {}" "distinct donors"
    "donorIdx st < length donors"
  then have "(donorIdx st + 1) mod length donors < length donors" by (intro mod_less_divisor) auto
  with assms pre show "\<forall>st'. y = Inr st' \<longrightarrow> transfer_inv old donors R st' \<and>
      transferred donors r need st st' \<and> donorIdx st' < length donors"
    by (simp add: transfer_post_def)
qed

lemma transfer_post_give:
  assumes "need \<noteq> 0" "mslice (donorBuckets st) (donors ! donorIdx st) \<noteq> []"
    and "transfer_post old R donors r
      (afterGive (donors ! donorIdx st) r
         (st\<lparr>donorIdx := (donorIdx st + 1) mod length donors\<rparr>)) (need - 1) y"
  shows "transfer_post old R donors r st need y"
  unfolding transfer_post_def
proof (intro impI allI)
  fix st'
  let ?d = "donors ! donorIdx st"
  let ?st1 = "st\<lparr>donorIdx := (donorIdx st + 1) mod length donors\<rparr>"
  let ?st2 = "afterGive ?d r ?st1"
  assume pre: "transfer_inv old donors R st" "r \<in> R" "R \<inter> set donors = {}" "distinct donors"
    "donorIdx st < length donors" and y: "y = Inr st'"
  have k1: "(donorIdx st + 1) mod length donors < length donors"
    using pre(5) by (intro mod_less_divisor) auto
  have d: "?d \<in> set donors" and ne: "mslice (donorBuckets ?st1) ?d \<noteq> []"
    and inv1: "transfer_inv old donors R ?st1" using assms(2) pre by auto
  have "transfer_inv old donors R st' \<and> transferred donors r (need - 1) ?st2 st'
      \<and> donorIdx st' < length donors"
    using assms(3) y pre k1 transfer_inv_afterGive[OF inv1 d pre(2,3) ne]
    by (simp add: transfer_post_def)
  moreover have "transferred donors r 1 ?st1 ?st2"
    by (rule transferred_afterGive[OF inv1 d pre(4) _ ne]) (use pre in auto)
  ultimately show "transfer_inv old donors R st' \<and> transferred donors r need st st'
      \<and> donorIdx st' < length donors"
    using transferred_add[of donors r 1 ?st1 ?st2 "need - 1" st'] assms(1) by simp
qed

lemma transfer_post_loop:
  assumes "transferLoop donors r st need = Some y"
  shows "transfer_post old R donors r st need y"
proof (rule transferLoop.raw_induct[of "transfer_post old R", OF _ assms])
  fix f donors r st need y
  assume IH: "\<And>donors r st need y. f donors r st need = Some y \<Longrightarrow>
    transfer_post old R donors r st need y"
  assume body: "(if need = 0 then Some (Inr st)
      else case at_idx donors (donorIdx st) of Inl e \<Rightarrow> Some (Inl e)
        | Inr donor \<Rightarrow>
            if mslice (donorBuckets st) donor = []
            then f donors r (st\<lparr>donorIdx := (donorIdx st + 1) mod length donors\<rparr>) need
            else case giveBucket donor r (st\<lparr>donorIdx := (donorIdx st + 1) mod length donors\<rparr>) of
                Inl e \<Rightarrow> Some (Inl e)
              | Inr st' \<Rightarrow> f donors r st' (need - 1)) = Some y"
  let ?st1 = "st\<lparr>donorIdx := (donorIdx st + 1) mod length donors\<rparr>"
  show "transfer_post old R donors r st need y"
  proof (cases "need \<noteq> 0 \<and> donorIdx st < length donors \<and> transfer_inv old donors R st")
    case False
    then show ?thesis using body by (auto simp: transfer_post_def transferred_0)
  next
    case True
    let ?d = "donors ! donorIdx st"
    show ?thesis
    proof (cases "mslice (donorBuckets st) ?d = []")
      case empty: True
      show ?thesis
        by (rule transfer_post_skip, rule IH) (use body True empty in \<open>simp add: at_idx_ok\<close>)
    next
      case False
      have "giveBucket ?d r ?st1 = Inr (afterGive ?d r ?st1)"
        by (rule giveBucket_ok[of old donors R]) (use True False in auto)
      then have "f donors r (afterGive ?d r ?st1) (need - 1) = Some y"
        using body True False by (simp add: at_idx_ok)
      from transfer_post_give[OF _ False IH[OF this]] True show ?thesis by simp
    qed
  qed
qed

lemma transferLoop_sound:
  assumes "transferLoop donors r st need = Some (Inr st')"
    and "transfer_inv old donors R st" "r \<in> R" "R \<inter> set donors = {}" "distinct donors"
    and "donorIdx st < length donors"
  shows "transfer_inv old donors R st'" "transferred donors r need st st'"
    "donorIdx st' < length donors"
  using transfer_post_loop[OF assms(1), of old R] assms(2-) by (simp_all add: transfer_post_def)

text \<open>Donors without buckets are skipped.\<close>

lemma transferLoop_skip:
  assumes "need \<noteq> 0" "donorIdx st < length donors"
    "\<And>j. j < i \<Longrightarrow> mslice (donorBuckets st) (donors ! ((donorIdx st + j) mod length donors)) = []"
  shows "transferLoop donors r st need
    = transferLoop donors r (st\<lparr>donorIdx := (donorIdx st + i) mod length donors\<rparr>) need"
  using assms(3)
proof (induction i)
  case 0
  then show ?case using assms(2) by simp
next
  case (Suc i)
  let ?k = "(donorIdx st + i) mod length donors"
  have "?k < length donors" using assms(2) by (intro mod_less_divisor) auto
  then have "transferLoop donors r (st\<lparr>donorIdx := ?k\<rparr>) need
      = transferLoop donors r (st\<lparr>donorIdx := (?k + 1) mod length donors\<rparr>) need"
    using Suc.prems[of i] assms(1) by (subst transferLoop.simps) (simp add: at_idx_ok)
  moreover have "(?k + 1) mod length donors = (donorIdx st + Suc i) mod length donors"
    by (simp add: mod_Suc_eq)
  ultimately show ?case using Suc by simp
qed

lemma donation_pos_ex:
  assumes "0 < donation donors st" "k < length donors"
  shows "\<exists>i. mslice (donorBuckets st) (donors ! ((k + i) mod length donors)) \<noteq> []"
proof -
  obtain d where "d \<in> set donors" "mslice (donorBuckets st) d \<noteq> []"
    using assms(1) unfolding donation_def by (induction donors) auto
  then obtain j where j: "j < length donors" "mslice (donorBuckets st) (donors ! j) \<noteq> []"
    by (auto simp: in_set_conv_nth)
  have "(k + (j + length donors - k)) mod length donors = j" using assms(2) j by simp
  then show ?thesis using j by metis
qed

text \<open>The loop returns whenever the donors hold at least \<open>need\<close> buckets.\<close>

lemma transferLoop_returns:
  assumes "transfer_inv old donors R st" "r \<in> R" "R \<inter> set donors = {}" "distinct donors"
    and "donorIdx st < length donors" "need \<le> donation donors st"
  shows "\<exists>st'. transferLoop donors r st need = Some (Inr st')"
  using assms(1,5,6)
proof (induction need arbitrary: st)
  case 0
  then show ?case by (subst transferLoop.simps) simp
next
  case (Suc need)
  let ?n = "length donors"
  let ?P = "\<lambda>i. mslice (donorBuckets st) (donors ! ((donorIdx st + i) mod ?n)) \<noteq> []"
  define i where "i = (LEAST i. ?P i)"
  have "0 < donation donors st" using Suc.prems by simp
  from donation_pos_ex[OF this Suc.prems(2)] obtain i' where "?P i'" by blast
  then have i: "?P i" unfolding i_def by (rule LeastI[where P = ?P])
  have before: "\<not> ?P j" if "j < i" for j using not_less_Least[of j ?P] that by (simp add: i_def)
  let ?k = "(donorIdx st + i) mod ?n"
  let ?d = "donors ! ?k" and ?st1 = "st\<lparr>donorIdx := (?k + 1) mod ?n\<rparr>"
  have k: "?k < ?n" using Suc.prems(2) by (intro mod_less_divisor) auto
  then have d: "?d \<in> set donors" by simp
  have inv1: "transfer_inv old donors R ?st1" using Suc.prems(1) by simp
  have ne: "mslice (donorBuckets ?st1) ?d \<noteq> []" using i by simp
  have "transferLoop donors r st (Suc need)
      = transferLoop donors r (st\<lparr>donorIdx := ?k\<rparr>) (Suc need)"
    by (rule transferLoop_skip) (use Suc.prems(2) before in auto)
  also have "\<dots> = transferLoop donors r (afterGive ?d r ?st1) need"
    using giveBucket_ok[OF inv1 d ne, of r] i k by (subst transferLoop.simps) (simp add: at_idx_ok)
  finally have step: "transferLoop donors r st (Suc need)
      = transferLoop donors r (afterGive ?d r ?st1) need" .
  have "transferred donors r 1 ?st1 (afterGive ?d r ?st1)"
    by (rule transferred_afterGive[OF inv1 d assms(4) _ ne]) (use assms(2,3) in auto)
  then have "need \<le> donation donors (afterGive ?d r ?st1)"
    using Suc.prems(3) by (simp add: transferred_def)
  moreover have "transfer_inv old donors R (afterGive ?d r ?st1)"
    by (rule transfer_inv_afterGive[OF inv1 d assms(2,3) ne])
  moreover have "donorIdx (afterGive ?d r ?st1) < ?n"
    using Suc.prems(2) by simp (meson mod_less_divisor le_less_trans zero_le)
  ultimately show ?case using Suc.IH[of "afterGive ?d r ?st1"] by (simp only: step)
qed


section \<open>Serving all recipients\<close>

lemma donation_0: "donation donors st = 0 \<longleftrightarrow> (\<forall>d \<in> set donors. mslice (donorBuckets st) d = [])"
  by (simp add: donation_def sum_list_eq_0_iff)

definition transferredAll :: "u16 list \<Rightarrow> u16 list \<Rightarrow> (u16 \<Rightarrow> nat) \<Rightarrow> Transfer \<Rightarrow> Transfer \<Rightarrow> bool" where
  "transferredAll donors rs need st st' \<longleftrightarrow>
     donation donors st' + sum_list (map need rs) = donation donors st
   \<and> (\<forall>w. w \<notin> set donors \<longrightarrow> count_list (owners (newBuckets st')) w
        = count_list (owners (newBuckets st)) w + (if w \<in> set rs then need w else 0))
   \<and> (\<forall>d \<in> set donors. count_list (owners (newBuckets st')) d + length (mslice (donorBuckets st) d)
        = count_list (owners (newBuckets st)) d + length (mslice (donorBuckets st') d))"

definition serveAll :: "u16 list \<Rightarrow> (u16 \<Rightarrow> nat) \<Rightarrow> Transfer \<Rightarrow> u16 list \<Rightarrow> Transfer run" where
  "serveAll donors need = ofold (\<lambda>st w. transferLoop donors w st (need w))"

lemma transferredAll_Cons:
  assumes "transferred donors r (need r) st st1" "transferredAll donors rs need st1 st'"
    "r \<notin> set rs" "r \<notin> set donors"
  shows "transferredAll donors (r # rs) need st st'"
proof -
  have "count_list (owners (newBuckets st')) d + length (mslice (donorBuckets st) d)
      = count_list (owners (newBuckets st)) d + length (mslice (donorBuckets st') d)"
    if "d \<in> set donors" for d
  proof -
    have "count_list (owners (newBuckets st1)) d + length (mslice (donorBuckets st) d)
        = count_list (owners (newBuckets st)) d + length (mslice (donorBuckets st1) d)"
      "count_list (owners (newBuckets st')) d + length (mslice (donorBuckets st1) d)
        = count_list (owners (newBuckets st1)) d + length (mslice (donorBuckets st') d)"
      using assms that by (simp_all add: transferred_def transferredAll_def)
    then show ?thesis by linarith
  qed
  moreover have "count_list (owners (newBuckets st')) w
      = count_list (owners (newBuckets st)) w + (if w \<in> set (r # rs) then need w else 0)"
    if "w \<notin> set donors" for w
    using assms that by (cases "w = r") (simp_all add: transferred_def transferredAll_def)
  ultimately show ?thesis
    using assms by (simp add: transferred_def transferredAll_def)
qed

lemma serveAll_sound:
  assumes "serveAll donors need st rs = Some (Inr st')" "transfer_inv old donors R st"
    "set rs \<subseteq> R" "R \<inter> set donors = {}" "distinct donors" "distinct rs" "donorIdx st < length donors"
  shows "transfer_inv old donors R st' \<and> transferredAll donors rs need st st'"
  using assms
proof (induction rs arbitrary: st)
  case Nil
  then show ?case by (simp add: serveAll_def transferredAll_def)
next
  case (Cons r rs)
  obtain st1 where st1: "transferLoop donors r st (need r) = Some (Inr st1)"
    "serveAll donors need st1 rs = Some (Inr st')"
    using Cons.prems(1) by (auto simp: serveAll_def obind_eq_Some_Inr)
  have r: "r \<in> R" using Cons.prems(3) by simp
  note s = transferLoop_sound[OF st1(1) Cons.prems(2) r Cons.prems(4,5,7)]
  have "transfer_inv old donors R st' \<and> transferredAll donors rs need st1 st'"
    by (rule Cons.IH) (use st1 s Cons.prems in auto)
  moreover have "r \<notin> set donors" "r \<notin> set rs" using r Cons.prems by auto
  ultimately show ?case using transferredAll_Cons[where need = need, OF s(2)] by blast
qed

lemma serveAll_returns:
  assumes "transfer_inv old donors R st"
    "set rs \<subseteq> R" "R \<inter> set donors = {}" "distinct donors" "donorIdx st < length donors"
    "sum_list (map need rs) \<le> donation donors st"
  shows "\<exists>st'. serveAll donors need st rs = Some (Inr st')"
  using assms
proof (induction rs arbitrary: st)
  case Nil
  then show ?case by (simp add: serveAll_def)
next
  case (Cons r rs)
  have r: "r \<in> R" and le: "need r \<le> donation donors st" using Cons.prems by auto
  obtain st1 where st1: "transferLoop donors r st (need r) = Some (Inr st1)"
    using transferLoop_returns[OF Cons.prems(1) r Cons.prems(3-5) le] by blast
  note s = transferLoop_sound[OF st1 Cons.prems(1) r Cons.prems(3-5)]
  have "\<exists>st'. serveAll donors need st1 rs = Some (Inr st')"
    by (rule Cons.IH) (use s Cons.prems in \<open>auto simp: transferred_def\<close>)
  with st1 show ?case by (simp add: serveAll_def)
qed

text \<open>The starting state of a transfer satisfies the invariant when the donated lists are
  parts of what the donors own.\<close>

lemma transfer_inv_start:
  assumes "\<And>d. d \<in> set donors \<Longrightarrow> distinct (mslice D d) \<and> set (mslice D d) \<subseteq> set (bucketsOf (owners old) d)"
  shows "transfer_inv old donors R
    \<lparr>donorIdx = 0, donorBuckets = D, newBuckets = old, bucketOwnerChanges = Map.empty\<rparr>"
proof -
  have "movedBuckets (owners old) (owners old) s d = []" for s d
    by (auto simp: movedBuckets_def filter_empty_conv)
  moreover have "distinct (mslice D d) \<and> (\<forall>b\<in>set (mslice D d). b < length old \<and> owners old ! b = d)"
    if "d \<in> set donors" for d
    using assms[OF that] by auto
  ultimately show ?thesis by (simp add: transfer_inv_def)
qed

text \<open>At the end, sorting the recorded lists gives the difference of the owners.\<close>

lemma moved_sortChanges [simp]: "moved (sortChanges ch) s d = sort (moved ch s d)"
  by (auto simp: moved_def sortChanges_def split: option.splits)

lemma no_empty_entry_sortChanges [simp]: "no_empty_entry ch \<Longrightarrow> no_empty_entry (sortChanges ch)"
proof -
  assume a: "no_empty_entry ch"
  have ne: "l = []" if "sort l = []" for l :: "nat list" using that by (metis set_empty set_sort)
  show ?thesis unfolding no_empty_entry_def
  proof (intro allI impI)
    fix s m assume "sortChanges ch s = Some m"
    then obtain m0 where m0: "ch s = Some m0" "m = (\<lambda>d. map_option sort (m0 d))"
      by (auto simp: sortChanges_def)
    then have "m0 \<noteq> Map.empty" "\<forall>d. m0 d \<noteq> Some []" using a by (simp_all add: no_empty_entry_def)
    moreover from this(1) obtain d where "m0 d \<noteq> None" by (auto simp: fun_eq_iff)
    then have "m d \<noteq> None" by (simp add: m0)
    then have "m \<noteq> Map.empty" by auto
    ultimately show "m \<noteq> Map.empty \<and> (\<forall>d. m d \<noteq> Some [])"
      by (auto simp: m0(2) dest!: ne)
  qed
qed

lemma transfer_inv_changes:
  assumes "transfer_inv old donors R st"
  shows "sortChanges (bucketOwnerChanges st) = ownerDiff (owners old) (owners (newBuckets st))"
  using transfer_invD[OF assms] by (intro ownerChanges_eqI) simp_all


section \<open>Preparing the donors\<close>

lemma scaleUpDonor_Inr:
  "scaleUpDonor desired (D, rem) (w, l) = Inr (D', rem') \<longleftrightarrow>
     (\<exists>n. map_of desired w = Some n \<and> n \<le> length l \<and> rem' = rem + (length l - n)
        \<and> D' = (if length l = n then D else AList.update w (drop n l) D))"
  by (cases "map_of desired w") (auto simp: scaleUpDonor_def Let_def res_elims)

lemma scaleUpDonor_fold_sound:
  assumes "rfold (scaleUpDonor desired) (D0, rem0) ps = Inr (D, rem)" "distinct (map fst ps)"
    "\<And>w. w \<in> fst ` set ps \<Longrightarrow> mslice D0 w = []"
  shows "(\<forall>(w, l) \<in> set ps. \<exists>n. map_of desired w = Some n \<and> n \<le> length l \<and> mslice D w = drop n l)
    \<and> (\<forall>w. w \<notin> fst ` set ps \<longrightarrow> mslice D w = mslice D0 w)
    \<and> rem = rem0 + sum_list (map (\<lambda>(w, l). length (mslice D w)) ps)"
  using assms
proof (induction ps arbitrary: D0 rem0)
  case (Cons p ps)
  obtain w l where p: "p = (w, l)" by fastforce
  obtain D1 rem1 where 1: "scaleUpDonor desired (D0, rem0) (w, l) = Inr (D1, rem1)"
    "rfold (scaleUpDonor desired) (D1, rem1) ps = Inr (D, rem)"
    using Cons.prems(1) p by (auto simp: rbind_eq_Inr)
  obtain n where n: "map_of desired w = Some n" "n \<le> length l" "rem1 = rem0 + (length l - n)"
    "D1 = (if length l = n then D0 else AList.update w (drop n l) D0)"
    using 1(1) by (auto simp: scaleUpDonor_Inr)
  have w: "w \<notin> fst ` set ps" using Cons.prems(2) p by auto
  have D1w: "mslice D1 w = drop n l" using n Cons.prems(3)[of w] p by auto
  have D1o: "mslice D1 v = mslice D0 v" if "v \<noteq> w" for v using n that by simp
  have "(\<forall>(w, l) \<in> set ps. \<exists>n. map_of desired w = Some n \<and> n \<le> length l \<and> mslice D w = drop n l)
    \<and> (\<forall>w. w \<notin> fst ` set ps \<longrightarrow> mslice D w = mslice D1 w)
    \<and> rem = rem1 + sum_list (map (\<lambda>(w, l). length (mslice D w)) ps)"
  proof (rule Cons.IH[OF 1(2)])
    show "mslice D1 v = []" if "v \<in> fst ` set ps" for v
      using that Cons.prems(3)[of v] D1o[of v] w p by auto
  qed (use Cons.prems(2) in auto)
  then show ?case using n D1w D1o w p by auto
qed simp

lemma scaleUpDonor_fold_returns:
  assumes "\<forall>(w, l) \<in> set ps. \<exists>n. map_of desired w = Some n \<and> n \<le> length l"
  shows "\<exists>D rem. rfold (scaleUpDonor desired) (D0, rem0) ps = Inr (D, rem)"
  using assms
proof (induction ps arbitrary: D0 rem0)
  case (Cons p ps)
  obtain w l where p: "p = (w, l)" by fastforce
  obtain D1 rem1 where "scaleUpDonor desired (D0, rem0) (w, l) = Inr (D1, rem1)"
    using Cons.prems p by (fastforce simp: scaleUpDonor_Inr)
  then show ?case using Cons.IH[of D1 rem1] Cons.prems p by auto
qed simp

lemma scaleDownDonor_fold:
  assumes "\<forall>w \<in> set rs. map_of bb w = Some (f w)" "distinct rs"
  shows "\<exists>D. rfold (scaleDownDonor bb) (D0, n0) rs = Inr (D, n0 + sum_list (map (length \<circ> f) rs))
    \<and> (\<forall>w. mslice D w = (if w \<in> set rs then f w else mslice D0 w))"
  using assms
proof (induction rs arbitrary: D0 n0)
  case (Cons r rs)
  have "scaleDownDonor bb (D0, n0) r = Inr (AList.update r (f r) D0, n0 + length (f r))"
    using Cons.prems by (simp add: scaleDownDonor_def)
  then show ?case
    using Cons.IH[of "AList.update r (f r) D0" "n0 + length (f r)"] Cons.prems
    by (auto simp: add.assoc)
qed simp

lemma scaleDownNeed_Inr:
  "scaleDownNeed desired bb (M, t) w = Inr (M', t') \<longleftrightarrow>
     (\<exists>n. map_of desired w = Some n \<and> length (mslice bb w) \<le> n
        \<and> t' = t + (n - length (mslice bb w))
        \<and> M' = (if n = length (mslice bb w) then M else AList.update w (n - length (mslice bb w)) M))"
  by (cases "map_of desired w") (auto simp: scaleDownNeed_def Let_def res_elims)

definition needOf :: "(u16, nat) gomap \<Rightarrow> u16 \<Rightarrow> nat" where
  "needOf M w = (case map_of M w of None \<Rightarrow> 0 | Some n \<Rightarrow> n)"

lemma scaleDownNeed_fold_sound:
  assumes "rfold (scaleDownNeed desired bb) (M0, t0) ws = Inr (M, t)" "distinct ws"
    "\<And>w. w \<in> set ws \<Longrightarrow> map_of M0 w = None"
  shows "(\<forall>w \<in> set ws. \<exists>n. map_of desired w = Some n \<and> n = length (mslice bb w) + needOf M w)
    \<and> (\<forall>w. w \<notin> set ws \<longrightarrow> map_of M w = map_of M0 w) \<and> t = t0 + sum_list (map (needOf M) ws)"
  using assms
proof (induction ws arbitrary: M0 t0)
  case (Cons w ws)
  obtain M1 t1 where 1: "scaleDownNeed desired bb (M0, t0) w = Inr (M1, t1)"
    "rfold (scaleDownNeed desired bb) (M1, t1) ws = Inr (M, t)"
    using Cons.prems(1) by (auto simp: rbind_eq_Inr)
  obtain n where n: "map_of desired w = Some n" "length (mslice bb w) \<le> n"
    "t1 = t0 + (n - length (mslice bb w))"
    "M1 = (if n = length (mslice bb w) then M0 else AList.update w (n - length (mslice bb w)) M0)"
    using 1(1) by (auto simp: scaleDownNeed_Inr)
  have M1: "map_of M1 v = map_of M0 v" if "v \<noteq> w" for v using n that by simp
  have M1w: "needOf M1 w = n - length (mslice bb w)" using n Cons.prems(3)[of w] by (simp add: needOf_def)
  have IH: "(\<forall>w \<in> set ws. \<exists>n. map_of desired w = Some n \<and> n = length (mslice bb w) + needOf M w)
    \<and> (\<forall>w. w \<notin> set ws \<longrightarrow> map_of M w = map_of M1 w) \<and> t = t1 + sum_list (map (needOf M) ws)"
  proof (rule Cons.IH[OF 1(2)])
    show "map_of M1 v = None" if "v \<in> set ws" for v
      using that Cons.prems(2) Cons.prems(3)[of v] M1[of v] by auto
  qed (use Cons.prems(2) in simp)
  then have "needOf M w = n - length (mslice bb w)"
    using Cons.prems(2) M1w by (simp add: needOf_def)
  with IH n M1 show ?case by auto
qed simp

lemma scaleDownNeed_fold_returns:
  assumes "\<forall>w \<in> set ws. \<exists>n. map_of desired w = Some n \<and> length (mslice bb w) \<le> n"
  shows "\<exists>M t. rfold (scaleDownNeed desired bb) (M0, t0) ws = Inr (M, t)"
  using assms
proof (induction ws arbitrary: M0 t0)
  case (Cons w ws)
  obtain M1 t1 where "scaleDownNeed desired bb (M0, t0) w = Inr (M1, t1)"
    using Cons.prems by (fastforce simp: scaleDownNeed_Inr)
  then show ?case using Cons.IH[of M1 t1] Cons.prems by auto
qed simp


section \<open>Repartitioning is sound\<close>

lemma validate_Inr:
  "validateAndPrepareRepartition p ws old = Inr (us, ex, bb) \<longleftrightarrow>
     us = ws \<and> distinct ws \<and> ws \<noteq> [] \<and> int (length ws) \<le> NumBuckets p
   \<and> existingWorkers old = (ex, bb) \<and> length ws \<noteq> length ex
   \<and> (if length ex < length ws then set (owners old) \<subseteq> set ws else set ws \<subseteq> set (owners old))"
proof -
  obtain ex' bb' where e: "existingWorkers old = (ex', bb')" by fastforce
  note f = existingWorkers_facts[OF e]
  have len: "length bb' = length ex'" using f(1) by (metis length_map)
  have up: "list_all (\<lambda>w. w \<in> set ws) (map fst bb') \<longleftrightarrow> set (owners old) \<subseteq> set ws" for ws
    unfolding f(1) using f(3) by (auto simp: list_all_iff)
  have down: "list_all (\<lambda>w. \<exists>y. map_of bb' w = Some y) ws \<longleftrightarrow> set ws \<subseteq> set (owners old)" for ws
    by (auto simp: list_all_iff f(5) split: if_splits)
  show ?thesis
    unfolding validateAndPrepareRepartition_def updatedWorkerSet_eq
    by (auto simp: e len up down res_elims)
qed

lemma scaleUpRecipients_serve:
  "ofold (scaleUpRecipient desired ex) (rem, st) ws = Some (Inr (rem', st')) \<Longrightarrow>
     serveAll ex (needOf desired) st ws = Some (Inr st')"
proof (induction ws arbitrary: rem st)
  case (Cons w ws)
  obtain rem1 st1 where 1: "scaleUpRecipient desired ex (rem, st) w = Some (Inr (rem1, st1))"
    "ofold (scaleUpRecipient desired ex) (rem1, st1) ws = Some (Inr (rem', st'))"
    using Cons.prems by (auto simp: obind_eq_Some_Inr)
  then have "transferLoop ex w st (needOf desired w) = Some (Inr st1)"
    by (auto simp: scaleUpRecipient_def needOf_def res_elims split: option.splits)
  then show ?case using Cons.IH[OF 1(2)] by (simp add: serveAll_def)
qed (simp add: serveAll_def)

lemma scaleUpRecipients_return:
  assumes "serveAll ex (needOf desired) st ws = Some (Inr st')"
    "\<forall>w \<in> set ws. 0 < needOf desired w" "sum_list (map (needOf desired) ws) \<le> rem"
  shows "\<exists>rem'. ofold (scaleUpRecipient desired ex) (rem, st) ws = Some (Inr (rem', st'))"
  using assms
proof (induction ws arbitrary: rem st)
  case (Cons w ws)
  obtain st1 where 1: "transferLoop ex w st (needOf desired w) = Some (Inr st1)"
    "serveAll ex (needOf desired) st1 ws = Some (Inr st')"
    using Cons.prems(1) by (auto simp: serveAll_def obind_eq_Some_Inr)
  obtain n where n: "map_of desired w = Some n" "needOf desired w = n" "0 < n"
    using Cons.prems(2) by (auto simp: needOf_def split: option.splits)
  have "scaleUpRecipient desired ex (rem, st) w = Some (Inr (rem - n, st1))"
    using 1(1) n Cons.prems(3) by (simp add: scaleUpRecipient_def)
  moreover have "sum_list (map (needOf desired) ws) \<le> rem - n" using Cons.prems(3) n by simp
  ultimately show ?case using Cons.IH[OF 1(2), of "rem - n"] Cons.prems(2) by auto
qed (simp add: serveAll_def)

text \<open>The donors of a scale-up: each existing worker gives the buckets after its desired
  count.\<close>

lemma scaleUp_donors:
  assumes ex: "existingWorkers old = (ex, bb)" and ord: "range_order ord"
    and r: "rfold (scaleUpDonor desired) ([], 0) (ord bb) = Inr (D, rem)"
  shows "w \<in> set ex \<Longrightarrow> \<exists>n. map_of desired w = Some n \<and> n \<le> count_list (owners old) w
      \<and> mslice D w = drop n (bucketsOf (owners old) w)"
    and "rem = sum_list (map (\<lambda>w. length (mslice D w)) ex)"
proof -
  note f = existingWorkers_facts[OF ex] and o' = range_orderD[OF ord, of bb]
  have bb: "(w, l) \<in> set bb \<longleftrightarrow> w \<in> set (owners old) \<and> l = bucketsOf (owners old) w" for w l
  proof -
    have "distinct (map fst bb)" using f(1,2) by simp
    then have "(w, l) \<in> set bb \<longleftrightarrow> map_of bb w = Some l" by simp
    then show ?thesis using f(5) by auto
  qed
  have mf: "mset (map fst (ord bb)) = mset ex"
    using o'(1) f(1) by (metis mset_map)
  have d: "distinct (map fst (ord bb))" using mf f(2) by (metis mset_eq_imp_distinct_iff)
  note s = scaleUpDonor_fold_sound[OF r d]
  show "\<exists>n. map_of desired w = Some n \<and> n \<le> count_list (owners old) w
      \<and> mslice D w = drop n (bucketsOf (owners old) w)" if w: "w \<in> set ex"
  proof -
    have "(w, bucketsOf (owners old) w) \<in> set (ord bb)" using w f(3) bb o'(2) by simp
    then show ?thesis using s by (fastforce simp: mslice_def length_bucketsOf)
  qed
  have "rem = sum_list (map (\<lambda>w. length (mslice D w)) (map fst (ord bb)))"
    using s by (simp add: mslice_def comp_def case_prod_unfold)
  also have "\<dots> = sum_list (map (\<lambda>w. length (mslice D w)) ex)"
    using mf by (rule sum_list_mset_cong)
  finally show "rem = sum_list (map (\<lambda>w. length (mslice D w)) ex)" .
qed

lemma scaleUp_start:
  assumes "existingWorkers old = (ex, bb)" "range_order ord"
    "rfold (scaleUpDonor desired) ([], 0) (ord bb) = Inr (D, rem)"
  shows "transfer_inv old ex R
    \<lparr>donorIdx = 0, donorBuckets = D, newBuckets = old, bucketOwnerChanges = Map.empty\<rparr>"
proof (rule transfer_inv_start)
  fix d assume "d \<in> set ex"
  from scaleUp_donors(1)[OF assms this]
  obtain n where n: "mslice D d = drop n (bucketsOf (owners old) d)" by blast
  show "distinct (mslice D d) \<and> set (mslice D d) \<subseteq> set (bucketsOf (owners old) d)"
    unfolding n by (simp add: set_drop_subset del: set_bucketsOf)
qed

lemma repartitionScaleUp_sound:
  assumes ex: "existingWorkers old = (ex, bb)" and ord: "range_order ord" and "distinct ws"
    and run: "repartitionScaleUp ord ws desired ex bb old = Some (Inr (new, ch))"
  shows "\<exists>st. transfer_inv old ex (set ws - set ex) st
    \<and> new = newBuckets st \<and> ch = bucketOwnerChanges st"
proof -
  note f = existingWorkers_facts[OF ex]
  define news where "news = filter (\<lambda>w. map_of bb w = None) ws"
  have news: "set news = set ws - set ex" using f(3,5) by (auto simp: news_def)
  obtain D rem rem' st where
    d: "rfold (scaleUpDonor desired) ([], 0) (ord bb) = Inr (D, rem)" and "rem \<noteq> 0"
    and o': "ofold (scaleUpRecipient desired ex)
      (rem, \<lparr>donorIdx = 0, donorBuckets = D, newBuckets = old, bucketOwnerChanges = Map.empty\<rparr>) news
      = Some (Inr (rem', st))" and res: "new = newBuckets st" "ch = bucketOwnerChanges st"
    using run unfolding repartitionScaleUp_def Let_def news_def[symmetric]
    by (auto simp: res_elims)
  have "ex \<noteq> []" using scaleUp_donors(2)[OF ex ord d] \<open>rem \<noteq> 0\<close> by auto
  then have "transfer_inv old ex (set ws - set ex) st"
    using serveAll_sound[OF scaleUpRecipients_serve[OF o'] scaleUp_start[OF ex ord d], of "set ws - set ex"]
      news f(2) assms(3) by (auto simp: news_def)
  with res show ?thesis by blast
qed

lemma scaleDown_start:
  assumes ex: "existingWorkers old = (ex, bb)"
    and rm: "removed = filter (\<lambda>w. w \<notin> set ws) ex"
  shows "\<exists>D. rfold (scaleDownDonor bb) ([], 0) removed
      = Inr (D, sum_list (map (\<lambda>w. length (bucketsOf (owners old) w)) removed))
    \<and> (\<forall>w \<in> set removed. mslice D w = bucketsOf (owners old) w)
    \<and> transfer_inv old removed R
        \<lparr>donorIdx = 0, donorBuckets = D, newBuckets = old, bucketOwnerChanges = Map.empty\<rparr>"
proof -
  note f = existingWorkers_facts[OF ex]
  have "\<forall>w \<in> set removed. map_of bb w = Some (bucketsOf (owners old) w)" "distinct removed"
    using f by (auto simp: rm)
  from scaleDownDonor_fold[OF this, of "[]" 0] obtain D where
    D: "rfold (scaleDownDonor bb) ([], 0) removed
      = Inr (D, sum_list (map (\<lambda>w. length (bucketsOf (owners old) w)) removed))"
    "\<forall>w \<in> set removed. mslice D w = bucketsOf (owners old) w"
    by (auto simp: comp_def)
  then show ?thesis using transfer_inv_start[of removed D old R] by auto
qed

lemma repartitionScaleDown_sound:
  assumes ex: "existingWorkers old = (ex, bb)" and "distinct ws"
    and run: "repartitionScaleDown ws ws desired ex bb old = Some (Inr (new, ch))"
  shows "\<exists>st. transfer_inv old (filter (\<lambda>w. w \<notin> set ws) ex) (set ws) st
    \<and> new = newBuckets st \<and> ch = bucketOwnerChanges st
    \<and> (\<forall>d \<in> set ex. d \<notin> set ws \<longrightarrow> d \<notin> set (owners new))"
proof -
  define removed where "removed = filter (\<lambda>w. w \<notin> set ws) ex"
  let ?tot = "sum_list (map (\<lambda>w. length (bucketsOf (owners old) w)) removed)"
  obtain D where D: "rfold (scaleDownDonor bb) ([], 0) removed = Inr (D, ?tot)"
    "\<forall>w \<in> set removed. mslice D w = bucketsOf (owners old) w"
    "transfer_inv old removed (set ws)
        \<lparr>donorIdx = 0, donorBuckets = D, newBuckets = old, bucketOwnerChanges = Map.empty\<rparr>"
    using scaleDown_start[OF ex removed_def] by blast
  let ?st = "\<lparr>donorIdx = 0, donorBuckets = D, newBuckets = old, bucketOwnerChanges = Map.empty\<rparr>"
  obtain M st where rm: "removed \<noteq> []"
    and M: "rfold (scaleDownNeed desired bb) ([], 0) ws = Inr (M, ?tot)"
    and s: "ofold (scaleDownRecipient removed M) ?st ws = Some (Inr st)"
    and res: "new = newBuckets st" "ch = bucketOwnerChanges st"
    using run D(1) unfolding repartitionScaleDown_def Let_def removed_def[symmetric]
    by (auto simp: res_elims)
  have "scaleDownRecipient removed M = (\<lambda>st w. transferLoop removed w st (needOf M w))"
    by (simp add: fun_eq_iff scaleDownRecipient_def needOf_def)
  with s have serve: "serveAll removed (needOf M) ?st ws = Some (Inr st)" by (simp add: serveAll_def)
  have inv: "transfer_inv old removed (set ws) st" and post: "transferredAll removed ws (needOf M) ?st st"
    using serveAll_sound[OF serve D(3)] rm assms(2) existingWorkers_facts(2)[OF ex]
    by (auto simp: removed_def)
  have "?tot = sum_list (map (needOf M) ws)"
    using scaleDownNeed_fold_sound[OF M assms(2)] by simp
  moreover have "donation removed ?st = ?tot"
    using D(2) by (simp add: donation_def cong: map_cong)
  ultimately have "donation removed st = 0" using post by (simp add: transferredAll_def)
  then have "count_list (owners new) d = 0" if "d \<in> set removed" for d
    using post that D(2) by (auto simp: transferredAll_def donation_0 length_bucketsOf res)
  then show ?thesis using inv res by (auto simp: removed_def count_list_0_iff)
qed


section \<open>Repartitioning returns a balanced assignment\<close>

lemma desired_map:
  assumes "getDesiredCountsPerWorker p ws = Inr desired" "distinct ws"
  shows "map (needOf desired) ws = map (workerShare (nat (NumBuckets p)) (length ws)) [0..<length ws]"
  using getDesiredCountsPerWorker_facts(1)[OF assms]
  by (auto intro!: nth_equalityI simp: needOf_def)

lemma desired_sum:
  assumes "getDesiredCountsPerWorker p ws = Inr desired" "distinct ws" "ws \<noteq> []"
  shows "(\<Sum>w \<in> set ws. needOf desired w) = nat (NumBuckets p)"
  using desired_map[OF assms(1,2)] assms(2,3)
  by (simp add: sum_workerShare flip: sum_list_distinct_conv_sum_set)

lemma desired_nth:
  assumes "getDesiredCountsPerWorker p ws = Inr desired" "distinct ws" "i < length ws"
  shows "needOf desired (ws ! i) = workerShare (nat (NumBuckets p)) (length ws) i"
  using getDesiredCountsPerWorker_facts(1)[OF assms] by (simp add: needOf_def)

lemma desired_pos:
  assumes "getDesiredCountsPerWorker p ws = Inr desired" "distinct ws" "w \<in> set ws"
    "int (length ws) \<le> NumBuckets p"
  shows "0 < needOf desired w"
proof -
  obtain i where i: "i < length ws" "w = ws ! i" using assms(3) by (auto simp: in_set_conv_nth)
  have "0 < nat (NumBuckets p) div length ws" using assms(4) i by (auto simp: div_greater_zero_iff)
  then show ?thesis using desired_nth[OF assms(1,2) i(1)] i by (simp add: workerShare_def)
qed

lemma balanced_if_counts:
  assumes "getDesiredCountsPerWorker p ws = Inr desired" "distinct ws"
    "\<forall>w \<in> set ws. count_list os w = needOf desired w" "length os = nat (NumBuckets p)"
  shows "balanced (nat (NumBuckets p)) ws os"
  using assms(3,4) desired_nth[OF assms(1,2)] by (simp add: balanced_def)

lemma sum_count_owners:
  "set (owners old) \<subseteq> X \<Longrightarrow> finite X \<Longrightarrow> (\<Sum>w \<in> X. count_list (owners old) w) = length old"
  using sum_count_set[of "owners old" X] by simp

lemma scaleUp_supply_meets_demand:
  assumes ex: "existingWorkers old = (ex, bb)" and des: "getDesiredCountsPerWorker p ws = Inr desired"
    and ws: "distinct ws" "ws \<noteq> []" "set (owners old) \<subseteq> set ws"
    and N: "length old = nat (NumBuckets p)"
    and enough: "\<forall>w \<in> set ex. needOf desired w \<le> count_list (owners old) w"
    and news: "set news = set ws - set ex" "distinct news"
  shows "sum_list (map (needOf desired) news)
    = sum_list (map (\<lambda>w. count_list (owners old) w - needOf desired w) ex)"
proof -
  note f = existingWorkers_facts[OF ex]
  have "(\<Sum>w \<in> set ws. needOf desired w)
      = (\<Sum>w \<in> set ex. needOf desired w) + (\<Sum>w \<in> set news. needOf desired w)"
    unfolding news(1) using ws(3) f(3)
    by (metis List.finite_set add.commute sum.subset_diff)
  moreover have "(\<Sum>w \<in> set ex. count_list (owners old) w - needOf desired w)
      = (\<Sum>w \<in> set ex. count_list (owners old) w) - (\<Sum>w \<in> set ex. needOf desired w)"
    by (rule sum_subtractf_nat) (use enough in simp)
  moreover have "(\<Sum>w \<in> set ex. count_list (owners old) w) = length old"
    by (rule sum_count_owners) (simp_all add: f(3))
  ultimately have "(\<Sum>w \<in> set news. needOf desired w)
      = (\<Sum>w \<in> set ex. count_list (owners old) w - needOf desired w)"
    using desired_sum[OF des ws(1,2)] N by simp
  then show ?thesis using news(2) f(2) by (simp add: sum_list_distinct_conv_sum_set)
qed

lemma scaleUp_donors_return:
  assumes ex: "existingWorkers old = (ex, bb)" and ord: "range_order ord"
    and des: "getDesiredCountsPerWorker p ws = Inr desired"
    and ws: "distinct ws" "set (owners old) \<subseteq> set ws"
    and enough: "\<forall>w \<in> set ex. needOf desired w \<le> count_list (owners old) w"
  shows "\<exists>D rem. rfold (scaleUpDonor desired) ([], 0) (ord bb) = Inr (D, rem)"
proof (rule scaleUpDonor_fold_returns, safe)
  note f = existingWorkers_facts[OF ex]
  fix w l assume "(w, l) \<in> set (ord bb)"
  then have wl: "(w, l) \<in> set bb" using range_orderD(2)[OF ord] by metis
  then have w: "w \<in> set ex" using f(1) by (metis fst_conv image_eqI image_set)
  have "map_of bb w = Some l" using wl f(1,2) by (simp add: map_of_is_SomeI)
  then have "l = bucketsOf (owners old) w" using f(5)[of w] by (simp split: if_splits)
  moreover obtain n where "map_of desired w = Some n"
    using getDesiredCountsPerWorker_facts(2)[OF des ws(1), of w] w f(3) ws(2) by auto
  ultimately show "\<exists>n. map_of desired w = Some n \<and> n \<le> length l"
    using enough w by (auto simp: needOf_def length_bucketsOf)
qed

lemma repartitionScaleUp_complete:
  assumes ex: "existingWorkers old = (ex, bb)" and ord: "range_order ord"
    and des: "getDesiredCountsPerWorker p ws = Inr desired"
    and ws: "distinct ws" "set (owners old) \<subseteq> set ws" "length ex < length ws"
      "int (length ws) \<le> NumBuckets p"
    and N: "length old = nat (NumBuckets p)"
    and enough: "\<forall>w \<in> set ex. needOf desired w \<le> count_list (owners old) w"
  shows "\<exists>new ch. repartitionScaleUp ord ws desired ex bb old = Some (Inr (new, ch))
    \<and> (\<forall>w \<in> set ws. count_list (owners new) w = needOf desired w)"
proof -
  note f = existingWorkers_facts[OF ex]
  define news where "news = filter (\<lambda>w. map_of bb w = None) ws"
  have news: "set news = set ws - set ex" "distinct news" using f(3,5) ws by (auto simp: news_def)
  have "\<not> set ws \<subseteq> set ex"
    using ws(1,3) f(2) by (metis List.finite_set card_mono distinct_card not_less)
  then have "news \<noteq> []" using news(1) by auto
  have wsne: "ws \<noteq> []" using ws(3) by auto
  obtain D rem where d: "rfold (scaleUpDonor desired) ([], 0) (ord bb) = Inr (D, rem)"
    using scaleUp_donors_return[OF ex ord des ws(1,2) enough] by blast
  let ?st = "\<lparr>donorIdx = 0, donorBuckets = D, newBuckets = old, bucketOwnerChanges = Map.empty\<rparr>"
  note inv = scaleUp_start[OF ex ord d, of "set news"]
  have Dw: "length (mslice D w) + needOf desired w = count_list (owners old) w" if "w \<in> set ex" for w
    using scaleUp_donors(1)[OF ex ord d that] by (auto simp: needOf_def length_bucketsOf)
  have "rem = sum_list (map (\<lambda>w. count_list (owners old) w - needOf desired w) ex)"
    unfolding scaleUp_donors(2)[OF ex ord d] by (rule arg_cong[of _ _ sum_list], rule map_cong)
      (use Dw in force)+
  then have rem: "rem = sum_list (map (needOf desired) news)"
    using scaleUp_supply_meets_demand[OF ex des ws(1) wsne ws(2) N enough news] by simp
  have don: "donation ex ?st = rem" using scaleUp_donors(2)[OF ex ord d] by (simp add: donation_def)
  have pos: "\<forall>w \<in> set news. 0 < needOf desired w"
    using desired_pos[OF des ws(1) _ ws(4)] news(1) by auto
  have "rem \<noteq> 0" unfolding rem using pos \<open>news \<noteq> []\<close> by (cases news) auto
  then have "ex \<noteq> []" using don by (auto simp: donation_def)
  obtain st where st: "serveAll ex (needOf desired) ?st news = Some (Inr st)"
    using serveAll_returns[OF inv _ _ f(2), of news "needOf desired"] news don rem \<open>ex \<noteq> []\<close> by auto
  have post: "transferredAll ex news (needOf desired) ?st st"
    using serveAll_sound[OF st inv] news f(2) \<open>ex \<noteq> []\<close> by auto
  then have "donation ex st = 0" using don rem by (simp add: transferredAll_def)
  then have "count_list (owners (newBuckets st)) w = needOf desired w" if "w \<in> set ws" for w
    using post that Dw[of w] news(1) f(3)
    by (cases "w \<in> set ex") (auto simp: transferredAll_def donation_0 count_list_0_iff)
  moreover obtain rem' where "ofold (scaleUpRecipient desired ex) (rem, ?st) news = Some (Inr (rem', st))"
    using scaleUpRecipients_return[OF st pos, of rem] rem by auto
  then have "repartitionScaleUp ord ws desired ex bb old
      = Some (Inr (newBuckets st, bucketOwnerChanges st))"
    using d \<open>rem \<noteq> 0\<close> \<open>news \<noteq> []\<close> unfolding repartitionScaleUp_def Let_def news_def[symmetric] by simp
  ultimately show ?thesis by blast
qed


lemma scaleDown_supply_meets_demand:
  assumes ex: "existingWorkers old = (ex, bb)" and des: "getDesiredCountsPerWorker p ws = Inr desired"
    and ws: "distinct ws" "ws \<noteq> []" "set ws \<subseteq> set (owners old)"
    and N: "length old = nat (NumBuckets p)"
    and need: "\<forall>w \<in> set ws. needOf desired w = count_list (owners old) w + need w"
    and rm: "removed = filter (\<lambda>w. w \<notin> set ws) ex"
  shows "sum_list (map need ws) = sum_list (map (count_list (owners old)) removed)"
proof -
  note f = existingWorkers_facts[OF ex]
  have "(\<Sum>w \<in> set ws. needOf desired w)
      = (\<Sum>w \<in> set ws. count_list (owners old) w) + (\<Sum>w \<in> set ws. need w)"
    using need by (simp add: sum.distrib)
  moreover have "set removed = set ex - set ws" by (auto simp: rm)
  then have "(\<Sum>w \<in> set ex. count_list (owners old) w)
      = (\<Sum>w \<in> set ws. count_list (owners old) w) + (\<Sum>w \<in> set removed. count_list (owners old) w)"
    using ws(3) f(3) by (metis List.finite_set add.commute sum.subset_diff)
  moreover have "(\<Sum>w \<in> set ex. count_list (owners old) w) = length old"
    by (rule sum_count_owners) (simp_all add: f(3))
  ultimately have "(\<Sum>w \<in> set ws. need w) = (\<Sum>w \<in> set removed. count_list (owners old) w)"
    using desired_sum[OF des ws(1,2)] N by simp
  then show ?thesis using ws(1) f(2) by (simp add: sum_list_distinct_conv_sum_set rm)
qed

lemma repartitionScaleDown_complete:
  assumes ex: "existingWorkers old = (ex, bb)"
    and des: "getDesiredCountsPerWorker p ws = Inr desired"
    and ws: "distinct ws" "ws \<noteq> []" "set ws \<subseteq> set (owners old)" "length ws < length ex"
    and N: "length old = nat (NumBuckets p)"
    and enough: "\<forall>w \<in> set ws. count_list (owners old) w \<le> needOf desired w"
  shows "\<exists>new ch. repartitionScaleDown ws ws desired ex bb old = Some (Inr (new, ch))
    \<and> (\<forall>w \<in> set ws. count_list (owners new) w = needOf desired w)"
proof -
  note f = existingWorkers_facts[OF ex]
  define removed where "removed = filter (\<lambda>w. w \<notin> set ws) ex"
  have rm: "distinct removed" "set ws \<inter> set removed = {}" using f(2) by (auto simp: removed_def)
  have "\<not> set ex \<subseteq> set ws"
    using ws(1,4) f(2) by (metis List.finite_set card_mono distinct_card not_less)
  then have "removed \<noteq> []" by (auto simp: removed_def filter_empty_conv)
  obtain D where D: "rfold (scaleDownDonor bb) ([], 0) removed
      = Inr (D, sum_list (map (\<lambda>w. length (bucketsOf (owners old) w)) removed))"
    "\<forall>w \<in> set removed. mslice D w = bucketsOf (owners old) w"
    "transfer_inv old removed (set ws)
        \<lparr>donorIdx = 0, donorBuckets = D, newBuckets = old, bucketOwnerChanges = Map.empty\<rparr>"
    using scaleDown_start[OF ex removed_def] by blast
  let ?st = "\<lparr>donorIdx = 0, donorBuckets = D, newBuckets = old, bucketOwnerChanges = Map.empty\<rparr>"
  have "\<forall>w \<in> set ws. \<exists>n. map_of desired w = Some n \<and> length (mslice bb w) \<le> n"
    using enough getDesiredCountsPerWorker_facts(2)[OF des ws(1)]
    by (force simp: f(4) length_bucketsOf needOf_def split: option.splits)
  then obtain M t where M: "rfold (scaleDownNeed desired bb) ([], 0) ws = Inr (M, t)"
    using scaleDownNeed_fold_returns by blast
  note Ms = scaleDownNeed_fold_sound[OF M ws(1)]
  have need: "\<forall>w \<in> set ws. needOf desired w = count_list (owners old) w + needOf M w"
    using Ms by (force simp: needOf_def[of desired] f(4) length_bucketsOf)
  have t: "t = sum_list (map (needOf M) ws)" using Ms by simp
  have sup: "sum_list (map (needOf M) ws) = sum_list (map (count_list (owners old)) removed)"
    by (rule scaleDown_supply_meets_demand[OF ex des ws(1-3) N need removed_def])
  have don: "donation removed ?st = sum_list (map (count_list (owners old)) removed)"
    using D(2) by (simp add: donation_def length_bucketsOf cong: map_cong)
  obtain st where st: "serveAll removed (needOf M) ?st ws = Some (Inr st)"
    using serveAll_returns[OF D(3) _ rm(2,1), of ws "needOf M"] don sup \<open>removed \<noteq> []\<close> by auto
  have post: "transferredAll removed ws (needOf M) ?st st"
    using serveAll_sound[OF st D(3) _ rm(2,1) ws(1)] \<open>removed \<noteq> []\<close> by simp
  then have "count_list (owners (newBuckets st)) w = needOf desired w" if "w \<in> set ws" for w
    using that need rm(2) by (auto simp: transferredAll_def)
  moreover have "scaleDownRecipient removed M = (\<lambda>st w. transferLoop removed w st (needOf M w))"
    by (simp add: fun_eq_iff scaleDownRecipient_def needOf_def)
  then have "repartitionScaleDown ws ws desired ex bb old
      = Some (Inr (newBuckets st, bucketOwnerChanges st))"
    using D(1) M st t sup \<open>removed \<noteq> []\<close>
    unfolding repartitionScaleDown_def Let_def removed_def[symmetric]
    by (simp add: serveAll_def length_bucketsOf comp_def)
  ultimately show ?thesis by blast
qed


section \<open>The policy as a whole\<close>

lemma ep_RePartitionV2_cases:
  assumes "ep_RePartitionV2 ord p ws old = Some (Inr (new, ch))" "length old = nat (NumBuckets p)"
  obtains ex bb desired ch0 where "existingWorkers old = (ex, bb)" "distinct ws" "ch = sortChanges ch0"
    "length ex < length ws" "set (owners old) \<subseteq> set ws"
    "repartitionScaleUp ord ws desired ex bb old = Some (Inr (new, ch0))"
  | ex bb desired ch0 where "existingWorkers old = (ex, bb)" "distinct ws" "ch = sortChanges ch0"
    "set ws \<subseteq> set (owners old)"
    "repartitionScaleDown ws ws desired ex bb old = Some (Inr (new, ch0))"
proof -
  obtain us ex bb where v: "validateAndPrepareRepartition p ws old = Inr (us, ex, bb)"
    using assms(1) by (auto simp: ep_RePartitionV2_def obind_eq_Some_Inr)
  note v' = v[unfolded validate_Inr]
  show ?thesis
    using assms v v' that unfolding ep_RePartitionV2_def
    by (cases "length ex < length ws") (auto simp: obind_eq_Some_Inr Let_def)
qed

text \<open>Whatever the order of map iteration: a repartition that returns keeps the number of
  buckets and their key maps, leaves only updated workers as owners, moves buckets only to new
  workers or away from removed ones, and reports exactly the movements.\<close>

lemma ep_RePartitionV2_sound:
  assumes ord: "range_order ord" and N: "length old = nat (NumBuckets p)"
    and run: "ep_RePartitionV2 ord p ws old = Some (Inr (new, ch))"
  shows "length new = length old \<and> map KeyMap new = map KeyMap old
    \<and> set (owners new) \<subseteq> set ws \<and> ch = ownerDiff (owners old) (owners new)
    \<and> (\<forall>i < length old. owners new ! i \<noteq> owners old ! i \<longrightarrow>
         owners new ! i \<notin> set (owners old) \<or> owners old ! i \<notin> set ws)"
  using run N
proof (cases rule: ep_RePartitionV2_cases)
  case (1 ex bb desired ch0)
  obtain st where inv: "transfer_inv old ex (set ws - set ex) st"
    and res: "new = newBuckets st" "ch0 = bucketOwnerChanges st"
    using repartitionScaleUp_sound[OF 1(1) ord 1(2) 1(6)] by blast
  note D = transfer_invD[OF inv] and f = existingWorkers_facts[OF 1(1)]
  have "owners new ! i \<in> set ws" if "i < length new" for i
  proof -
    have "owners old ! i \<in> set (owners old)" using that D(1) res by (metis length_owners nth_mem)
    then show ?thesis using D(6)[of i] that D(1) 1(5) res by auto
  qed
  then have "set (owners new) \<subseteq> set ws" by (auto simp: in_set_conv_nth)
  moreover have "ch = ownerDiff (owners old) (owners new)"
    using transfer_inv_changes[OF inv] 1(3) res by simp
  ultimately show ?thesis using D(1,3,6) f(3) res by auto
next
  case (2 ex bb desired ch0)
  obtain st where inv: "transfer_inv old (filter (\<lambda>w. w \<notin> set ws) ex) (set ws) st"
    and res: "new = newBuckets st" "ch0 = bucketOwnerChanges st"
    and gone: "\<forall>d \<in> set ex. d \<notin> set ws \<longrightarrow> d \<notin> set (owners new)"
    using repartitionScaleDown_sound[OF 2(1,2,5)] by blast
  note D = transfer_invD[OF inv] and f = existingWorkers_facts[OF 2(1)]
  have "owners new ! i \<in> set ws" if i: "i < length new" for i
  proof -
    have "owners old ! i \<in> set ex" using i D(1) res f(3) by (metis length_owners nth_mem)
    moreover have "owners new ! i \<in> set (owners new)" using i by simp
    moreover have "owners new ! i = owners old ! i \<or> owners new ! i \<in> set ws"
      using D(6)[of i] i D(1) res by auto
    ultimately show ?thesis using gone by metis
  qed
  then have "set (owners new) \<subseteq> set ws" by (auto simp: in_set_conv_nth)
  moreover have "ch = ownerDiff (owners old) (owners new)"
    using transfer_inv_changes[OF inv] 2(3) res by simp
  moreover have "owners old ! i \<notin> set ws"
    if "i < length old" "owners new ! i \<noteq> owners old ! i" for i
    using D(6)[OF that(1)] that(2) res by auto
  ultimately show ?thesis using D(1,3) res by auto
qed

lemma ep_partition_policy:
  assumes ord: "range_order ord"
  shows "partition_policy (nat (NumBuckets p)) (ep_GenerateBucketsV2 p) (ep_RePartitionV2 ord p)"
proof unfold_locales
  show "length bs = nat (NumBuckets p) \<and> set (owners bs) \<subseteq> set ws"
    if "ep_GenerateBucketsV2 p ws = Inr bs" for ws bs
    using generateRuns_InrD[OF that[unfolded ep_GenerateBucketsV2_def]] set_runsOf
    by (auto simp: length_runsOf)
  show "KeyMap b = None" if "ep_GenerateBucketsV2 p ws = Inr bs" "b \<in> set bs" for ws bs b
    using generateRuns_InrD(3)[OF that(1)[unfolded ep_GenerateBucketsV2_def]] that(2) by auto
  show "length new = nat (NumBuckets p) \<and> set (owners new) \<subseteq> set ws"
    if "ep_RePartitionV2 ord p ws old = Some (Inr (new, ch))" "length old = nat (NumBuckets p)"
    for ws old new ch
    using ep_RePartitionV2_sound[OF ord that(2,1)] that(2) by simp
  show "ch = ownerDiff (owners old) (owners new)"
    if "ep_RePartitionV2 ord p ws old = Some (Inr (new, ch))" "length old = nat (NumBuckets p)"
    for ws old new ch
    using ep_RePartitionV2_sound[OF ord that(2,1)] by simp
qed

text \<open>For every order in which maps are visited the even policy is a partition policy.\<close>

locale range_ordered =
  fixes ord :: "(u16 \<times> nat list) list \<Rightarrow> (u16 \<times> nat list) list"
  assumes ord: "range_order ord"

sublocale range_ordered \<subseteq> ep: partition_policy "nat (NumBuckets p)" "ep_GenerateBucketsV2 p"
  "ep_RePartitionV2 ord p" for p
  by (rule ep_partition_policy[OF ord])

text \<open>Visiting a map in the order its keys were inserted is one of the possible orders.\<close>

interpretation inserted: range_ordered "\<lambda>m. m"
  by unfold_locales (simp add: range_order_def)


section \<open>Order-preserving changes of the worker list\<close>

lemma workerShare_alt:
  assumes "i < n" "i < N" shows "workerShare N n i = Suc ((N - Suc i) div n)"
proof -
  define q r P where "q = N div n" and "r = N mod n" and "P = n * q"
  have N: "N = P + r" and r: "r < n" using assms by (auto simp: q_def r_def P_def)
  have P: "n * Suc q = P + n" by (simp add: P_def)
  show ?thesis
  proof (cases "i < r")
    case True
    have "(N - Suc i) div n = q"
      by (rule div_nat_eqI, unfold P P_def[symmetric]) (use N r True in linarith)+
    then show ?thesis using True by (simp add: workerShare_def q_def r_def)
  next
    case False
    then have "0 < P" using N assms(2) by linarith
    then have q: "0 < q" by (simp add: P_def)
    then have P': "n * (q - 1) + n = P" by (cases q) (simp_all add: P_def)
    have "(N - Suc i) div n = q - 1"
    proof (rule div_nat_eqI)
      show "n * (q - 1) \<le> N - Suc i" using N P' assms False by linarith
      show "N - Suc i < n * Suc (q - 1)" using N P' q r False \<open>0 < P\<close> by (simp add: P_def)
    qed
    then show ?thesis using False q by (simp add: workerShare_def q_def r_def)
  qed
qed

lemma workerShare_antitone:
  assumes "n \<le> m" "i \<le> j" "i < n" "j < m" "m \<le> N"
  shows "workerShare N m j \<le> workerShare N n i"
proof -
  have "(N - Suc j) div m \<le> (N - Suc i) div m" using assms by (intro div_le_mono) simp
  also have "\<dots> \<le> (N - Suc i) div n" using assms by (intro div_le_mono2) auto
  finally show ?thesis using assms by (simp add: workerShare_alt)
qed

lemma subseq_set: "subseq xs ys \<Longrightarrow> x \<in> set xs \<Longrightarrow> x \<in> set ys"
  by (induction rule: list_emb.induct) auto

lemma subseq_index_le:
  assumes "subseq xs ys" "distinct ys" "i < length xs" "j < length ys" "xs ! i = ys ! j"
  shows "i \<le> j"
  using assms
proof (induction arbitrary: i j)
  case (list_emb_Cons xs ys y)
  have mem: "xs ! i \<in> set ys"
    using subseq_set[OF list_emb_Cons.hyps] list_emb_Cons.prems(2) by simp
  show ?case
  proof (cases j)
    case 0
    then show ?thesis using mem list_emb_Cons.prems by auto
  next
    case (Suc j')
    then show ?thesis using list_emb_Cons.IH[of i j'] list_emb_Cons.prems by simp
  qed
next
  case (list_emb_Cons2 x y xs ys)
  show ?case
  proof (cases i)
    case (Suc i')
    then have mem: "xs ! i' \<in> set ys"
      using subseq_set[OF list_emb_Cons2.hyps(2)] list_emb_Cons2.prems(2) by simp
    show ?thesis
    proof (cases j)
      case 0
      then show ?thesis using mem Suc list_emb_Cons2.prems by auto
    next
      case (Suc j')
      then show ?thesis
        using \<open>i = Suc i'\<close> list_emb_Cons2.IH[of i' j'] list_emb_Cons2.prems by simp
    qed
  qed simp
qed simp

lemma balanced_set:
  assumes "balanced N ws os" "distinct ws" "ws \<noteq> []" "length ws \<le> N"
  shows "set os = set ws"
proof
  show "set ws \<subseteq> set os"
  proof
    fix w assume "w \<in> set ws"
    then obtain i where "i < length ws" "w = ws ! i" by (auto simp: in_set_conv_nth)
    then have "count_list os w \<noteq> 0" using balanced_no_idle[OF assms(1) _ assms(4), of i] by simp
    then show "w \<in> set os" by (simp add: count_list_0_iff)
  qed
  have "sum_list (map (count_list os) ws) = N"
  proof -
    have "map (count_list os) ws = map (workerShare N (length ws)) [0..<length ws]"
      using assms(1) by (intro nth_equalityI) (simp_all add: balanced_def)
    then show ?thesis using assms(3) by (simp add: sum_workerShare)
  qed
  then have "(\<Sum>w \<in> set ws. count_list os w) = length os"
    using assms(1,2) by (simp add: balanced_def sum_list_distinct_conv_sum_set)
  moreover have "(\<Sum>w \<in> set ws \<union> set os. count_list os w) = length os"
    by (rule sum_count_set) auto
  moreover have "(\<Sum>w \<in> set ws \<union> set os. count_list os w)
      = (\<Sum>w \<in> set ws. count_list os w) + (\<Sum>w \<in> set os - set ws. count_list os w)"
    by (subst sum.union_disjoint[symmetric]) auto
  ultimately have "\<forall>w \<in> set os - set ws. count_list os w = 0" by simp
  then show "set os \<subseteq> set ws" by (auto simp: count_list_0_iff)
qed


lemma ep_RePartitionV2_up:
  assumes ord: "range_order ord" and ws: "distinct ws" "set (owners old) \<subset> set ws"
    "int (length ws) \<le> NumBuckets p" and N: "length old = nat (NumBuckets p)"
    and enough: "\<And>i. i < length ws \<Longrightarrow> ws ! i \<in> set (owners old) \<Longrightarrow>
      workerShare (nat (NumBuckets p)) (length ws) i \<le> count_list (owners old) (ws ! i)"
  shows "\<exists>new ch. ep_RePartitionV2 ord p ws old = Some (Inr (new, ch))
    \<and> balanced (nat (NumBuckets p)) ws (owners new)"
proof -
  obtain ex bb where ex: "existingWorkers old = (ex, bb)" by fastforce
  note f = existingWorkers_facts[OF ex]
  have wsne: "ws \<noteq> []" using ws(2) by auto
  obtain desired where des: "getDesiredCountsPerWorker p ws = Inr desired"
    using wsne by (auto simp: getDesiredCountsPerWorker_def)
  have len: "length ex < length ws"
    using psubset_card_mono[of "set ws" "set ex"] distinct_card[OF f(2)] distinct_card[OF ws(1)] ws(2) f(3)
    by simp
  have "\<forall>w \<in> set ex. needOf desired w \<le> count_list (owners old) w"
  proof
    fix w assume w: "w \<in> set ex"
    then have "w \<in> set ws" using f(3) ws(2) by auto
    then obtain i where "i < length ws" "w = ws ! i" by (auto simp: in_set_conv_nth)
    then show "needOf desired w \<le> count_list (owners old) w"
      using enough[of i] desired_nth[OF des ws(1)] w f(3) by simp
  qed
  from repartitionScaleUp_complete[OF ex ord des ws(1) _ len ws(3) N this] ws(2)
  obtain new ch where run: "repartitionScaleUp ord ws desired ex bb old = Some (Inr (new, ch))"
    and cnt: "\<forall>w \<in> set ws. count_list (owners new) w = needOf desired w" by auto
  have "validateAndPrepareRepartition p ws old = Inr (ws, ex, bb)"
    using ws wsne ex len by (auto simp: validate_Inr)
  then have res: "ep_RePartitionV2 ord p ws old = Some (Inr (new, sortChanges ch))"
    using des len run N by (simp add: ep_RePartitionV2_def Let_def)
  have "length new = length old" using ep_RePartitionV2_sound[OF ord N res] by simp
  then show ?thesis using balanced_if_counts[OF des ws(1) cnt] N res by auto
qed

lemma ep_RePartitionV2_down:
  assumes ord: "range_order ord" and ws: "distinct ws" "ws \<noteq> []" "set ws \<subset> set (owners old)"
    "int (length ws) \<le> NumBuckets p" and N: "length old = nat (NumBuckets p)"
    and enough: "\<And>i. i < length ws \<Longrightarrow>
      count_list (owners old) (ws ! i) \<le> workerShare (nat (NumBuckets p)) (length ws) i"
  shows "\<exists>new ch. ep_RePartitionV2 ord p ws old = Some (Inr (new, ch))
    \<and> balanced (nat (NumBuckets p)) ws (owners new)"
proof -
  obtain ex bb where ex: "existingWorkers old = (ex, bb)" by fastforce
  note f = existingWorkers_facts[OF ex]
  obtain desired where des: "getDesiredCountsPerWorker p ws = Inr desired"
    using ws(2) by (auto simp: getDesiredCountsPerWorker_def)
  have len: "length ws < length ex"
    using psubset_card_mono[of "set ex" "set ws"] distinct_card[OF f(2)] distinct_card[OF ws(1)] ws(3) f(3)
    by simp
  have "\<forall>w \<in> set ws. count_list (owners old) w \<le> needOf desired w"
    using enough desired_nth[OF des ws(1)] by (auto simp: in_set_conv_nth)
  from repartitionScaleDown_complete[OF ex des ws(1,2) _ len N this] ws(3)
  obtain new ch where run: "repartitionScaleDown ws ws desired ex bb old = Some (Inr (new, ch))"
    and cnt: "\<forall>w \<in> set ws. count_list (owners new) w = needOf desired w" by auto
  have "validateAndPrepareRepartition p ws old = Inr (ws, ex, bb)"
    using ws ex len by (auto simp: validate_Inr)
  then have res: "ep_RePartitionV2 ord p ws old = Some (Inr (new, sortChanges ch))"
    using des len run N by (simp add: ep_RePartitionV2_def Let_def)
  have "length new = length old" using ep_RePartitionV2_sound[OF ord N res] by simp
  then show ?thesis using balanced_if_counts[OF des ws(1) cnt] N res by auto
qed

lemma subseq_share_le:
  assumes "subseq ws0 ws" "distinct ws" "length ws \<le> N" "balanced N ws0 os"
    "j < length ws" "ws ! j \<in> set ws0"
  shows "workerShare N (length ws) j \<le> count_list os (ws ! j)"
proof -
  obtain i where i: "i < length ws0" "ws0 ! i = ws ! j" using assms(6) by (auto simp: in_set_conv_nth)
  have "i \<le> j" by (rule subseq_index_le[OF assms(1,2) i(1) assms(5) i(2)])
  moreover have "length ws0 \<le> length ws" using assms(1) by (rule list_emb_length)
  ultimately have "workerShare N (length ws) j \<le> workerShare N (length ws0) i"
    using assms(3,5) i(1) by (intro workerShare_antitone)
  also have "\<dots> = count_list os (ws ! j)" using balancedD[OF assms(4) i(1)] i(2) by simp
  finally show ?thesis .
qed

lemma subseq_share_ge:
  assumes "subseq ws ws0" "distinct ws0" "length ws0 \<le> N" "balanced N ws0 os" "i < length ws"
  shows "count_list os (ws ! i) \<le> workerShare N (length ws) i"
proof -
  have "ws ! i \<in> set ws0" using subseq_set[OF assms(1)] assms(5) by simp
  then obtain j where j: "j < length ws0" "ws ! i = ws0 ! j" by (metis in_set_conv_nth)
  have "i \<le> j" by (rule subseq_index_le[OF assms(1,2,5) j])
  moreover have "length ws \<le> length ws0" using assms(1) by (rule list_emb_length)
  ultimately have "workerShare N (length ws0) j \<le> workerShare N (length ws) i"
    using assms(3,5) j(1) by (intro workerShare_antitone)
  then show ?thesis using balancedD[OF assms(4) j(1)] j(2) by simp
qed

lemma subseq_strict_set:
  assumes "subseq xs ys" "distinct ys" "xs \<noteq> ys" shows "set xs \<subset> set ys"
proof -
  have "set xs \<subseteq> set ys" using subseq_set[OF assms(1)] by auto
  moreover have "set xs \<noteq> set ys"
  proof
    assume eq: "set xs = set ys"
    have "distinct xs" using assms(1,2) by (metis subseq_conv_nths distinct_nthsI)
    then have "length xs = length ys" using eq assms(2) by (metis distinct_card)
    then show False using assms(1,3) by (metis subseq_same_length)
  qed
  ultimately show ?thesis by auto
qed

lemma distinct_subseq: "subseq xs ys \<Longrightarrow> distinct ys \<Longrightarrow> distinct xs"
  by (metis subseq_conv_nths distinct_nthsI)

text \<open>A change of the worker list that keeps the relative order of the workers that stay: some are
  added, or some are removed.\<close>

definition orderedChange :: "nat \<Rightarrow> u16 list \<Rightarrow> u16 list \<Rightarrow> bool" where
  "orderedChange N ws0 ws \<longleftrightarrow> distinct ws0 \<and> distinct ws \<and> ws0 \<noteq> [] \<and> ws \<noteq> [] \<and> ws0 \<noteq> ws
     \<and> length ws0 \<le> N \<and> length ws \<le> N \<and> (subseq ws0 ws \<or> subseq ws ws0)"

lemma ep_ordered_change_returns:
  assumes "range_order ord" "NumBuckets p = int N" "orderedChange N ws0 ws" "balanced N ws0 (owners old)"
  shows "\<exists>new ch. ep_RePartitionV2 ord p ws old = Some (Inr (new, ch)) \<and> balanced N ws (owners new)"
    and "set (owners old) = set ws0" "length old = N"
proof -
  note c = assms(3)[unfolded orderedChange_def]
  show len: "length old = N" using assms(4) by (simp add: balanced_def)
  show set0: "set (owners old) = set ws0" by (rule balanced_set[OF assms(4)]) (use c in auto)
  have "\<exists>new ch. ep_RePartitionV2 ord p ws old = Some (Inr (new, ch))
      \<and> balanced (nat (NumBuckets p)) ws (owners new)"
  proof (cases "subseq ws0 ws")
    case True
    then have "set ws0 \<subset> set ws" using c subseq_strict_set by auto
    then show ?thesis
      using c True subseq_share_le[OF True _ _ assms(4)] set0 assms(2) len
      by (intro ep_RePartitionV2_up[OF assms(1)]) auto
  next
    case False
    then have sub: "subseq ws ws0" using c by auto
    then have "set ws \<subset> set ws0" using c subseq_strict_set by auto
    then show ?thesis
      using c sub subseq_share_ge[OF sub _ _ assms(4)] set0 assms(2) len
      by (intro ep_RePartitionV2_down[OF assms(1)]) auto
  qed
  then show "\<exists>new ch. ep_RePartitionV2 ord p ws old = Some (Inr (new, ch)) \<and> balanced N ws (owners new)"
    using assms(2) by simp
qed

text \<open>C15. Scaling up with the even policy: when the existing workers hold a balanced assignment
  and keep their relative order in the updated list, repartitioning returns (for every order of
  map iteration), the new assignment is balanced over the updated workers, only owners change,
  every moved bucket goes to a new worker, and the reported movements are exactly the difference.\<close>

theorem ep_scale_up:
  assumes "range_order ord" "NumBuckets p = int N" "length ws \<le> N" "distinct ws"
    and "subseq ws0 ws" "ws0 \<noteq> ws" "ws0 \<noteq> []" "balanced N ws0 (owners old)"
  shows "\<exists>new ch. ep_RePartitionV2 ord p ws old = Some (Inr (new, ch))
    \<and> balanced N ws (owners new) \<and> map KeyMap new = map KeyMap old
    \<and> ch = ownerDiff (owners old) (owners new)
    \<and> (\<forall>i < N. owners new ! i \<noteq> owners old ! i \<longrightarrow> owners new ! i \<notin> set ws0)"
proof -
  have c: "orderedChange N ws0 ws"
    using assms(3-7) distinct_subseq[OF assms(5,4)] list_emb_length[OF assms(5)]
    by (auto simp: orderedChange_def)
  note r = ep_ordered_change_returns[OF assms(1,2) c assms(8)]
  from r(1) obtain new ch where run: "ep_RePartitionV2 ord p ws old = Some (Inr (new, ch))"
    and bal: "balanced N ws (owners new)" by blast
  have len: "length old = nat (NumBuckets p)" using r(3) assms(2) by simp
  have "owners old ! i \<in> set ws" if "i < N" for i
    using that r(2,3) subseq_set[OF assms(5)] by (metis length_owners nth_mem)
  then show ?thesis
    using ep_RePartitionV2_sound[OF assms(1) len run] run bal r(2,3) by fastforce
qed

theorem ep_scale_up_witness:
  "\<exists>new ch. ep_RePartitionV2 rev \<lparr>NumBuckets = 5\<rparr> [1, 2, 3, 4]
       (map (\<lambda>w. \<lparr>WorkerID = w, KeyMap = None\<rparr>) [1, 1, 2, 2, 3]) = Some (Inr (new, ch))
     \<and> balanced 5 [1, 2, 3, 4] (owners new)"
proof -
  have "balanced 5 [1, 2, 3] (owners (map (\<lambda>w. \<lparr>WorkerID = w, KeyMap = None\<rparr>) [1, 1, 2, 2, 3]))"
    by code_simp
  moreover have "range_order (rev :: (u16 \<times> nat list) list \<Rightarrow> _)" by (simp add: range_order_def)
  moreover have "distinct [1, 2, 3, 4 :: u16]" "subseq [1, 2, 3] [1, 2, 3, 4 :: u16]" by code_simp+
  ultimately show ?thesis
    using ep_scale_up[of rev "\<lparr>NumBuckets = 5\<rparr>" 5 "[1, 2, 3, 4]" "[1, 2, 3]"
        "map (\<lambda>w. \<lparr>WorkerID = w, KeyMap = None\<rparr>) [1, 1, 2, 2, 3]"] by auto
qed

text \<open>C17. Scaling down with the even policy: when the remaining workers keep their relative order,
  repartitioning returns, the new assignment is balanced over the remaining workers, only buckets of
  removed workers move, and the reported movements are exactly the difference.\<close>

theorem ep_scale_down:
  assumes "range_order ord" "NumBuckets p = int N" "length ws0 \<le> N" "distinct ws0"
    and "subseq ws ws0" "ws \<noteq> ws0" "ws \<noteq> []" "balanced N ws0 (owners old)"
  shows "\<exists>new ch. ep_RePartitionV2 ord p ws old = Some (Inr (new, ch))
    \<and> balanced N ws (owners new) \<and> map KeyMap new = map KeyMap old
    \<and> ch = ownerDiff (owners old) (owners new)
    \<and> (\<forall>i < N. owners new ! i \<noteq> owners old ! i \<longrightarrow> owners old ! i \<notin> set ws)"
proof -
  have c: "orderedChange N ws0 ws"
    using assms(3-7) distinct_subseq[OF assms(5,4)] list_emb_length[OF assms(5)]
    by (auto simp: orderedChange_def)
  note r = ep_ordered_change_returns[OF assms(1,2) c assms(8)]
  from r(1) obtain new ch where run: "ep_RePartitionV2 ord p ws old = Some (Inr (new, ch))"
    and bal: "balanced N ws (owners new)" by blast
  have len: "length old = nat (NumBuckets p)" using r(3) assms(2) by simp
  note s = ep_RePartitionV2_sound[OF assms(1) len run]
  have "set (owners new) \<subseteq> set (owners old)" using s subseq_set[OF assms(5)] r(2) by auto
  then have "owners new ! i \<in> set (owners old)" if "i < N" for i
    using that s r(3) by (metis length_owners nth_mem subsetD)
  then show ?thesis using s run bal r(3) by fastforce
qed

theorem ep_scale_down_witness:
  "\<exists>new ch. ep_RePartitionV2 rev \<lparr>NumBuckets = 5\<rparr> [1, 3]
       (map (\<lambda>w. \<lparr>WorkerID = w, KeyMap = None\<rparr>) [1, 1, 2, 2, 3]) = Some (Inr (new, ch))
     \<and> balanced 5 [1, 3] (owners new)"
proof -
  have "balanced 5 [1, 2, 3] (owners (map (\<lambda>w. \<lparr>WorkerID = w, KeyMap = None\<rparr>) [1, 1, 2, 2, 3]))"
    by code_simp
  moreover have "range_order (rev :: (u16 \<times> nat list) list \<Rightarrow> _)" by (simp add: range_order_def)
  moreover have "distinct [1, 2, 3 :: u16]" "subseq [1, 3] [1, 2, 3 :: u16]" by code_simp+
  ultimately show ?thesis
    using ep_scale_down[of rev "\<lparr>NumBuckets = 5\<rparr>" 5 "[1, 2, 3]" "[1, 3]"
        "map (\<lambda>w. \<lparr>WorkerID = w, KeyMap = None\<rparr>) [1, 1, 2, 2, 3]"] by auto
qed


lemma scaleUpDonor_fold_refused:
  assumes "\<forall>(w, l) \<in> set ps. map_of desired w \<noteq> None" "\<exists>(w, l) \<in> set ps. length l < needOf desired w"
  shows "rfold (scaleUpDonor desired) s ps
    = Inl (Fatal ''Scale-up invalid: existing worker desires more buckets than it owns'')"
  using assms
proof (induction ps arbitrary: s)
  case (Cons p ps)
  obtain w l D rem where p: "p = (w, l)" "s = (D, rem)" by fastforce
  obtain n where n: "map_of desired w = Some n" using Cons.prems(1) p by auto
  show ?case
  proof (cases "length l < n")
    case True
    then show ?thesis using p n by (simp add: scaleUpDonor_def)
  next
    case False
    then have "\<exists>(w, l) \<in> set ps. length l < needOf desired w"
      using Cons.prems(2) p n by (auto simp: needOf_def)
    with False show ?thesis using Cons p n by (simp add: scaleUpDonor_def Let_def)
  qed
qed simp

text \<open>C27. The even policy depends on the order of the updated list: a scale-up that is otherwise
  valid ends in a fatal error whenever some existing worker stands at a position whose share is
  larger than what the worker owns, so an even assignment is refused although one exists.\<close>

theorem ep_scale_up_refused:
  assumes "range_order ord" "distinct ws" "set (owners old) \<subset> set ws"
    and "int (length ws) \<le> NumBuckets p" "length old = nat (NumBuckets p)"
    and "j < length ws" "ws ! j \<in> set (owners old)"
    and "count_list (owners old) (ws ! j) < workerShare (nat (NumBuckets p)) (length ws) j"
  shows "ep_RePartitionV2 ord p ws old
    = Some (Inl (Fatal ''Scale-up invalid: existing worker desires more buckets than it owns''))"
proof -
  obtain ex bb where ex: "existingWorkers old = (ex, bb)" by fastforce
  note f = existingWorkers_facts[OF ex]
  have wsne: "ws \<noteq> []" using assms(6) by auto
  obtain desired where des: "getDesiredCountsPerWorker p ws = Inr desired"
    using wsne by (auto simp: getDesiredCountsPerWorker_def)
  have len: "length ex < length ws"
    using psubset_card_mono[of "set ws" "set ex"] distinct_card[OF f(2)] distinct_card[OF assms(2)]
      assms(3) f(3) by simp
  have keys: "w \<in> set ex" if "(w, l) \<in> set bb" for w l
    using that f(1) by (metis fst_conv image_eqI image_set)
  have "\<forall>(w, l) \<in> set (ord bb). map_of desired w \<noteq> None"
    using keys f(3) assms(3) getDesiredCountsPerWorker_facts(2)[OF des assms(2)]
    by (fastforce simp: range_orderD(2)[OF assms(1)])
  moreover have "(ws ! j, bucketsOf (owners old) (ws ! j)) \<in> set (ord bb)"
    using f(5)[of "ws ! j"] assms(7) by (simp add: range_orderD(2)[OF assms(1)] map_of_SomeD)
  then have "\<exists>(w, l) \<in> set (ord bb). length l < needOf desired w"
    using assms(8) desired_nth[OF des assms(2,6)] by (intro bexI) (auto simp: length_bucketsOf)
  ultimately have fail: "rfold (scaleUpDonor desired) ([], 0) (ord bb)
      = Inl (Fatal ''Scale-up invalid: existing worker desires more buckets than it owns'')"
    by (rule scaleUpDonor_fold_refused)
  have "\<exists>w \<in> set ws. map_of bb w = None" using assms(3) f(5) by auto
  then have "filter (\<lambda>w. map_of bb w = None) ws \<noteq> []" by (simp add: filter_empty_conv)
  then have "repartitionScaleUp ord ws desired ex bb old
      = Some (Inl (Fatal ''Scale-up invalid: existing worker desires more buckets than it owns''))"
    unfolding repartitionScaleUp_def Let_def fail by simp
  moreover have "validateAndPrepareRepartition p ws old = Inr (ws, ex, bb)"
    using assms wsne ex len by (auto simp: validate_Inr)
  ultimately show ?thesis using des len assms(5) by (simp add: ep_RePartitionV2_def Let_def)
qed

theorem ep_scale_up_refused_witness:
  "ep_RePartitionV2 rev \<lparr>NumBuckets = 5\<rparr> [3, 4, 1, 2]
       (map (\<lambda>w. \<lparr>WorkerID = w, KeyMap = None\<rparr>) [1, 1, 2, 2, 3])
     = Some (Inl (Fatal ''Scale-up invalid: existing worker desires more buckets than it owns''))"
proof (rule ep_scale_up_refused[where j = 0])
  let ?old = "map (\<lambda>w. \<lparr>WorkerID = w, KeyMap = None\<rparr>) [1, 1, 2, 2, 3]"
  show "range_order (rev :: (u16 \<times> nat list) list \<Rightarrow> _)" by (simp add: range_order_def)
  have "4 \<notin> set (owners ?old)" "4 \<in> set [3, 4, 1, 2 :: u16]"
    "set (owners ?old) \<subseteq> set [3, 4, 1, 2 :: u16]" by (simp_all add: owners_def)
  then show "set (owners ?old) \<subset> set [3, 4, 1, 2 :: u16]" by (metis psubsetI)
  show "count_list (owners ?old) ([3, 4, 1, 2 :: u16] ! 0)
      < workerShare (nat (NumBuckets \<lparr>NumBuckets = 5\<rparr>)) (length [3, 4, 1, 2 :: u16]) 0"
    by code_simp
qed (simp_all add: owners_def)

end
