(* ===== verification/Hash_Partition.thy ===== *)
theory Hash_Partition
  imports Partition_Policy "HOL-Library.Product_Lexorder"
begin

text \<open>
  The two policies that place tokens on a ring by hashing worker ids
  (\<^verbatim>\<open>internal/keyby/partition/hashPartitionPolicy.go\<close> and \<^verbatim>\<open>hashPartitionPolicyV2.go\<close>).
  Parameters stand for code outside the repository: the hash functions (murmur3, chosen by
  a seed) and the variable-length encoding of a worker id. \<^verbatim>\<open>sort.Slice\<close> is not stable, so the
  sorting of tokens is a parameter too, with the law that it returns a sorted permutation.
\<close>

section \<open>Tokens\<close>

text \<open>A bucket index is \<open>hashValue % uint64(NumBuckets)\<close>, kept as a natural number.\<close>

record Token =
  HashValue :: u64
  BucketIdx :: nat
  TokenWorkerID :: u16

record HashPartitionPolicy =
  hp_base :: PartitionPolicyBase
  hp_HashFuncs :: "hashFunc list"

record HashPartitionPolicyV2 =
  hp2_base :: PartitionPolicyBase
  hp2_HashFunc :: hashFunc
  hp2_NumTokens :: nat

text \<open>The fields of the configuration that the constructors read.\<close>

record HashConfig =
  cfg_NumBuckets :: int
  cfg_HashPartitionNumTokens :: int
  cfg_HashPartitionSeeds :: "int list"
  cfg_HashFuncType :: string

definition NewHashPartitionPolicy ::
    "(int \<Rightarrow> hashFunc) \<Rightarrow> HashConfig \<Rightarrow> HashPartitionPolicy res" where
  "NewHashPartitionPolicy newMurmurHash config =
     rbind (fatal_if (cfg_HashPartitionNumTokens config \<le> 0) ''Invalid number of tokens'') (\<lambda>_.
     rbind (fatal_if (cfg_HashPartitionNumTokens config \<noteq> int (length (cfg_HashPartitionSeeds config)))
              ''Number of tokens does not match number of seeds'') (\<lambda>_.
     rbind (if cfg_HashFuncType config = ''murmurhash''
            then rfold (\<lambda>fs i. rbind (at_idx (cfg_HashPartitionSeeds config) i) (\<lambda>seed.
                   Inr (fs @ [newMurmurHash seed]))) []
                   [0..<nat (cfg_HashPartitionNumTokens config)]
            else Inl (Fatal ''Unsupported hash function type'')) (\<lambda>hashFuncs.
     rbind (NewPartitionPolicyBase (cfg_NumBuckets config)) (\<lambda>base.
     Inr \<lparr>hp_base = base, hp_HashFuncs = hashFuncs\<rparr>))))"

definition NewHashPartitionPolicyV2 ::
    "(int \<Rightarrow> hashFunc) \<Rightarrow> HashConfig \<Rightarrow> HashPartitionPolicyV2 res" where
  "NewHashPartitionPolicyV2 newMurmurHash config =
     rbind (fatal_if (cfg_HashPartitionNumTokens config \<le> 0) ''Invalid number of tokens'') (\<lambda>_.
     rbind (if cfg_HashFuncType config = ''murmurhash''
            then rbind (fatal_if (cfg_HashPartitionSeeds config = [])
                          ''No hash seeds provided for murmurhash'') (\<lambda>_.
                 Inr (newMurmurHash (hd (cfg_HashPartitionSeeds config))))
            else Inl (Fatal ''Unsupported hash function type'')) (\<lambda>hashFunc.
     rbind (NewPartitionPolicyBase (cfg_NumBuckets config)) (\<lambda>base.
     Inr \<lparr>hp2_base = base, hp2_HashFunc = hashFunc,
          hp2_NumTokens = nat (cfg_HashPartitionNumTokens config)\<rparr>)))"

definition mkToken :: "int \<Rightarrow> u16 \<Rightarrow> u64 \<Rightarrow> Token" where
  "mkToken numBuckets w h =
     \<lparr>HashValue = h, BucketIdx = unat h mod nat numBuckets, TokenWorkerID = w\<rparr>"

definition hpTokens :: "(u16 \<Rightarrow> byte list) \<Rightarrow> HashPartitionPolicy \<Rightarrow> u16 list \<Rightarrow> Token list" where
  "hpTokens varintU16 hp workers =
     concat (map (\<lambda>w. map (\<lambda>h. mkToken (NumBuckets (hp_base hp)) w (h (varintU16 w)))
                        (hp_HashFuncs hp)) workers)"

text \<open>Little-endian bytes, as \<^verbatim>\<open>binary.LittleEndian\<close> writes them.\<close>

definition le64 :: "u64 \<Rightarrow> byte list" where
  "le64 x = map (\<lambda>k. ucast (drop_bit (8 * k) x)) [0..<8]"

definition le32 :: "u32 \<Rightarrow> byte list" where
  "le32 x = map (\<lambda>k. ucast (drop_bit (8 * k) x)) [0..<4]"

definition hp2Tokens :: "(u16 \<Rightarrow> byte list) \<Rightarrow> HashPartitionPolicyV2 \<Rightarrow> u16 list \<Rightarrow> Token list" where
  "hp2Tokens varintU16 hp workers =
     concat (map (\<lambda>w.
       let h1 = hp2_HashFunc hp (varintU16 w)
       in map (\<lambda>i. mkToken (NumBuckets (hp2_base hp)) w
                     (hp2_HashFunc hp (le64 h1 @ le32 (of_nat i)))) [0..<hp2_NumTokens hp]) workers)"


section \<open>From tokens to buckets\<close>

text \<open>The token at the end of the list owns the buckets after it and, around the ring, those up to
  the first token; every other token owns the buckets after it up to the next token.\<close>

definition ringBuckets :: "(u16 \<Rightarrow> 'b) \<Rightarrow> 'b \<Rightarrow> nat \<Rightarrow> Token list \<Rightarrow> 'b list res" where
  "ringBuckets mk zero N tokens =
     (if tokens = [] then Inl (Panic ''index out of range'')
      else
        let owner = mk (TokenWorkerID (last tokens))
        in rbind (fill (replicate N zero) (Suc (BucketIdx (last tokens))) N owner) (\<lambda>buckets.
           rbind (fill buckets 0 (Suc (BucketIdx (hd tokens))) owner) (\<lambda>buckets.
           rfold (\<lambda>buckets tokenIdx.
                    fill buckets (Suc (BucketIdx (tokens ! tokenIdx)))
                      (Suc (BucketIdx (tokens ! Suc tokenIdx)))
                      (mk (TokenWorkerID (tokens ! tokenIdx))))
             buckets [0..<length tokens - 1])))"

definition checkWorkers :: "PartitionPolicyBase \<Rightarrow> u16 list \<Rightarrow> unit res" where
  "checkWorkers p workers =
     rbind (fatal_if (workers = []) ''No worker to generate tokens'') (\<lambda>_.
     fatal_if (NumBuckets p < int (length workers))
       ''Number of buckets is less than number of workers'')"

definition hp_GenerateBuckets ::
    "(Token list \<Rightarrow> Token list) \<Rightarrow> (u16 \<Rightarrow> byte list) \<Rightarrow> HashPartitionPolicy \<Rightarrow> u16 list \<Rightarrow>
       Bucket option list res" where
  "hp_GenerateBuckets sortTokens varintU16 hp workers =
     rbind (checkWorkers (hp_base hp) workers) (\<lambda>_.
     ringBuckets (\<lambda>w. Some \<lparr>b_WorkerID = w\<rparr>) None (nat (NumBuckets (hp_base hp)))
       (sortTokens (hpTokens varintU16 hp workers)))"

definition hp_GenerateBucketsV2 ::
    "(Token list \<Rightarrow> Token list) \<Rightarrow> (u16 \<Rightarrow> byte list) \<Rightarrow> HashPartitionPolicy \<Rightarrow> u16 list \<Rightarrow>
       BucketV2 list res" where
  "hp_GenerateBucketsV2 sortTokens varintU16 hp workers =
     rbind (checkWorkers (hp_base hp) workers) (\<lambda>_.
     ringBuckets (\<lambda>w. \<lparr>WorkerID = w, KeyMap = None\<rparr>) zeroBucketV2 (nat (NumBuckets (hp_base hp)))
       (sortTokens (hpTokens varintU16 hp workers)))"

definition hp2_GenerateBuckets ::
    "(Token list \<Rightarrow> Token list) \<Rightarrow> (u16 \<Rightarrow> byte list) \<Rightarrow> HashPartitionPolicyV2 \<Rightarrow> u16 list \<Rightarrow>
       Bucket option list res" where
  "hp2_GenerateBuckets sortTokens varintU16 hp workers =
     rbind (checkWorkers (hp2_base hp) workers) (\<lambda>_.
     ringBuckets (\<lambda>w. Some \<lparr>b_WorkerID = w\<rparr>) None (nat (NumBuckets (hp2_base hp)))
       (sortTokens (hp2Tokens varintU16 hp workers)))"

definition hp2_GenerateBucketsV2 ::
    "(Token list \<Rightarrow> Token list) \<Rightarrow> (u16 \<Rightarrow> byte list) \<Rightarrow> HashPartitionPolicyV2 \<Rightarrow> u16 list \<Rightarrow>
       BucketV2 list res" where
  "hp2_GenerateBucketsV2 sortTokens varintU16 hp workers =
     rbind (checkWorkers (hp2_base hp) workers) (\<lambda>_.
     ringBuckets (\<lambda>w. \<lparr>WorkerID = w, KeyMap = None\<rparr>) zeroBucketV2 (nat (NumBuckets (hp2_base hp)))
       (sortTokens (hp2Tokens varintU16 hp workers)))"


section \<open>Repartitioning\<close>

definition hp_RePartition ::
    "(Token list \<Rightarrow> Token list) \<Rightarrow> (u16 \<Rightarrow> byte list) \<Rightarrow> HashPartitionPolicy \<Rightarrow> u16 list \<Rightarrow>
       Bucket option list \<Rightarrow> (Bucket option list \<times> ownerChanges) res" where
  "hp_RePartition sortTokens varintU16 hp updatedWorkers oldBuckets =
     rbind (fatal_if (updatedWorkers = []) ''New worker list invalid'') (\<lambda>_.
     rbind (fatal_if (int (length oldBuckets) \<noteq> NumBuckets (hp_base hp)) ''Existing bucket list invalid'') (\<lambda>_.
     rbind (hp_GenerateBuckets sortTokens varintU16 hp updatedWorkers) (\<lambda>newBuckets.
     rbind (computeBucketOwnerChanges oldBuckets newBuckets) (\<lambda>ch.
     Inr (newBuckets, ch)))))"

definition hp_RePartitionV2 ::
    "(Token list \<Rightarrow> Token list) \<Rightarrow> (u16 \<Rightarrow> byte list) \<Rightarrow> HashPartitionPolicy \<Rightarrow> u16 list \<Rightarrow>
       BucketV2 list \<Rightarrow> (BucketV2 list \<times> ownerChanges) res" where
  "hp_RePartitionV2 sortTokens varintU16 hp updatedWorkers oldBuckets =
     rbind (fatal_if (updatedWorkers = []) ''New worker list invalid'') (\<lambda>_.
     rbind (fatal_if (int (length oldBuckets) \<noteq> NumBuckets (hp_base hp)) ''Existing bucket list invalid'') (\<lambda>_.
     rbind (hp_GenerateBucketsV2 sortTokens varintU16 hp updatedWorkers) (\<lambda>newBuckets.
     rbind (computeBucketOwnerChangesV2 oldBuckets newBuckets) (\<lambda>ch.
     Inr (newBuckets, ch)))))"

definition hp2_RePartition ::
    "(Token list \<Rightarrow> Token list) \<Rightarrow> (u16 \<Rightarrow> byte list) \<Rightarrow> HashPartitionPolicyV2 \<Rightarrow> u16 list \<Rightarrow>
       Bucket option list \<Rightarrow> (Bucket option list \<times> ownerChanges) res" where
  "hp2_RePartition sortTokens varintU16 hp updatedWorkers oldBuckets =
     rbind (fatal_if (updatedWorkers = []) ''New worker list invalid'') (\<lambda>_.
     rbind (fatal_if (int (length oldBuckets) \<noteq> NumBuckets (hp2_base hp)) ''Existing bucket list invalid'') (\<lambda>_.
     rbind (hp2_GenerateBuckets sortTokens varintU16 hp updatedWorkers) (\<lambda>newBuckets.
     rbind (computeBucketOwnerChanges oldBuckets newBuckets) (\<lambda>ch.
     Inr (newBuckets, ch)))))"

definition hp2_RePartitionV2 ::
    "(Token list \<Rightarrow> Token list) \<Rightarrow> (u16 \<Rightarrow> byte list) \<Rightarrow> HashPartitionPolicyV2 \<Rightarrow> u16 list \<Rightarrow>
       BucketV2 list \<Rightarrow> (BucketV2 list \<times> ownerChanges) res" where
  "hp2_RePartitionV2 sortTokens varintU16 hp updatedWorkers oldBuckets =
     rbind (fatal_if (updatedWorkers = []) ''New worker list invalid'') (\<lambda>_.
     rbind (fatal_if (int (length oldBuckets) \<noteq> NumBuckets (hp2_base hp)) ''Existing bucket list invalid'') (\<lambda>_.
     rbind (hp2_GenerateBucketsV2 sortTokens varintU16 hp updatedWorkers) (\<lambda>newBuckets.
     rbind (computeBucketOwnerChangesV2 oldBuckets newBuckets) (\<lambda>ch.
     Inr (newBuckets, ch)))))"


section \<open>The ring\<close>

definition tokenKey :: "Token \<Rightarrow> nat \<times> nat" where
  "tokenKey t = (BucketIdx t, unat (HashValue t))"

text \<open>The owner of a bucket on the ring: the worker of the last token strictly before it, or of the
  last token of all if there is none.\<close>

definition ringOwner :: "Token list \<Rightarrow> nat \<Rightarrow> u16" where
  "ringOwner tokens b =
     (let before = filter (\<lambda>t. BucketIdx t < b) tokens
      in TokenWorkerID (last (if before = [] then tokens else before)))"

locale token_sorter =
  fixes sortTokens :: "Token list \<Rightarrow> Token list"
  assumes sort_sorted: "sorted (map tokenKey (sortTokens ts))"
    and sort_mset: "mset (sortTokens ts) = mset ts"
begin

lemma sort_set [simp]: "set (sortTokens ts) = set ts"
  using sort_mset[of ts] by (metis set_mset_mset)

lemma sort_Nil [simp]: "sortTokens ts = [] \<longleftrightarrow> ts = []"
  using sort_mset[of ts] by auto

lemma sort_idx_sorted: "sorted (map BucketIdx (sortTokens ts))"
  using sort_sorted[of ts]
  by (auto simp: sorted_iff_nth_mono tokenKey_def less_eq_prod_def split: if_splits) fastforce

end

interpretation stable: token_sorter "sort_key tokenKey"
  by unfold_locales simp_all

lemma filter_before_split:
  assumes "sorted (map BucketIdx ts)" "k < length ts" "BucketIdx (ts ! k) < b"
    "Suc k < length ts \<Longrightarrow> b \<le> BucketIdx (ts ! Suc k)"
  shows "filter (\<lambda>t. BucketIdx t < b) ts = take (Suc k) ts"
proof -
  have le: "BucketIdx (ts ! i) \<le> BucketIdx (ts ! j)" if "i \<le> j" "j < length ts" for i j
    using sorted_nth_mono[OF assms(1), of i j] that by simp
  have "filter (\<lambda>t. BucketIdx t < b) (take (Suc k) ts) = take (Suc k) ts"
  proof (rule filter_True, rule ballI)
    fix t assume "t \<in> set (take (Suc k) ts)"
    then obtain i where "i \<le> k" "t = ts ! i"
      by (auto simp: in_set_conv_nth less_Suc_eq_le)
    then show "BucketIdx t < b" using le[of i k] assms(2,3) by simp
  qed
  moreover have "filter (\<lambda>t. BucketIdx t < b) (drop (Suc k) ts) = []"
  proof (rule filter_False, rule ballI)
    fix t assume "t \<in> set (drop (Suc k) ts)"
    then obtain i where "i < length (drop (Suc k) ts)" "t = drop (Suc k) ts ! i"
      by (metis in_set_conv_nth)
    then have "Suc k + i < length ts" "t = ts ! (Suc k + i)" by simp_all
    then show "\<not> BucketIdx t < b" using le[of "Suc k" "Suc k + i"] assms(4) by simp
  qed
  ultimately show ?thesis by (metis append_take_drop_id append_Nil2 filter_append)
qed

lemma ringOwner_at:
  assumes "sorted (map BucketIdx ts)" "k < length ts" "BucketIdx (ts ! k) < b"
    "Suc k < length ts \<Longrightarrow> b \<le> BucketIdx (ts ! Suc k)"
  shows "ringOwner ts b = TokenWorkerID (ts ! k)"
proof -
  have "last (take (Suc k) ts) = ts ! k" using assms(2) by (simp add: take_Suc_conv_app_nth)
  moreover have "take (Suc k) ts \<noteq> []" using assms(2) by auto
  ultimately show ?thesis using filter_before_split[OF assms] by (simp add: ringOwner_def Let_def)
qed

lemma ringOwner_before_first:
  assumes "sorted (map BucketIdx ts)" "ts \<noteq> []" "b \<le> BucketIdx (hd ts)"
  shows "ringOwner ts b = TokenWorkerID (last ts)"
proof -
  have "\<not> BucketIdx t < b" if "t \<in> set ts" for t
    using that assms by (cases ts) auto
  then have "filter (\<lambda>t. BucketIdx t < b) ts = []" by (simp add: filter_empty_conv)
  then show ?thesis by (simp add: ringOwner_def)
qed

text \<open>The loop over the tokens extends the settled buckets from one token to the next.\<close>

definition ringSettled :: "(u16 \<Rightarrow> 'b) \<Rightarrow> nat \<Rightarrow> Token list \<Rightarrow> nat \<Rightarrow> 'b list \<Rightarrow> bool" where
  "ringSettled mk N ts k bs \<longleftrightarrow> length bs = N \<and>
     (\<forall>b < N. b \<le> BucketIdx (ts ! k) \<or> BucketIdx (last ts) < b \<longrightarrow> bs ! b = mk (ringOwner ts b))"

lemma ringSettled_loop:
  assumes s: "sorted (map BucketIdx ts)" and N: "\<forall>t \<in> set ts. BucketIdx t < N"
    and start: "ringSettled mk N ts 0 bs" and k: "k < length ts"
  shows "\<exists>bs'. rfold (\<lambda>buckets i. fill buckets (Suc (BucketIdx (ts ! i)))
        (Suc (BucketIdx (ts ! Suc i))) (mk (TokenWorkerID (ts ! i)))) bs [0..<k] = Inr bs'
    \<and> ringSettled mk N ts k bs'"
  using k
proof (induction k)
  case 0
  then show ?case using start by simp
next
  case (Suc k)
  then obtain bs1 where r: "rfold (\<lambda>buckets i. fill buckets (Suc (BucketIdx (ts ! i)))
        (Suc (BucketIdx (ts ! Suc i))) (mk (TokenWorkerID (ts ! i)))) bs [0..<k] = Inr bs1"
    and s1: "ringSettled mk N ts k bs1" by auto
  have le: "BucketIdx (ts ! k) \<le> BucketIdx (ts ! Suc k)"
    using sorted_nth_mono[OF s, of k "Suc k"] Suc.prems by simp
  have idx: "Suc (BucketIdx (ts ! Suc k)) \<le> length bs1"
    using N Suc.prems s1 by (auto simp: ringSettled_def Suc_le_eq)
  obtain bs2 where f: "fill bs1 (Suc (BucketIdx (ts ! k))) (Suc (BucketIdx (ts ! Suc k)))
      (mk (TokenWorkerID (ts ! k))) = Inr bs2" "length bs2 = length bs1"
    "\<And>b. b < length bs1 \<Longrightarrow> bs2 ! b = (if Suc (BucketIdx (ts ! k)) \<le> b \<and> b < Suc (BucketIdx (ts ! Suc k))
       then mk (TokenWorkerID (ts ! k)) else bs1 ! b)"
    using fill_nth[OF _ idx, of "Suc (BucketIdx (ts ! k))" "mk (TokenWorkerID (ts ! k))"] le by auto
  have "bs2 ! b = mk (ringOwner ts b)"
    if "b < N" "b \<le> BucketIdx (ts ! Suc k) \<or> BucketIdx (last ts) < b" for b
    using that f(3)[of b] s1 ringOwner_at[OF s, of k b] Suc.prems
    by (auto simp: ringSettled_def Suc_le_eq)
  then have "ringSettled mk N ts (Suc k) bs2" using s1 f(2) by (simp add: ringSettled_def)
  with r f(1) show ?case by (simp add: rfold_append)
qed

lemma ringBuckets_eq:
  assumes s: "sorted (map BucketIdx ts)" and ne: "ts \<noteq> []" and N: "\<forall>t \<in> set ts. BucketIdx t < N"
  shows "ringBuckets mk zero N ts = Inr (map (\<lambda>b. mk (ringOwner ts b)) [0..<N])"
proof -
  let ?o = "mk (TokenWorkerID (last ts))" and ?n = "length ts - 1"
  have last: "last ts = ts ! ?n" and hd: "hd ts = ts ! 0" using ne by (simp_all add: last_conv_nth hd_conv_nth)
  have idx: "BucketIdx (last ts) < N" "BucketIdx (hd ts) < N" using N ne by simp_all
  obtain b1 where b1: "fill (replicate N zero) (Suc (BucketIdx (last ts))) N ?o = Inr b1" "length b1 = N"
    "\<And>b. b < N \<Longrightarrow> b1 ! b = (if Suc (BucketIdx (last ts)) \<le> b then ?o else zero)"
    using fill_nth[of "Suc (BucketIdx (last ts))" N "replicate N zero" ?o] idx by auto
  obtain b2 where b2: "fill b1 0 (Suc (BucketIdx (hd ts))) ?o = Inr b2" "length b2 = N"
    "\<And>b. b < N \<Longrightarrow> b2 ! b = (if b < Suc (BucketIdx (hd ts)) then ?o else b1 ! b)"
    using fill_nth[of 0 "Suc (BucketIdx (hd ts))" b1 ?o] idx b1(2) by auto
  have lastown: "ringOwner ts b = TokenWorkerID (last ts)" if "BucketIdx (last ts) < b" for b
    using ringOwner_at[OF s, of ?n b] that ne last by simp
  have "ringSettled mk N ts 0 b2"
    using b2 b1 lastown ringOwner_before_first[OF s ne] hd
    by (auto simp: ringSettled_def Suc_le_eq less_Suc_eq_le)
  from ringSettled_loop[OF s N this, of ?n] ne obtain b3 where
    b3: "rfold (\<lambda>buckets i. fill buckets (Suc (BucketIdx (ts ! i)))
        (Suc (BucketIdx (ts ! Suc i))) (mk (TokenWorkerID (ts ! i)))) b2 [0..<?n] = Inr b3"
    "ringSettled mk N ts ?n b3" by auto
  have "b3 = map (\<lambda>b. mk (ringOwner ts b)) [0..<N]"
    using b3(2) last by (intro nth_equalityI) (auto simp: ringSettled_def not_le)
  then show ?thesis using b1(1) b2(1) b3(1) ne by (simp add: ringBuckets_def Let_def)
qed


lemma ringOwner_worker: "ts \<noteq> [] \<Longrightarrow> ringOwner ts b \<in> TokenWorkerID ` set ts"
  by (auto simp: ringOwner_def Let_def) (metis filter_is_subset last_in_set subsetD image_eqI)

lemma mkToken_idx: "0 < N \<Longrightarrow> BucketIdx (mkToken N w h) < nat N"
  by (simp add: mkToken_def)

lemma hpTokens_facts:
  "t \<in> set (hpTokens varintU16 hp ws) \<Longrightarrow> TokenWorkerID t \<in> set ws"
  "t \<in> set (hpTokens varintU16 hp ws) \<Longrightarrow> 0 < NumBuckets (hp_base hp) \<Longrightarrow>
     BucketIdx t < nat (NumBuckets (hp_base hp))"
  by (auto simp: hpTokens_def mkToken_def)

lemma hp2Tokens_facts:
  "t \<in> set (hp2Tokens varintU16 hp2 ws) \<Longrightarrow> TokenWorkerID t \<in> set ws"
  "t \<in> set (hp2Tokens varintU16 hp2 ws) \<Longrightarrow> 0 < NumBuckets (hp2_base hp2) \<Longrightarrow>
     BucketIdx t < nat (NumBuckets (hp2_base hp2))"
  by (auto simp: hp2Tokens_def mkToken_def Let_def)

lemma checkWorkers_Inr: "checkWorkers p ws = Inr u \<longleftrightarrow> ws \<noteq> [] \<and> int (length ws) \<le> NumBuckets p"
  by (auto simp: checkWorkers_def res_elims)

lemma checkWorkers_pos: "checkWorkers p ws = Inr u \<Longrightarrow> 0 < NumBuckets p"
  by (cases ws) (auto simp: checkWorkers_Inr)

context token_sorter
begin

text \<open>Every bucket is owned by the worker of its predecessor token on the ring.\<close>

lemma ring_of_tokens:
  assumes "tokens \<noteq> []" "\<And>t. t \<in> set tokens \<Longrightarrow> BucketIdx t < N"
  shows "ringBuckets mk zero N (sortTokens tokens)
    = Inr (map (\<lambda>b. mk (ringOwner (sortTokens tokens) b)) [0..<N])"
  by (rule ringBuckets_eq) (use assms in \<open>auto simp: sort_idx_sorted\<close>)

lemma ring_tokens_nonempty: "ringBuckets mk zero N (sortTokens tokens) = Inr bs \<Longrightarrow> tokens \<noteq> []"
  by (auto simp: ringBuckets_def)

lemma ring_covers:
  assumes run: "rbind (checkWorkers p ws) (\<lambda>_. ringBuckets (\<lambda>w. \<lparr>WorkerID = w, KeyMap = None\<rparr>) zero
       (nat (NumBuckets p)) (sortTokens tokens)) = Inr bs"
    and tok: "\<And>t. t \<in> set tokens \<Longrightarrow> TokenWorkerID t \<in> set ws"
      "\<And>t. t \<in> set tokens \<Longrightarrow> 0 < NumBuckets p \<Longrightarrow> BucketIdx t < nat (NumBuckets p)"
  shows "length bs = nat (NumBuckets p) \<and> set (owners bs) \<subseteq> set ws
    \<and> (\<forall>b \<in> set bs. KeyMap b = None)"
proof -
  obtain u where u: "checkWorkers p ws = Inr u"
    and ring: "ringBuckets (\<lambda>w. \<lparr>WorkerID = w, KeyMap = None\<rparr>) zero (nat (NumBuckets p))
      (sortTokens tokens) = Inr bs"
    using run by (auto simp: rbind_eq_Inr)
  have ne: "tokens \<noteq> []" using ring_tokens_nonempty[OF ring] .
  then have bs: "bs = map (\<lambda>b. \<lparr>WorkerID = ringOwner (sortTokens tokens) b, KeyMap = None\<rparr>)
      [0..<nat (NumBuckets p)]"
    using ring_of_tokens[OF ne, of "nat (NumBuckets p)" "\<lambda>w. \<lparr>WorkerID = w, KeyMap = None\<rparr>" zero]
      tok(2) checkWorkers_pos[OF u] ring by auto
  have "ringOwner (sortTokens tokens) b \<in> set ws" for b
    using ringOwner_worker[of "sortTokens tokens" b] ne tok(1) by auto
  then show ?thesis by (auto simp: bs owners_def)
qed

end

lemma regenerate_diff:
  assumes "rbind (fatal_if (ws = []) m1) (\<lambda>_. rbind (fatal_if (int (length old) \<noteq> NumBuckets p) m2) (\<lambda>_.
      rbind gen (\<lambda>nb. rbind (computeBucketOwnerChangesV2 old nb) (\<lambda>ch. Inr (nb, ch))))) = Inr (new, ch)"
    "\<And>nb. gen = Inr nb \<Longrightarrow> length nb = nat (NumBuckets p)" "length old = nat (NumBuckets p)"
  shows "gen = Inr new \<and> ch = ownerDiff (owners old) (owners new)"
proof -
  have g: "gen = Inr new" using assms(1) by (auto simp: res_elims)
  then show ?thesis
    using assms(1,3) assms(2)[OF g] computeBucketOwnerChangesV2_eq[of old new] by (auto simp: res_elims)
qed

sublocale token_sorter \<subseteq> hp: partition_policy "nat (NumBuckets (hp_base hp))"
  "hp_GenerateBucketsV2 sortTokens varintU16 hp"
  "\<lambda>ws old. Some (hp_RePartitionV2 sortTokens varintU16 hp ws old)" for varintU16 hp
proof -
  have gen: "length bs = nat (NumBuckets (hp_base hp)) \<and> set (owners bs) \<subseteq> set ws
      \<and> (\<forall>b \<in> set bs. KeyMap b = None)"
    if "hp_GenerateBucketsV2 sortTokens varintU16 hp ws = Inr bs" for ws bs
    using ring_covers[OF that[unfolded hp_GenerateBucketsV2_def]] hpTokens_facts by blast
  have rep: "hp_GenerateBucketsV2 sortTokens varintU16 hp ws = Inr new
      \<and> ch = ownerDiff (owners old) (owners new)"
    if "Some (hp_RePartitionV2 sortTokens varintU16 hp ws old) = Some (Inr (new, ch))"
      "length old = nat (NumBuckets (hp_base hp))" for ws old new ch
    by (rule regenerate_diff[OF that(1)[unfolded hp_RePartitionV2_def option.inject]])
      (use gen that(2) in auto)
  show "partition_policy (nat (NumBuckets (hp_base hp))) (hp_GenerateBucketsV2 sortTokens varintU16 hp)
      (\<lambda>ws old. Some (hp_RePartitionV2 sortTokens varintU16 hp ws old))"
    by unfold_locales (use gen rep in blast)+
qed

sublocale token_sorter \<subseteq> hp2: partition_policy "nat (NumBuckets (hp2_base hp2))"
  "hp2_GenerateBucketsV2 sortTokens varintU16 hp2"
  "\<lambda>ws old. Some (hp2_RePartitionV2 sortTokens varintU16 hp2 ws old)" for varintU16 hp2
proof -
  have gen: "length bs = nat (NumBuckets (hp2_base hp2)) \<and> set (owners bs) \<subseteq> set ws
      \<and> (\<forall>b \<in> set bs. KeyMap b = None)"
    if "hp2_GenerateBucketsV2 sortTokens varintU16 hp2 ws = Inr bs" for ws bs
    using ring_covers[OF that[unfolded hp2_GenerateBucketsV2_def]] hp2Tokens_facts by blast
  have rep: "hp2_GenerateBucketsV2 sortTokens varintU16 hp2 ws = Inr new
      \<and> ch = ownerDiff (owners old) (owners new)"
    if "Some (hp2_RePartitionV2 sortTokens varintU16 hp2 ws old) = Some (Inr (new, ch))"
      "length old = nat (NumBuckets (hp2_base hp2))" for ws old new ch
    by (rule regenerate_diff[OF that(1)[unfolded hp2_RePartitionV2_def option.inject]])
      (use gen that(2) in auto)
  show "partition_policy (nat (NumBuckets (hp2_base hp2)))
      (hp2_GenerateBucketsV2 sortTokens varintU16 hp2)
      (\<lambda>ws old. Some (hp2_RePartitionV2 sortTokens varintU16 hp2 ws old))"
    by unfold_locales (use gen rep in blast)+
qed



section \<open>Consistent hashing\<close>

definition ringPred :: "Token list \<Rightarrow> nat \<Rightarrow> Token" where
  "ringPred ts b = last (if filter (\<lambda>t. BucketIdx t < b) ts = [] then ts
                         else filter (\<lambda>t. BucketIdx t < b) ts)"

lemma ringOwner_pred: "ringOwner ts b = TokenWorkerID (ringPred ts b)"
  by (simp add: ringOwner_def ringPred_def Let_def)

lemma last_max:
  assumes "sorted (map tokenKey ts)" "t \<in> set ts"
  shows "tokenKey t \<le> tokenKey (last ts)"
proof -
  obtain i where i: "i < length ts" "t = ts ! i" using assms(2) by (auto simp: in_set_conv_nth)
  then have "last ts = ts ! (length ts - 1)" by (intro last_conv_nth) auto
  then show ?thesis
    using sorted_nth_mono[OF assms(1), of i "length ts - 1"] i by simp
qed

lemma ringPred_eq:
  assumes s: "sorted (map tokenKey ts)" "sorted (map tokenKey ts')"
    and sub: "set ts \<subseteq> set ts'" and inj: "inj_on HashValue (set ts')"
    and mem: "ringPred ts' b \<in> set ts"
  shows "ringPred ts b = ringPred ts' b"
proof -
  let ?P = "\<lambda>t. BucketIdx t < b"
  define xs where "xs = (if filter ?P ts = [] then ts else filter ?P ts)"
  define xs' where "xs' = (if filter ?P ts' = [] then ts' else filter ?P ts')"
  have ne: "ts \<noteq> []" "ts' \<noteq> []" using mem sub by auto
  have "xs \<noteq> []" "xs' \<noteq> []" using ne by (auto simp: xs_def xs'_def)
  then have in_: "ringPred ts b \<in> set xs" "ringPred ts' b \<in> set xs'"
    by (simp_all add: ringPred_def flip: xs_def xs'_def)
  have sort: "sorted (map tokenKey xs)" "sorted (map tokenKey xs')"
    using s by (simp_all add: xs_def xs'_def sorted_filter)
  have empty: "filter ?P ts = [] \<longleftrightarrow> filter ?P ts' = []"
  proof
    assume e: "filter ?P ts = []"
    show "filter ?P ts' = []"
    proof (rule ccontr)
      assume "filter ?P ts' \<noteq> []"
      then have "?P (ringPred ts' b)" using in_(2) by (auto simp: xs'_def)
      with e mem show False by (auto simp: filter_empty_conv)
    qed
  qed (use sub in \<open>auto simp: filter_empty_conv\<close>)
  have "set xs \<subseteq> set xs'" using sub empty by (auto simp: xs_def xs'_def)
  moreover have "ringPred ts' b \<in> set xs" using in_(2) mem empty by (auto simp: xs_def xs'_def)
  ultimately have "tokenKey (ringPred ts' b) \<le> tokenKey (ringPred ts b)"
    "tokenKey (ringPred ts b) \<le> tokenKey (ringPred ts' b)"
    using last_max[OF sort(1)] last_max[OF sort(2)] in_
    by (auto simp: ringPred_def simp flip: xs_def xs'_def)
  then have "HashValue (ringPred ts b) = HashValue (ringPred ts' b)"
    by (metis antisym tokenKey_def prod.inject word_unat_eq_iff)
  moreover have "ringPred ts b \<in> set ts'" "ringPred ts' b \<in> set ts'"
    using in_ \<open>set xs \<subseteq> set xs'\<close> mem sub by (auto simp: xs'_def split: if_splits)
  ultimately show ?thesis using inj by (auto dest: inj_onD)
qed

lemma ringPred_in:
  assumes "ts \<noteq> []" shows "ringPred ts b \<in> set ts"
proof (cases "filter (\<lambda>t. BucketIdx t < b) ts = []")
  case False
  then have "last (filter (\<lambda>t. BucketIdx t < b) ts) \<in> set (filter (\<lambda>t. BucketIdx t < b) ts)"
    by (rule last_in_set)
  with False show ?thesis by (simp add: ringPred_def)
qed (use assms in \<open>simp add: ringPred_def\<close>)

lemma hp2Tokens_set:
  "set (hp2Tokens v hp ws) = (\<Union>w \<in> set ws. set (hp2Tokens v hp [w]))"
  by (simp add: hp2Tokens_def Let_def)

lemma hp2Tokens_worker:
  "t \<in> set (hp2Tokens v hp ws) \<Longrightarrow> TokenWorkerID t \<in> set ws' \<Longrightarrow> t \<in> set (hp2Tokens v hp ws')"
  by (auto simp: hp2Tokens_def Let_def mkToken_def)

text \<open>C21. The second hash policy is a consistent hash ring: for every way of sorting tokens, the owner
  of each bucket is the worker of the last token strictly before it, wrapping around.\<close>

theorem hp2_GenerateBucketsV2_ring:
  assumes "\<And>ts. sorted (map tokenKey (srt ts)) \<and> mset (srt ts) = mset ts"
    and "ws \<noteq> []" "int (length ws) \<le> NumBuckets (hp2_base hp)" "0 < hp2_NumTokens hp"
  shows "hp2_GenerateBucketsV2 srt v hp ws = Inr (map (\<lambda>b. \<lparr>WorkerID = ringOwner (srt (hp2Tokens v hp ws)) b,
       KeyMap = None\<rparr>) [0..<nat (NumBuckets (hp2_base hp))])"
proof -
  have srt: "token_sorter srt" using assms(1) by unfold_locales auto
  have c: "checkWorkers (hp2_base hp) ws = Inr ()" using assms(2,3) by (simp add: checkWorkers_Inr)
  have "hp2Tokens v hp ws \<noteq> []" using assms(2,4) by (cases ws) (simp_all add: hp2Tokens_def Let_def)
  then show ?thesis
    using token_sorter.ring_of_tokens[OF srt, of "hp2Tokens v hp ws" "nat (NumBuckets (hp2_base hp))"
        "\<lambda>w. \<lparr>WorkerID = w, KeyMap = None\<rparr>" zeroBucketV2]
      hp2Tokens_facts(2) checkWorkers_pos[OF c] c
    by (simp add: hp2_GenerateBucketsV2_def)
qed

theorem hp2_GenerateBucketsV2_ring_witness:
  "\<exists>bs. hp2_GenerateBucketsV2 (sort_key tokenKey) (\<lambda>w. [ucast w])
      \<lparr>hp2_base = \<lparr>NumBuckets = 4\<rparr>, hp2_HashFunc = (\<lambda>xs. sum_list (map ucast xs)), hp2_NumTokens = 2\<rparr>
      [1, 2] = Inr bs"
  using hp2_GenerateBucketsV2_ring[of "sort_key tokenKey" "[1, 2]"
      "\<lparr>hp2_base = \<lparr>NumBuckets = 4\<rparr>, hp2_HashFunc = (\<lambda>xs. sum_list (map ucast xs)), hp2_NumTokens = 2\<rparr>"
      "\<lambda>w. [ucast w]"]
  by auto

lemma hp2_generate_InrD:
  assumes srt: "token_sorter srt" and run: "hp2_GenerateBucketsV2 srt v hp ws = Inr bs"
  shows "bs = map (\<lambda>b. \<lparr>WorkerID = ringOwner (srt (hp2Tokens v hp ws)) b, KeyMap = None\<rparr>)
      [0..<nat (NumBuckets (hp2_base hp))] \<and> hp2Tokens v hp ws \<noteq> []"
proof -
  have c: "checkWorkers (hp2_base hp) ws = Inr ()"
    and ring: "ringBuckets (\<lambda>w. \<lparr>WorkerID = w, KeyMap = None\<rparr>) zeroBucketV2
      (nat (NumBuckets (hp2_base hp))) (srt (hp2Tokens v hp ws)) = Inr bs"
    using run by (auto simp: hp2_GenerateBucketsV2_def rbind_eq_Inr)
  have ne: "hp2Tokens v hp ws \<noteq> []" by (rule token_sorter.ring_tokens_nonempty[OF srt ring])
  then show ?thesis
    using token_sorter.ring_of_tokens[OF srt ne, of "nat (NumBuckets (hp2_base hp))"
        "\<lambda>w. \<lparr>WorkerID = w, KeyMap = None\<rparr>" zeroBucketV2] ring
      hp2Tokens_facts(2)[of _ v hp ws] checkWorkers_pos[OF c] by simp
qed




end
