(* ===== verification/Buffers.thy ===== *)
theory Buffers
  imports Koala_Prelude "HOL-Library.Sublist"
begin

text \<open>
  The bounded buffers between network and operator threads (\<^verbatim>\<open>internal/buffer\<close>): the lock-free
  ring buffer with one producer and one consumer, and the pool of pre-allocated batches of an
  input buffer. The ring buffer refines a FIFO queue (locale \<open>bounded_queue\<close>), first for its
  operations run one after the other, then for every interleaving of the single reads and
  writes of the two threads; the pool never hands out a batch that is still in use.
\<close>

section \<open>Ring buffer\<close>

record 'w RingBuffer =
  capacity :: nat
  count :: nat
  read_idx :: nat
  write_idx :: nat
  buffer :: "'w option list"

definition NewOutputRingBuffer :: "nat \<Rightarrow> 'w RingBuffer" where
  "NewOutputRingBuffer bufferSize =
     \<lparr>capacity = bufferSize, count = 0, read_idx = 0, write_idx = 0, buffer = replicate bufferSize None\<rparr>"

text \<open>Moving an index by one, back to zero at the end of the buffer.\<close>

definition bump :: "nat \<Rightarrow> nat \<Rightarrow> nat" where
  "bump cap i = (if i + 1 = cap then 0 else i + 1)"

definition Enqueue :: "'w RingBuffer \<Rightarrow> 'w \<Rightarrow> ('w RingBuffer \<times> bool) res" where
  "Enqueue rb workUnit =
     (if count rb = capacity rb then Inr (rb, False)
      else rbind (set_idx (buffer rb) (write_idx rb) (Some workUnit)) (\<lambda>buf.
           Inr (rb\<lparr>buffer := buf, write_idx := bump (capacity rb) (write_idx rb),
                  count := count rb + 1\<rparr>, True)))"

definition Dequeue :: "'w RingBuffer \<Rightarrow> ('w RingBuffer \<times> 'w option \<times> bool) res" where
  "Dequeue rb =
     (if count rb = 0 then Inr (rb, None, False)
      else rbind (at_idx (buffer rb) (read_idx rb)) (\<lambda>next.
           Inr (rb\<lparr>read_idx := bump (capacity rb) (read_idx rb), count := count rb - 1\<rparr>, next, True)))"

definition CurCount :: "'w RingBuffer \<Rightarrow> nat" where
  "CurCount rb = count rb"


section \<open>Batch pool\<close>

text \<open>A pool hands out its batches in circular order; a batch is known by its address.\<close>

record BatchPool =
  nextBatch :: nat
  poolCapacity :: nat
  pool :: "nat list"

definition NewBatchPool :: "nat \<Rightarrow> BatchPool" where
  "NewBatchPool batchPoolSize =
     \<lparr>nextBatch = 0, poolCapacity = batchPoolSize, pool = [0..<batchPoolSize]\<rparr>"

definition poolGet :: "BatchPool \<Rightarrow> (BatchPool \<times> nat) res" where
  "poolGet bp =
     rbind (at_idx (pool bp) (nextBatch bp)) (\<lambda>batch.
     Inr (bp\<lparr>nextBatch := bump (poolCapacity bp) (nextBatch bp)\<rparr>, batch))"

text \<open>The work units of an input buffer, as far as the pool is concerned.\<close>

datatype unit_ref = BatchRef nat | OtherUnit

record InputBuffer =
  ring :: "unit_ref RingBuffer"
  batchPool :: BatchPool

definition NewInputRingBuffer :: "nat \<Rightarrow> InputBuffer" where
  "NewInputRingBuffer bufferSize =
     \<lparr>ring = NewOutputRingBuffer bufferSize, batchPool = NewBatchPool (bufferSize + 2)\<rparr>"

definition GetFromBatchPool :: "InputBuffer \<Rightarrow> (InputBuffer \<times> nat) res" where
  "GetFromBatchPool b =
     rbind (poolGet (batchPool b)) (\<lambda>(bp, batch). Inr (b\<lparr>batchPool := bp\<rparr>, batch))"


section \<open>The single steps of the two threads\<close>

datatype 'w producer = PIdle | PLoaded 'w | PWritten 'w | PMoved 'w
datatype 'w consumer = CIdle | CLoaded | CRead "'w option" | CMoved "'w option"

text \<open>\<open>sent\<close> and \<open>got\<close> record the work units of the completed calls, in order.\<close>

record 'w spsc =
  rb :: "'w RingBuffer"
  prod :: "'w producer"
  cons :: "'w consumer"
  sent :: "'w list"
  got :: "'w option list"

definition spscInit :: "nat \<Rightarrow> 'w spsc" where
  "spscInit bufferSize =
     \<lparr>rb = NewOutputRingBuffer bufferSize, prod = PIdle, cons = CIdle, sent = [], got = []\<rparr>"

inductive spscStep :: "'w spsc \<Rightarrow> 'w spsc \<Rightarrow> bool" where
  p_full: "prod s = PIdle \<Longrightarrow> count (rb s) = capacity (rb s) \<Longrightarrow> spscStep s s"
| p_load: "prod s = PIdle \<Longrightarrow> count (rb s) \<noteq> capacity (rb s) \<Longrightarrow> spscStep s (s\<lparr>prod := PLoaded w\<rparr>)"
| p_write: "prod s = PLoaded w \<Longrightarrow> set_idx (buffer (rb s)) (write_idx (rb s)) (Some w) = Inr buf \<Longrightarrow>
     spscStep s (s\<lparr>prod := PWritten w, rb := (rb s)\<lparr>buffer := buf\<rparr>\<rparr>)"
| p_move: "prod s = PWritten w \<Longrightarrow>
     spscStep s (s\<lparr>prod := PMoved w,
       rb := (rb s)\<lparr>write_idx := bump (capacity (rb s)) (write_idx (rb s))\<rparr>\<rparr>)"
| p_add: "prod s = PMoved w \<Longrightarrow>
     spscStep s (s\<lparr>prod := PIdle, sent := sent s @ [w], rb := (rb s)\<lparr>count := count (rb s) + 1\<rparr>\<rparr>)"
| c_empty: "cons s = CIdle \<Longrightarrow> count (rb s) = 0 \<Longrightarrow> spscStep s s"
| c_load: "cons s = CIdle \<Longrightarrow> count (rb s) \<noteq> 0 \<Longrightarrow> spscStep s (s\<lparr>cons := CLoaded\<rparr>)"
| c_read: "cons s = CLoaded \<Longrightarrow> at_idx (buffer (rb s)) (read_idx (rb s)) = Inr x \<Longrightarrow>
     spscStep s (s\<lparr>cons := CRead x\<rparr>)"
| c_move: "cons s = CRead x \<Longrightarrow>
     spscStep s (s\<lparr>cons := CMoved x,
       rb := (rb s)\<lparr>read_idx := bump (capacity (rb s)) (read_idx (rb s))\<rparr>\<rparr>)"
| c_add: "cons s = CMoved x \<Longrightarrow>
     spscStep s (s\<lparr>cons := CIdle, got := got s @ [x], rb := (rb s)\<lparr>count := count (rb s) - 1\<rparr>\<rparr>)"

inductive_cases spscStepE: "spscStep s s'"


section \<open>An input buffer at work\<close>

text \<open>The network thread takes a batch from the pool, fills it, and tries to enqueue it until there
  is room, before it reads the next work unit; the operator thread works on the last work unit it
  dequeued.\<close>

record inputState =
  ib :: InputBuffer
  filling :: "nat option"
  working :: "unit_ref option"

definition inputInit :: "nat \<Rightarrow> inputState" where
  "inputInit bufferSize = \<lparr>ib = NewInputRingBuffer bufferSize, filling = None, working = None\<rparr>"

inductive inputStep :: "inputState \<Rightarrow> inputState \<Rightarrow> bool" where
  take_batch: "filling s = None \<Longrightarrow> GetFromBatchPool (ib s) = Inr (b, batch) \<Longrightarrow>
     inputStep s (s\<lparr>ib := b, filling := Some batch\<rparr>)"
| push_batch: "filling s = Some batch \<Longrightarrow> Enqueue (ring (ib s)) (BatchRef batch) = Inr (q, True) \<Longrightarrow>
     inputStep s (s\<lparr>ib := (ib s)\<lparr>ring := q\<rparr>, filling := None\<rparr>)"
| push_other: "filling s = None \<Longrightarrow> Enqueue (ring (ib s)) OtherUnit = Inr (q, True) \<Longrightarrow>
     inputStep s (s\<lparr>ib := (ib s)\<lparr>ring := q\<rparr>\<rparr>)"
| blocked: "filling s = Some batch \<Longrightarrow> Enqueue (ring (ib s)) (BatchRef batch) = Inr (q, False) \<Longrightarrow>
     inputStep s (s\<lparr>ib := (ib s)\<lparr>ring := q\<rparr>\<rparr>)"
| pop: "Dequeue (ring (ib s)) = Inr (q, Some u, True) \<Longrightarrow>
     inputStep s (s\<lparr>ib := (ib s)\<lparr>ring := q\<rparr>, working := Some u\<rparr>)"

inductive_cases inputStepE: "inputStep s s'"


section \<open>Queues\<close>

text \<open>The interface the suppliers and collectors rely on: a bounded FIFO queue.\<close>

locale bounded_queue =
  fixes enq :: "'q \<Rightarrow> 'w \<Rightarrow> ('q \<times> bool) res" and deq :: "'q \<Rightarrow> ('q \<times> 'w option \<times> bool) res"
    and items :: "'q \<Rightarrow> 'w list" and cap :: "'q \<Rightarrow> nat" and ok :: "'q \<Rightarrow> bool"
  assumes enq_full: "ok q \<Longrightarrow> length (items q) = cap q \<Longrightarrow> enq q w = Inr (q, False)"
    and enq_ok: "ok q \<Longrightarrow> length (items q) < cap q \<Longrightarrow>
      \<exists>q'. enq q w = Inr (q', True) \<and> ok q' \<and> items q' = items q @ [w] \<and> cap q' = cap q"
    and deq_empty: "ok q \<Longrightarrow> items q = [] \<Longrightarrow> deq q = Inr (q, None, False)"
    and deq_ok: "ok q \<Longrightarrow> items q = w # ws \<Longrightarrow>
      \<exists>q'. deq q = Inr (q', Some w, True) \<and> ok q' \<and> items q' = ws \<and> cap q' = cap q"
    and bounded: "ok q \<Longrightarrow> length (items q) \<le> cap q"
begin

lemma enq_cases:
  assumes "ok q" "enq q w = Inr (q', b)"
  shows "ok q' \<and> cap q' = cap q \<and> (b \<longleftrightarrow> length (items q) < cap q)
    \<and> items q' = (if b then items q @ [w] else items q)"
proof (cases "length (items q) < cap q")
  case True
  then show ?thesis using enq_ok[OF assms(1) True, of w] assms(2) by auto
next
  case False
  then have "length (items q) = cap q" using bounded[OF assms(1)] by simp
  then show ?thesis using enq_full[OF assms(1)] assms by auto
qed

lemma deq_cases:
  assumes "ok q" "deq q = Inr (q', x, b)"
  shows "ok q' \<and> cap q' = cap q
    \<and> (case items q of [] \<Rightarrow> q' = q \<and> x = None \<and> \<not> b | w # ws \<Rightarrow> x = Some w \<and> b \<and> items q' = ws)"
proof (cases "items q")
  case Nil
  then show ?thesis using deq_empty[OF assms(1)] assms by auto
next
  case (Cons w ws)
  then show ?thesis using deq_ok[OF assms(1) Cons] assms(2) by auto
qed

lemma enq_never_fails: "ok q \<Longrightarrow> \<exists>q' b. enq q w = Inr (q', b)"
  using enq_full[of q w] enq_ok[of q w] bounded[of q] by (cases "length (items q) < cap q") fastforce+

lemma deq_never_fails: "ok q \<Longrightarrow> \<exists>q' x b. deq q = Inr (q', x, b)"
  using deq_empty[of q] deq_ok[of q] by (cases "items q") fastforce+

end


section \<open>The ring buffer is a bounded queue\<close>

definition ringItems :: "'w RingBuffer \<Rightarrow> 'w list" where
  "ringItems q = map (\<lambda>i. the (buffer q ! ((read_idx q + i) mod capacity q))) [0..<count q]"

definition ring_ok :: "'w RingBuffer \<Rightarrow> bool" where
  "ring_ok q \<longleftrightarrow> length (buffer q) = capacity q \<and> count q \<le> capacity q
     \<and> (0 < capacity q \<longrightarrow> read_idx q < capacity q \<and> write_idx q = (read_idx q + count q) mod capacity q)
     \<and> (\<forall>i < count q. buffer q ! ((read_idx q + i) mod capacity q) \<noteq> None)"

lemma bump_mod: "i < cap \<Longrightarrow> bump cap i = (i + 1) mod cap"
  by (simp add: bump_def)

lemma bump_mod_mod: "0 < cap \<Longrightarrow> bump cap (n mod cap) = (n + 1) mod cap"
  by (simp add: bump_mod mod_simps)

lemma add_mod_inj_le:
  fixes i j cap :: nat
  assumes "(r + i) mod cap = (r + j) mod cap" "i \<le> j" "j - i < cap"
  shows "i = j"
proof -
  have "cap dvd (r + j) - (r + i)" using assms mod_eq_dvd_iff_nat[of "r + i" "r + j" cap] by simp
  then show ?thesis using assms(2, 3) by (auto dest: dvd_imp_le)
qed

lemma add_mod_inj:
  fixes i j cap :: nat
  assumes "(r + i) mod cap = (r + j) mod cap" "i < cap" "j < cap"
  shows "i = j"
  using add_mod_inj_le[of r i cap j] add_mod_inj_le[of r j cap i] assms by linarith

lemma length_ringItems [simp]: "length (ringItems q) = count q"
  by (simp add: ringItems_def)

lemma NewOutputRingBuffer_ok [simp]: "ring_ok (NewOutputRingBuffer n)"
  by (simp add: ring_ok_def NewOutputRingBuffer_def)

lemma NewOutputRingBuffer_items [simp]: "ringItems (NewOutputRingBuffer n) = []"
  by (simp add: ringItems_def NewOutputRingBuffer_def)


lemma ring_enq_full: "ring_ok q \<Longrightarrow> length (ringItems q) = capacity q \<Longrightarrow> Enqueue q w = Inr (q, False)"
  by (simp add: Enqueue_def)

lemma ring_write_idx: "ring_ok q \<Longrightarrow> count q < capacity q \<Longrightarrow>
    write_idx q = (read_idx q + count q) mod capacity q \<and> write_idx q < length (buffer q)"
  by (auto simp: ring_ok_def)

lemma ring_slot: "ring_ok q \<Longrightarrow> i < count q \<Longrightarrow> buffer q ! ((read_idx q + i) mod capacity q) \<noteq> None"
  by (simp add: ring_ok_def)

lemma ring_slot_apart: "i < count q \<Longrightarrow> count q < capacity q \<Longrightarrow>
    (read_idx q + i) mod capacity q \<noteq> (read_idx q + count q) mod capacity q"
  using add_mod_inj[of "read_idx q" i "capacity q" "count q"] by auto

lemma ring_enq_ok:
  assumes "ring_ok q" "length (ringItems q) < capacity q"
  shows "\<exists>q'. Enqueue q w = Inr (q', True) \<and> ring_ok q' \<and> ringItems q' = ringItems q @ [w]
    \<and> capacity q' = capacity q"
proof -
  have c: "count q < capacity q" using assms(2) by simp
  note wi = ring_write_idx[OF assms(1) c]
  let ?q = "q\<lparr>buffer := (buffer q)[write_idx q := Some w], write_idx := bump (capacity q) (write_idx q),
    count := count q + 1\<rparr>"
  have keep: "buffer ?q ! ((read_idx q + i) mod capacity q) = buffer q ! ((read_idx q + i) mod capacity q)"
    if "i < count q" for i
    using ring_slot_apart[OF that c] wi by simp
  have new: "buffer ?q ! ((read_idx q + count q) mod capacity q) = Some w"
    using wi by simp
  have "Enqueue q w = Inr (?q, True)" using c wi by (simp add: Enqueue_def set_idx_ok)
  moreover have "ringItems ?q = ringItems q @ [w]"
    using keep new by (simp add: ringItems_def)
  moreover have "buffer ?q ! ((read_idx q + i) mod capacity q) \<noteq> None" if "i < count ?q" for i
    using that keep[of i] new assms(1) by (cases "i = count q") (auto simp: ring_ok_def)
  then have "ring_ok ?q"
    using assms(1) c wi bump_mod_mod[of "capacity q" "read_idx q + count q"] by (simp add: ring_ok_def)
  ultimately show ?thesis by (intro exI[of _ ?q]) simp
qed

lemma ring_deq_empty: "ring_ok q \<Longrightarrow> ringItems q = [] \<Longrightarrow> Dequeue q = Inr (q, None, False)"
  by (simp add: Dequeue_def ringItems_def)

lemma ring_deq_ok:
  assumes "ring_ok q" "ringItems q = w # ws"
  shows "\<exists>q'. Dequeue q = Inr (q', Some w, True) \<and> ring_ok q' \<and> ringItems q' = ws \<and> capacity q' = capacity q"
proof -
  have c: "0 < count q" "0 < capacity q"
    using assms(1) length_ringItems[of q] unfolding assms(2) by (auto simp: ring_ok_def)
  have r: "read_idx q < capacity q" "length (buffer q) = capacity q"
    using assms(1) c by (auto simp: ring_ok_def)
  let ?q = "q\<lparr>read_idx := bump (capacity q) (read_idx q), count := count q - 1\<rparr>"
  have idx: "(read_idx ?q + i) mod capacity q = (read_idx q + Suc i) mod capacity q" for i
    using bump_mod[OF r(1)] by (simp add: mod_simps)
  have split: "[0..<count q] = 0 # map Suc [0..<count q - 1]"
    using c(1) by (simp add: map_Suc_upt upt_conv_Cons)
  have items: "ringItems q = the (buffer q ! read_idx q) # ringItems ?q"
    using r idx by (simp add: ringItems_def split comp_def)
  have "buffer q ! (read_idx q mod capacity q) \<noteq> None" using ring_slot[OF assms(1) c(1)] by simp
  then have "buffer q ! read_idx q = Some w" using items assms(2) r by auto
  then have deq: "Dequeue q = Inr (?q, Some w, True)" using c r by (simp add: Dequeue_def at_idx_ok)
  have "buffer q ! ((read_idx ?q + i) mod capacity q) \<noteq> None" if "i < count q - 1" for i
    using that ring_slot[OF assms(1), of "Suc i"] unfolding idx by simp
  moreover have "write_idx ?q = (read_idx ?q + count ?q) mod capacity ?q"
    using idx[of "count q - 1"] assms(1) c by (simp add: ring_ok_def)
  ultimately have "ring_ok ?q"
    using assms(1) c r bump_mod[OF r(1)] by (auto simp: ring_ok_def)
  then show ?thesis using deq items assms(2) by (intro exI[of _ ?q]) simp
qed

interpretation ring: bounded_queue Enqueue Dequeue ringItems capacity ring_ok
  by unfold_locales
    (auto simp: ring_enq_full ring_enq_ok ring_deq_empty ring_deq_ok, auto simp: ring_ok_def)



section \<open>Every interleaving of the two threads\<close>

definition moving :: "'w producer \<Rightarrow> 'w option" where
  "moving p = (case p of PWritten w \<Rightarrow> Some w | PMoved w \<Rightarrow> Some w | _ \<Rightarrow> None)"

definition holding :: "'w consumer \<Rightarrow> 'w option option" where
  "holding c = (case c of CRead x \<Rightarrow> Some x | CMoved x \<Rightarrow> Some x | _ \<Rightarrow> None)"

definition pMoved :: "'w producer \<Rightarrow> nat" where
  "pMoved p = (case p of PMoved w \<Rightarrow> 1 | _ \<Rightarrow> 0)"

definition cMoved :: "'w consumer \<Rightarrow> nat" where
  "cMoved c = (case c of CMoved x \<Rightarrow> 1 | _ \<Rightarrow> 0)"

definition spsc_counts :: "'w spsc \<Rightarrow> bool" where
  "spsc_counts s \<longleftrightarrow> length (got s) \<le> length (sent s)
     \<and> count (rb s) = length (sent s) - length (got s)
     \<and> count (rb s) \<le> capacity (rb s)
     \<and> (prod s \<noteq> PIdle \<longrightarrow> count (rb s) < capacity (rb s))
     \<and> (cons s \<noteq> CIdle \<longrightarrow> 0 < count (rb s))"

definition spsc_indices :: "'w spsc \<Rightarrow> bool" where
  "spsc_indices s \<longleftrightarrow> length (buffer (rb s)) = capacity (rb s)
     \<and> write_idx (rb s) = (length (sent s) + pMoved (prod s)) mod capacity (rb s)
     \<and> read_idx (rb s) = (length (got s) + cMoved (cons s)) mod capacity (rb s)"

definition spsc_contents :: "'w spsc \<Rightarrow> bool" where
  "spsc_contents s \<longleftrightarrow> got s = map Some (take (length (got s)) (sent s))
     \<and> (\<forall>i. length (got s) \<le> i \<and> i < length (sent s) \<longrightarrow>
          buffer (rb s) ! (i mod capacity (rb s)) = Some (sent s ! i))
     \<and> (\<forall>w. moving (prod s) = Some w \<longrightarrow>
          buffer (rb s) ! (length (sent s) mod capacity (rb s)) = Some w)
     \<and> (\<forall>x. holding (cons s) = Some x \<longrightarrow> x = Some (sent s ! length (got s)))"

lemmas spsc_defs = spsc_counts_def spsc_indices_def spsc_contents_def
lemmas pc_defs = moving_def holding_def pMoved_def cMoved_def


lemma spsc_counts_step: "spscStep s s' \<Longrightarrow> spsc_counts s \<Longrightarrow> spsc_counts s'"
  by (erule spscStepE) (auto simp: spsc_counts_def)

lemma spsc_indices_step:
  assumes "spscStep s s'" "spsc_counts s" "spsc_indices s"
  shows "spsc_indices s'"
  using assms(1)
proof cases
  case (p_move w)
  then have "0 < capacity (rb s)" using assms(2) by (auto simp: spsc_counts_def)
  then show ?thesis
    using p_move assms(3) bump_mod_mod[of "capacity (rb s)" "length (sent s)"] by (simp add: spsc_indices_def pc_defs)
next
  case (c_move x)
  then have "0 < capacity (rb s)" using assms(2) by (auto simp: spsc_counts_def)
  then show ?thesis
    using c_move assms(3) bump_mod_mod[of "capacity (rb s)" "length (got s)"] by (simp add: spsc_indices_def pc_defs)
qed (use assms(3) in \<open>auto simp: spsc_indices_def pc_defs set_idx_eq_Inr\<close>)

lemma spsc_nonempty: "spsc_counts s \<Longrightarrow> cons s \<noteq> CIdle \<Longrightarrow> length (got s) < length (sent s)"
  by (auto simp: spsc_counts_def)

text \<open>The slot of a work unit in the buffer is never the one being written.\<close>

lemma spsc_slots_apart:
  assumes "spsc_counts s" "count (rb s) < capacity (rb s)" "length (got s) \<le> i" "i < length (sent s)"
  shows "i mod capacity (rb s) \<noteq> length (sent s) mod capacity (rb s)"
proof
  assume "i mod capacity (rb s) = length (sent s) mod capacity (rb s)"
  moreover have "length (sent s) - i < capacity (rb s)"
    using assms by (auto simp: spsc_counts_def)
  ultimately show False using add_mod_inj_le[of 0 i "capacity (rb s)" "length (sent s)"] assms(4) by simp
qed

lemma spsc_contents_step:
  assumes "spscStep s s'" "spsc_counts s" "spsc_indices s" "spsc_contents s"
  shows "spsc_contents s'"
  using assms(1)
proof cases
  case (p_write w buf)
  then have c: "count (rb s) < capacity (rb s)" using assms(2) by (auto simp: spsc_counts_def)
  have buf: "buf = (buffer (rb s))[length (sent s) mod capacity (rb s) := Some w]"
    "length (sent s) mod capacity (rb s) < length (buffer (rb s))"
    using p_write assms(3) by (auto simp: set_idx_eq_Inr spsc_indices_def pc_defs)
  have "buf ! (i mod capacity (rb s)) = buffer (rb s) ! (i mod capacity (rb s))"
    if "length (got s) \<le> i" "i < length (sent s)" for i
    using spsc_slots_apart[OF assms(2) c that] buf(1) by simp
  then show ?thesis
    using p_write assms(4) buf by (simp add: spsc_contents_def pc_defs)
next
  case (p_add w)
  have "length (got s) \<le> length (sent s)" using assms(2) by (simp add: spsc_counts_def)
  moreover have "x = Some (sent s ! length (got s)) \<and> length (got s) < length (sent s)"
    if "holding (cons s) = Some x" for x
  proof -
    have "cons s \<noteq> CIdle" using that by (auto simp: holding_def)
    then show ?thesis using that spsc_nonempty[OF assms(2)] assms(4) by (simp add: spsc_contents_def)
  qed
  ultimately show ?thesis
    using p_add assms(4) by (auto simp: spsc_contents_def nth_append less_Suc_eq pc_defs)
next
  case (c_read x)
  then have "length (got s) < length (sent s)" using spsc_nonempty[OF assms(2)] by simp
  then have "x = Some (sent s ! length (got s))"
    using c_read assms(3, 4) by (auto simp: at_idx_eq_Inr spsc_indices_def spsc_contents_def pc_defs)
  then show ?thesis using c_read assms(4) by (simp add: spsc_contents_def pc_defs)
next
  case (c_add x)
  then have "length (got s) < length (sent s)" "x = Some (sent s ! length (got s))"
    using spsc_nonempty[OF assms(2)] assms(4) by (auto simp: spsc_contents_def pc_defs)
  then show ?thesis using c_add assms(4) by (auto simp: spsc_contents_def pc_defs take_Suc_conv_app_nth)
qed (use assms(4) in \<open>auto simp: spsc_contents_def pc_defs\<close>)

lemma spsc_reachable:
  assumes "spscStep\<^sup>*\<^sup>* (spscInit n) s"
  shows "spsc_counts s \<and> spsc_indices s \<and> spsc_contents s \<and> capacity (rb s) = n"
  using assms
proof (induction rule: rtranclp_induct)
  case base
  then show ?case by (simp add: spsc_defs pc_defs spscInit_def NewOutputRingBuffer_def)
next
  case (step s s')
  have "capacity (rb s') = capacity (rb s)" using step.hyps(2) by cases auto
  then show ?case
    using step spsc_counts_step spsc_indices_step spsc_contents_step by auto
qed



section \<open>Batches in use\<close>

fun batchOf :: "unit_ref \<Rightarrow> nat list" where
  "batchOf (BatchRef b) = [b]"
| "batchOf OtherUnit = []"

definition inUse :: "inputState \<Rightarrow> nat list" where
  "inUse s = (case working s of None \<Rightarrow> [] | Some u \<Rightarrow> batchOf u)
     @ concat (map batchOf (ringItems (ring (ib s))))
     @ (case filling s of None \<Rightarrow> [] | Some b \<Rightarrow> [b])"

text \<open>After \<open>g\<close> calls, the batches in use are the last ones the pool has handed out.\<close>

definition lastOut :: "nat \<Rightarrow> nat \<Rightarrow> nat list \<Rightarrow> bool" where
  "lastOut P g us \<longleftrightarrow> (\<exists>l \<le> g. us = map (\<lambda>i. i mod P) [l..<g])"

definition input_ok :: "nat \<Rightarrow> inputState \<Rightarrow> bool" where
  "input_ok n s \<longleftrightarrow> ring_ok (ring (ib s)) \<and> capacity (ring (ib s)) = n
     \<and> poolCapacity (batchPool (ib s)) = n + 2 \<and> pool (batchPool (ib s)) = [0..<n + 2]
     \<and> (\<exists>g. nextBatch (batchPool (ib s)) = g mod (n + 2) \<and> lastOut (n + 2) g (inUse s))"

lemma lastOut_snoc:
  assumes "lastOut P g us"
  shows "lastOut P (Suc g) (us @ [g mod P])"
proof -
  obtain l where "l \<le> g" "us = map (\<lambda>i. i mod P) [l..<g]" using assms by (auto simp: lastOut_def)
  then show ?thesis unfolding lastOut_def by (intro exI[of _ l]) simp
qed

lemma lastOut_suffix:
  assumes "lastOut P g (us @ vs)"
  shows "lastOut P g vs"
proof -
  obtain l where l: "l \<le> g" "us @ vs = map (\<lambda>i. i mod P) [l..<g]" using assms by (auto simp: lastOut_def)
  have len: "length us + length vs = g - l" using arg_cong[OF l(2), of length] by simp
  have "vs = map (\<lambda>i. i mod P) [l + length us..<g]"
    using arg_cong[OF l(2), of "drop (length us)"] by (simp add: drop_map drop_upt)
  then show ?thesis using len l(1) unfolding lastOut_def by (intro exI[of _ "l + length us"]) simp
qed

lemma lastOut_distinct:
  assumes "lastOut P g us" "length us \<le> P"
  shows "distinct us"
proof -
  obtain l where l: "l \<le> g" "us = map (\<lambda>i. i mod P) [l..<g]" using assms by (auto simp: lastOut_def)
  have "g - l \<le> P" using assms(2) arg_cong[OF l(2), of length] by simp
  have "x = y" if xy: "l \<le> x" "x < g" "l \<le> y" "y < g" "x mod P = y mod P" for x y
  proof (cases "x \<le> y")
    case True
    show ?thesis by (rule add_mod_inj_le[of 0 x P y]) (use True xy \<open>g - l \<le> P\<close> in simp_all)
  next
    case False
    have "y = x" by (rule add_mod_inj_le[of 0 y P x]) (use False xy \<open>g - l \<le> P\<close> in simp_all)
    then show ?thesis by simp
  qed
  then have "inj_on (\<lambda>i. i mod P) {l..<g}" by (simp add: inj_on_def)
  then show ?thesis unfolding l(2) by (simp add: distinct_map)
qed

lemma length_batches: "length (concat (map batchOf us)) \<le> length us"
proof (induction us)
  case (Cons u us)
  then show ?case by (cases u) auto
qed simp

lemma length_inUse:
  assumes "input_ok n s"
  shows "length (inUse s) \<le> n + 2"
proof -
  have "length (ringItems (ring (ib s))) \<le> n" using assms by (simp add: input_ok_def ring_ok_def)
  then have "length (concat (map batchOf (ringItems (ring (ib s))))) \<le> n"
    using length_batches order_trans by blast
  moreover have "length (case working s of None \<Rightarrow> [] | Some u \<Rightarrow> batchOf u) \<le> 1"
    using length_batches[of "[the (working s)]"] by (cases "working s") auto
  moreover have "length (case filling s of None \<Rightarrow> [] | Some b \<Rightarrow> [b]) \<le> 1"
    by (cases "filling s") auto
  ultimately show ?thesis unfolding inUse_def length_append by linarith
qed

lemma poolGet_eq:
  assumes "pool bp = [0..<P]" "poolCapacity bp = P" "nextBatch bp = g mod P" "0 < P"
  shows "poolGet bp = Inr (bp\<lparr>nextBatch := Suc g mod P\<rparr>, g mod P)"
  using assms bump_mod_mod[of P g] by (simp add: poolGet_def at_idx_ok)

lemma input_ok_ring:
  assumes "input_ok n s" "s' = s\<lparr>ib := (ib s)\<lparr>ring := q\<rparr>, filling := f, working := w\<rparr>"
    "ring_ok q" "capacity q = n" "inUse s = us @ inUse s'"
  shows "input_ok n s'"
proof -
  obtain g where "nextBatch (batchPool (ib s)) = g mod (n + 2)" "lastOut (n + 2) g (us @ inUse s')"
    using assms(1) unfolding assms(5)[symmetric] by (auto simp: input_ok_def)
  then show ?thesis
    using assms(1-4) lastOut_suffix[of "n + 2" g us "inUse s'"] unfolding input_ok_def by auto
qed

lemma input_ok_take:
  assumes "input_ok n s" "filling s = None" "GetFromBatchPool (ib s) = Inr (b, batch)"
  shows "input_ok n (s\<lparr>ib := b, filling := Some batch\<rparr>)"
proof -
  obtain g where g: "nextBatch (batchPool (ib s)) = g mod (n + 2)" "lastOut (n + 2) g (inUse s)"
    using assms(1) by (auto simp: input_ok_def)
  have "poolGet (batchPool (ib s)) = Inr ((batchPool (ib s))\<lparr>nextBatch := Suc g mod (n + 2)\<rparr>, g mod (n + 2))"
    using assms(1) g(1) unfolding input_ok_def by (intro poolGet_eq) auto
  then have b: "batch = g mod (n + 2)"
      "b = (ib s)\<lparr>batchPool := (batchPool (ib s))\<lparr>nextBatch := Suc g mod (n + 2)\<rparr>\<rparr>"
    using assms(3) by (auto simp: GetFromBatchPool_def)
  have "inUse (s\<lparr>ib := b, filling := Some batch\<rparr>) = inUse s @ [g mod (n + 2)]"
    using assms(2) b by (simp add: inUse_def)
  then show ?thesis
    using b assms(1) lastOut_snoc[OF g(2)] unfolding input_ok_def by (auto intro!: exI[of _ "Suc g"])
qed

lemma input_ok_step:
  assumes "inputStep s s'" "input_ok n s"
  shows "input_ok n s'"
  using assms(1)
proof cases
  case (take_batch b batch)
  then show ?thesis using input_ok_take[OF assms(2)] by simp
next
  case (pop q u)
  have ok: "ring_ok (ring (ib s))" "capacity (ring (ib s)) = n" using assms(2) by (auto simp: input_ok_def)
  note d = ring.deq_cases[OF ok(1) pop(2)]
  have "ringItems (ring (ib s)) = u # ringItems q"
    using d by (auto split: list.splits)
  then have "inUse s = (case working s of None \<Rightarrow> [] | Some u \<Rightarrow> batchOf u) @ inUse s'"
    using pop by (simp add: inUse_def)
  then show ?thesis using input_ok_ring[OF assms(2), where s' = s' and q = q and f = "filling s" and w = "Some u"] pop d ok by simp
next
  case (push_batch batch q)
  have ok: "ring_ok (ring (ib s))" "capacity (ring (ib s)) = n" using assms(2) by (auto simp: input_ok_def)
  note e = ring.enq_cases[OF ok(1) push_batch(3)]
  then have "inUse s = [] @ inUse s'" using push_batch by (simp add: inUse_def)
  then show ?thesis using input_ok_ring[OF assms(2), where s' = s' and q = q and f = None and w = "working s"] push_batch e ok by simp
next
  case (push_other q)
  have ok: "ring_ok (ring (ib s))" "capacity (ring (ib s)) = n" using assms(2) by (auto simp: input_ok_def)
  note e = ring.enq_cases[OF ok(1) push_other(3)]
  then have "inUse s = [] @ inUse s'" using push_other by (simp add: inUse_def)
  then show ?thesis using input_ok_ring[OF assms(2), where s' = s' and q = q and f = "filling s" and w = "working s"] push_other e ok by simp
next
  case (blocked batch q)
  have ok: "ring_ok (ring (ib s))" "capacity (ring (ib s)) = n" using assms(2) by (auto simp: input_ok_def)
  note e = ring.enq_cases[OF ok(1) blocked(3)]
  then have "inUse s = [] @ inUse s'" using blocked by (simp add: inUse_def)
  then show ?thesis using input_ok_ring[OF assms(2), where s' = s' and q = q and f = "filling s" and w = "working s"] blocked e ok by simp
qed

lemma input_ok_init: "input_ok n (inputInit n)"
  by (auto simp: input_ok_def inputInit_def NewInputRingBuffer_def NewBatchPool_def inUse_def lastOut_def
      NewOutputRingBuffer_def ring_ok_def ringItems_def intro!: exI[of _ 0])

lemma input_reachable: "inputStep\<^sup>*\<^sup>* (inputInit n) s \<Longrightarrow> input_ok n s"
  by (induction rule: rtranclp_induct) (auto simp: input_ok_init input_ok_step)



section \<open>Properties\<close>

text \<open>C24. Called one after the other, the operations of a ring buffer are those of a bounded FIFO queue:
  they never panic, \<open>Enqueue\<close> refuses exactly when the buffer is full and otherwise appends, \<open>Dequeue\<close>
  refuses exactly when it is empty and otherwise removes the oldest work unit, and both keep the
  invariant and the capacity.\<close>

theorem ring_refines_queue:
  assumes "ring_ok q"
  shows "(\<exists>q' b. Enqueue q w = Inr (q', b) \<and> ring_ok q' \<and> capacity q' = capacity q
      \<and> b = (length (ringItems q) < capacity q)
      \<and> ringItems q' = (if b then ringItems q @ [w] else ringItems q))
    \<and> (\<exists>q' x b. Dequeue q = Inr (q', x, b) \<and> ring_ok q' \<and> capacity q' = capacity q
      \<and> (case ringItems q of [] \<Rightarrow> q' = q \<and> x = None \<and> \<not> b
         | w # ws \<Rightarrow> x = Some w \<and> b \<and> ringItems q' = ws))"
  using ring.enq_never_fails[OF assms, of w] ring.enq_cases[OF assms]
    ring.deq_never_fails[OF assms] ring.deq_cases[OF assms]
  by blast

theorem ring_refines_queue_witness:
  "\<exists>q' b. Dequeue \<lparr>capacity = 2, count = 2, read_idx = 1, write_idx = 1, buffer = [Some 8, Some (7 :: nat)]\<rparr>
      = Inr (q', Some 7, b) \<and> ringItems q' = [8]"
proof -
  let ?q = "\<lparr>capacity = 2, count = 2, read_idx = 1, write_idx = 1, buffer = [Some 8, Some (7 :: nat)]\<rparr>"
  have "ring_ok ?q" by (auto simp: ring_ok_def less_2_cases_iff)
  moreover have "ringItems ?q = [7, 8]" by (simp add: ringItems_def upt_rec)
  ultimately show ?thesis using ring_refines_queue[of ?q 0] by auto
qed

text \<open>C11. Under every interleaving of the single steps of one producer and one consumer thread, the work units
  the consumer gets are a prefix of those the producer sent, in order and none of them nil; the buffer
  never holds more than its capacity, and no access of either thread is out of range.\<close>

theorem ring_interleavings_fifo:
  assumes "spscStep\<^sup>*\<^sup>* (spscInit n) s"
  shows "(\<exists>rest. map Some (sent s) = got s @ rest \<and> length rest = count (rb s) \<and> length rest \<le> n)
    \<and> (\<forall>w. prod s = PLoaded w \<longrightarrow> write_idx (rb s) < length (buffer (rb s)))
    \<and> (cons s = CLoaded \<longrightarrow>
        at_idx (buffer (rb s)) (read_idx (rb s)) = Inr (Some (sent s ! length (got s))))"
proof -
  have c: "spsc_counts s" and i: "spsc_indices s" and co: "spsc_contents s" and n: "capacity (rb s) = n"
    using spsc_reachable[OF assms] by auto
  let ?rest = "map Some (drop (length (got s)) (sent s))"
  have "got s = map Some (take (length (got s)) (sent s))" using co by (simp add: spsc_contents_def)
  then have "map Some (sent s) = got s @ ?rest"
    using append_take_drop_id[of "length (got s)" "sent s"] by (metis map_append)
  moreover have "length ?rest = count (rb s)" "length ?rest \<le> n"
    using c n by (auto simp: spsc_counts_def)
  moreover have "write_idx (rb s) < length (buffer (rb s))" if "prod s = PLoaded w" for w
    using that c i by (auto simp: spsc_counts_def spsc_indices_def pc_defs)
  moreover have "at_idx (buffer (rb s)) (read_idx (rb s)) = Inr (Some (sent s ! length (got s)))"
    if "cons s = CLoaded"
    using that c i co spsc_nonempty[OF c]
    by (auto simp: spsc_counts_def spsc_indices_def spsc_contents_def pc_defs at_idx_ok)
  ultimately show ?thesis by blast
qed

theorem ring_interleavings_fifo_witness:
  "\<exists>s rest. spscStep\<^sup>*\<^sup>* (spscInit 1) s \<and> map Some (sent s) = got s @ rest \<and> sent s = [7 :: nat]
    \<and> cons s = CLoaded \<and> at_idx (buffer (rb s)) (read_idx (rb s)) = Inr (Some 7)"
proof -
  let ?a = "spscInit 1 :: nat spsc"
  let ?b = "?a\<lparr>prod := PLoaded 7\<rparr>"
  let ?c = "?b\<lparr>prod := PWritten 7, rb := (rb ?b)\<lparr>buffer := [Some 7]\<rparr>\<rparr>"
  let ?d = "?c\<lparr>prod := PMoved 7, rb := (rb ?c)\<lparr>write_idx := bump (capacity (rb ?c)) (write_idx (rb ?c))\<rparr>\<rparr>"
  let ?e = "?d\<lparr>prod := PIdle, sent := sent ?d @ [7], rb := (rb ?d)\<lparr>count := count (rb ?d) + 1\<rparr>\<rparr>"
  let ?f = "?e\<lparr>cons := CLoaded\<rparr>"
  have "spscStep ?a ?b" by (rule spscStep.p_load) (simp_all add: spscInit_def NewOutputRingBuffer_def)
  moreover have "spscStep ?b ?c"
    by (rule spscStep.p_write) (simp_all add: spscInit_def NewOutputRingBuffer_def set_idx_def)
  moreover have "spscStep ?c ?d" by (rule spscStep.p_move) simp
  moreover have "spscStep ?d ?e" by (rule spscStep.p_add) simp
  moreover have "spscStep ?e ?f" by (rule spscStep.c_load) (simp_all add: spscInit_def)
  ultimately have run: "spscStep\<^sup>*\<^sup>* ?a ?f" by (meson rtranclp.rtrancl_refl rtranclp.rtrancl_into_rtrancl)
  moreover have "sent ?f = [7]" "cons ?f = CLoaded" "got ?f = []" by (simp_all add: spscInit_def)
  ultimately show ?thesis using ring_interleavings_fifo[OF run] by (intro exI[of _ ?f]) auto
qed

text \<open>C12. The pool of an input buffer with room for \<open>n\<close> work units has \<open>n + 2\<close> batches, and that is enough:
  the batch being filled, the batches waiting in the buffer and the batch being processed are always
  pairwise distinct, so no batch is overwritten while it is in use.\<close>

theorem batch_pool_safe:
  assumes "inputStep\<^sup>*\<^sup>* (inputInit n) s"
  shows "distinct (inUse s) \<and> length (inUse s) \<le> n + 2"
proof -
  note ok = input_reachable[OF assms]
  obtain g where "lastOut (n + 2) g (inUse s)" using ok by (auto simp: input_ok_def)
  then show ?thesis using lastOut_distinct length_inUse[OF ok] by blast
qed

theorem batch_pool_safe_witness:
  "\<exists>s. inputStep\<^sup>*\<^sup>* (inputInit 1) s \<and> distinct (inUse s) \<and> inUse s = [0, 1]"
proof -
  let ?q = "\<lparr>capacity = 1, count = 1, read_idx = 0, write_idx = 0, buffer = [Some (BatchRef 0)]\<rparr>"
  let ?p = "\<lambda>k. \<lparr>nextBatch = k, poolCapacity = 3, pool = [0, 1, 2]\<rparr>"
  let ?a = "inputInit 1"
  let ?b = "?a\<lparr>ib := (ib ?a)\<lparr>batchPool := ?p 1\<rparr>, filling := Some 0\<rparr>"
  let ?c = "?b\<lparr>ib := (ib ?b)\<lparr>ring := ?q\<rparr>, filling := None\<rparr>"
  let ?d = "?c\<lparr>ib := (ib ?c)\<lparr>batchPool := ?p 2\<rparr>, filling := Some 1\<rparr>"
  note defs = inputInit_def NewInputRingBuffer_def NewBatchPool_def NewOutputRingBuffer_def
    GetFromBatchPool_def poolGet_def at_idx_def set_idx_def bump_def Enqueue_def upt_rec
  have "inputStep ?a ?b" by (rule inputStep.take_batch) (simp_all add: defs)
  moreover have "inputStep ?b ?c" by (rule inputStep.push_batch) (simp_all add: defs)
  moreover have "inputStep ?c ?d" by (rule inputStep.take_batch) (simp_all add: defs)
  ultimately have run: "inputStep\<^sup>*\<^sup>* ?a ?d" by (meson rtranclp.rtrancl_refl rtranclp.rtrancl_into_rtrancl)
  have "inUse ?d = [0, 1]" by (simp add: inUse_def inputInit_def ringItems_def)
  then show ?thesis using run batch_pool_safe[OF run] by blast
qed

end
