(* ===== verification/State_Backend.thy ===== *)
theory State_Backend
  imports Partition_Policy
begin

text \<open>
  The state backends (\<^verbatim>\<open>state/stateBackend\<close>) and what the state service does with them at bucket
  granularity: the in-memory backend, the batched concurrent read of the Pebble backend, the
  byte range of a range of buckets, and the sender that ships the entries of a bucket in chunks
  (\<^verbatim>\<open>worker/stateCommUtil\<close>). The interface \<open>StateBackend\<close> is the locale \<open>kv_backend\<close>.
\<close>

section \<open>In-memory backend\<close>

text \<open>A byte slice that may be nil is an option; the data of the backend maps keys to values.\<close>

type_synonym bytes = "byte list"
type_synonym store = "skey \<rightharpoonup> bytes"

definition nilToEmpty :: "bytes option \<Rightarrow> bytes" where
  "nilToEmpty v = (case v of None \<Rightarrow> [] | Some b \<Rightarrow> b)"

definition NewMemoryStateBackend :: store where
  "NewMemoryStateBackend = Map.empty"

definition mem_Get :: "store \<Rightarrow> skey \<Rightarrow> bytes option" where
  "mem_Get m key = m key"

definition mem_Set :: "store \<Rightarrow> skey \<Rightarrow> bytes option \<Rightarrow> store" where
  "mem_Set m key value = m(key \<mapsto> nilToEmpty value)"

definition mem_GetMany :: "store \<Rightarrow> skey list option \<Rightarrow> bytes option list res" where
  "mem_GetMany m keys =
     (case keys of None \<Rightarrow> Inl (Fatal ''GetMany(): keys is nil'')
      | Some ks \<Rightarrow> Inr (map (mem_Get m) ks))"

definition mem_SetMany :: "store \<Rightarrow> skey list option \<Rightarrow> bytes option list option \<Rightarrow> store res" where
  "mem_SetMany m keys values =
     (case (keys, values) of
        (Some ks, Some vs) \<Rightarrow>
          rbind (fatal_if (length ks \<noteq> length vs) ''SetMany(): len(keys) != len(values)'') (\<lambda>_.
          Inr (foldl (\<lambda>m (k, v). mem_Set m k v) m (zip ks vs)))
      | _ \<Rightarrow> Inl (Fatal ''SetMany(): keys or values is nil''))"

definition mergeOne :: "store \<Rightarrow> skey \<Rightarrow> bytes option \<Rightarrow> store" where
  "mergeOne m key value =
     (case m key of
        Some existingValue \<Rightarrow> m(key \<mapsto> existingValue @ nilToEmpty value)
      | None \<Rightarrow> m(key \<mapsto> nilToEmpty value))"

definition mem_MergeMany :: "store \<Rightarrow> skey list option \<Rightarrow> bytes option list option \<Rightarrow> store res" where
  "mem_MergeMany m keys values =
     (case (keys, values) of
        (Some ks, Some vs) \<Rightarrow>
          rbind (fatal_if (length ks \<noteq> length vs) ''MergeMany(): len(keys) != len(values)'') (\<lambda>_.
          Inr (foldl (\<lambda>m (k, v). mergeOne m k v) m (zip ks vs)))
      | _ \<Rightarrow> Inl (Fatal ''MergeMany(): keys or values is nil''))"

definition mem_DeleteMany :: "store \<Rightarrow> skey list option \<Rightarrow> store res" where
  "mem_DeleteMany m keys =
     (case keys of None \<Rightarrow> Inl (Fatal ''Delete(): keys is nil'')
      | Some ks \<Rightarrow> Inr (foldl (\<lambda>m k. m(k := None)) m ks))"

definition mem_RangeQuery :: "store \<Rightarrow> bytes option \<Rightarrow> bytes option \<Rightarrow> (skey list \<times> bytes list) res" where
  "mem_RangeQuery m start end' = Inl (Fatal ''MemoryStateBackend doesn't support RangeQuery yet'')"


section \<open>Concurrent read of the Pebble backend\<close>

text \<open>The database is a parameter: \<open>get\<close> reads one key. Each batch of keys is read by its own
  goroutine into its own part of the result; the caller waits for \<open>numBatches\<close> of them, and
  blocks for ever (the value \<open>None\<close>) when fewer are started.\<close>

record PebbleConfig =
  enableConcurrentRead :: bool
  getManyMaxConcurrency :: nat
  getManyBatchSize :: nat

definition pb_config_ok :: "PebbleConfig \<Rightarrow> unit res" where
  "pb_config_ok c =
     (if enableConcurrentRead c then
        rbind (fatal_if (getManyMaxConcurrency c \<le> 0) ''Invalid PebbleGetManyMaxConcurrency'') (\<lambda>_.
        fatal_if (getManyBatchSize c \<le> 0) ''Invalid PebbleGetManyBatchSize'')
      else Inr ())"

text \<open>The loop \<open>for i := 0; i < len(keys); i += batchSize\<close>; \<open>batchSize\<close> is positive where it is used.\<close>

function batchStarts :: "nat \<Rightarrow> nat \<Rightarrow> nat \<Rightarrow> nat list" where
  "batchStarts i n batchSize =
     (if i < n \<and> 0 < batchSize then i # batchStarts (i + batchSize) n batchSize else [])"
  by pat_completeness auto
termination by (relation "measure (\<lambda>(i, n, b). n - i)") auto

declare batchStarts.simps [simp del]

definition numBatches :: "PebbleConfig \<Rightarrow> nat \<Rightarrow> nat" where
  "numBatches c n = min ((n + getManyBatchSize c - 1) div getManyBatchSize c) (getManyMaxConcurrency c)"

definition evenBatchSize :: "PebbleConfig \<Rightarrow> nat \<Rightarrow> nat" where
  "evenBatchSize c n = (n + numBatches c n - 1) div numBatches c n"

definition readBatch :: "(skey \<Rightarrow> bytes option) \<Rightarrow> skey list \<Rightarrow> nat \<Rightarrow> bytes option list \<Rightarrow> nat \<Rightarrow>
    bytes option list res" where
  "readBatch get keys batchSize result i =
     rfold (\<lambda>r j. rbind (at_idx keys j) (\<lambda>k. set_idx r j (get k))) result
       [i..<min (i + batchSize) (length keys)]"

definition pb_GetMany :: "PebbleConfig \<Rightarrow> (skey \<Rightarrow> bytes option) \<Rightarrow> skey list option \<Rightarrow> bytes option list run" where
  "pb_GetMany c get keys =
     (case keys of None \<Rightarrow> Some (Inl (Fatal ''GetMany(): keys is nil''))
      | Some ks \<Rightarrow>
          if ks = [] then Some (Inr [])
          else if \<not> enableConcurrentRead c then Some (Inr (map get ks))
          else if getManyBatchSize c = 0 \<or> numBatches c (length ks) = 0
          then Some (Inl (Panic ''integer divide by zero''))
          else
            (let batchSize = evenBatchSize c (length ks);
                 starts = batchStarts 0 (length ks) batchSize in
             obind (Some (rfold (readBatch get ks batchSize) (replicate (length ks) None) starts))
               (\<lambda>result. if length starts = numBatches c (length ks) then Some (Inr result) else None)))"


section \<open>The bytes of a bucket range\<close>

text \<open>Keys in the store are compared byte by byte.\<close>

fun bytesLess :: "bytes \<Rightarrow> bytes \<Rightarrow> bool" where
  "bytesLess [] ys = (ys \<noteq> [])"
| "bytesLess (x # xs) [] = False"
| "bytesLess (x # xs) (y # ys) = (x < y \<or> x = y \<and> bytesLess xs ys)"

definition bucketBound :: "u16 \<Rightarrow> int \<Rightarrow> bytes" where
  "bucketBound operatorID bucketIdx =
     bePut 2 (unat operatorID) @ bePut 4 (unat (word_of_int bucketIdx :: u32))"

text \<open>\<open>rangeQuery lower upper\<close> is the query of the backend.\<close>

definition ReadLocalBucketRange ::
    "(bytes \<Rightarrow> bytes \<Rightarrow> (skey \<times> bytes) list) \<Rightarrow> u16 \<Rightarrow> int \<Rightarrow> int \<Rightarrow> (skey \<times> bytes) list" where
  "ReadLocalBucketRange rangeQuery operatorID lowerBucketIdx upperBucketIdx =
     rangeQuery (bucketBound operatorID lowerBucketIdx) (bucketBound operatorID (upperBucketIdx + 1))"


section \<open>Sending state in chunks\<close>

text \<open>A message of the stream: the entries of a chunk, or the end of the stream, which is also
  what a chunk whose list of keys is nil turns into.\<close>

datatype StateChunk = Chunk "(skey \<times> bytes) list" | EndOfStream

record StateChunkSender =
  maxChunkSize :: nat
  curChunk :: "(skey \<times> bytes) list option"
  curChunkSize :: nat

definition NewStateChunkSender :: "nat \<Rightarrow> StateChunkSender" where
  "NewStateChunkSender m = \<lparr>maxChunkSize = m, curChunk = None, curChunkSize = 0\<rparr>"

definition NewStateChunkMsg :: "(skey \<times> bytes) list option \<Rightarrow> StateChunk" where
  "NewStateChunkMsg entries = (case entries of None \<Rightarrow> EndOfStream | Some es \<Rightarrow> Chunk es)"

definition resetChunk :: "StateChunkSender \<Rightarrow> StateChunkSender" where
  "resetChunk s = s\<lparr>curChunk := Some [], curChunkSize := 0\<rparr>"

definition entriesOf :: "'a list option \<Rightarrow> 'a list" where
  "entriesOf c = (case c of None \<Rightarrow> [] | Some es \<Rightarrow> es)"

definition sendRecord :: "StateChunkSender \<times> StateChunk list \<Rightarrow> skey \<times> bytes \<Rightarrow> StateChunkSender \<times> StateChunk list" where
  "sendRecord st entry =
     (let (s, out) = st;
          recSize = length (fst entry) + length (snd entry);
          (s, out) = (if curChunkSize s + recSize > maxChunkSize s
                      then (resetChunk s, out @ [NewStateChunkMsg (curChunk s)]) else (s, out)) in
      (s\<lparr>curChunk := Some (entriesOf (curChunk s) @ [entry]), curChunkSize := curChunkSize s + recSize\<rparr>, out))"

definition chunkSend :: "StateChunkSender \<Rightarrow> (skey \<times> bytes) list \<Rightarrow> StateChunkSender \<times> StateChunk list" where
  "chunkSend s entries = foldl sendRecord (s, []) entries"

definition chunkFlush :: "StateChunkSender \<Rightarrow> StateChunkSender \<times> StateChunk list" where
  "chunkFlush s =
     (resetChunk s,
      (if entriesOf (curChunk s) \<noteq> [] then [NewStateChunkMsg (curChunk s)] else []) @ [NewStateChunkMsg None])"

text \<open>The receiver of a bucket migration: it writes every chunk to the local store, and ends at
  the end of the stream. The rest of the stream is returned with the store.\<close>

fun receiveChunks :: "store \<Rightarrow> StateChunk list \<Rightarrow> (store \<times> StateChunk list) res" where
  "receiveChunks m [] = Inl (Fatal ''Failed receiving remote bucket migration response'')"
| "receiveChunks m (EndOfStream # cs) = Inr (m, cs)"
| "receiveChunks m (Chunk es # cs) =
     (if es = [] then Inl (Fatal ''Invalid bucket chunk'')
      else rbind (mem_SetMany m (Some (map fst es)) (Some (map (Some \<circ> snd) es)))
        (\<lambda>m'. receiveChunks m' cs))"

definition DedupStates :: "(skey \<times> bytes) list \<Rightarrow> skey set \<Rightarrow> (skey \<times> bytes) list" where
  "DedupStates entries transferredKeys = filter (\<lambda>e. fst e \<notin> transferredKeys) entries"



section \<open>Backends as key-value stores\<close>

text \<open>The interface \<open>StateBackend\<close>: what a read returns after each kind of write.\<close>

definition assigned :: "'k list \<Rightarrow> 'v list \<Rightarrow> 'k \<Rightarrow> 'v option" where
  "assigned ks vs = map_of (rev (zip ks vs))"

lemma assigned_Cons: "assigned (x # xs) (y # ys) k = (case assigned xs ys k of None \<Rightarrow> if k = x then Some y else None | Some v \<Rightarrow> Some v)"
  by (simp add: assigned_def map_add_def split: option.splits)

lemma assigned_None: "k \<notin> set ks \<Longrightarrow> assigned ks vs k = None"
  by (auto simp: assigned_def map_of_eq_None_iff dest: set_zip_leftD)

lemma assigned_nth:
  assumes "length ks = length vs" "distinct ks" "i < length ks"
  shows "assigned ks vs (ks ! i) = Some (vs ! i)"
  using assms
proof (induction ks vs arbitrary: i rule: list_induct2)
  case (Cons x xs y ys)
  then show ?case by (cases i) (auto simp: assigned_Cons assigned_None)
qed simp

locale kv_backend =
  fixes getMany :: "'s \<Rightarrow> skey list option \<Rightarrow> bytes option list res"
    and setMany :: "'s \<Rightarrow> skey list option \<Rightarrow> bytes option list option \<Rightarrow> 's res"
    and mergeMany :: "'s \<Rightarrow> skey list option \<Rightarrow> bytes option list option \<Rightarrow> 's res"
    and deleteMany :: "'s \<Rightarrow> skey list option \<Rightarrow> 's res"
    and look :: "'s \<Rightarrow> skey \<Rightarrow> bytes option"
  assumes get_law: "getMany s (Some ks) = Inr (map (look s) ks)"
    and set_law: "length ks = length vs \<Longrightarrow> \<exists>s'. setMany s (Some ks) (Some vs) = Inr s'
      \<and> (\<forall>k. look s' k = (case assigned ks vs k of None \<Rightarrow> look s k | Some v \<Rightarrow> Some (nilToEmpty v)))"
    and merge_law: "length ks = length vs \<Longrightarrow> distinct ks \<Longrightarrow> \<exists>s'. mergeMany s (Some ks) (Some vs) = Inr s'
      \<and> (\<forall>k. look s' k = (case assigned ks vs k of None \<Rightarrow> look s k
            | Some v \<Rightarrow> Some (nilToEmpty (look s k) @ nilToEmpty v)))"
    and delete_law: "\<exists>s'. deleteMany s (Some ks) = Inr s'
      \<and> (\<forall>k. look s' k = (if k \<in> set ks then None else look s k))"
begin

lemma set_one: "\<exists>s'. setMany s (Some [k]) (Some [v]) = Inr s' \<and> look s' = (look s)(k \<mapsto> nilToEmpty v)"
  using set_law[of "[k]" "[v]" s] by (auto simp: assigned_def fun_eq_iff split: if_splits)

text \<open>Merging appended bytes stores what overwriting with the whole value would store.\<close>

lemma merge_is_overwrite:
  assumes "length ks = length vs" "distinct ks" "mergeMany s (Some ks) (Some vs) = Inr s'"
    and "setMany s (Some ks) (Some (map2 (\<lambda>k v. Some (nilToEmpty (look s k) @ nilToEmpty v)) ks vs)) = Inr s''"
  shows "look s' = look s''"
proof
  fix k
  let ?ws = "map2 (\<lambda>k v. Some (nilToEmpty (look s k) @ nilToEmpty v)) ks vs"
  have len: "length ks = length ?ws" using assms(1) by simp
  have m: "look s' k = (case assigned ks vs k of None \<Rightarrow> look s k
            | Some v \<Rightarrow> Some (nilToEmpty (look s k) @ nilToEmpty v))"
    using merge_law[OF assms(1, 2), of s] assms(3) by auto
  have w: "look s'' k = (case assigned ks ?ws k of None \<Rightarrow> look s k | Some v \<Rightarrow> Some (nilToEmpty v))"
    using set_law[OF len, of s] assms(4) by auto
  show "look s' k = look s'' k"
  proof (cases "k \<in> set ks")
    case True
    then obtain i where "i < length ks" "k = ks ! i" by (auto simp: in_set_conv_nth)
    then show ?thesis
      using m w assigned_nth[OF assms(1, 2)] assigned_nth[OF len assms(2)] assms(1) by (simp add: nilToEmpty_def)
  next
    case False
    then show ?thesis using m w by (simp add: assigned_None)
  qed
qed

end

lemma mem_set_fold:
  "length ks = length vs \<Longrightarrow> foldl (\<lambda>m (k, v). mem_Set m k v) m (zip ks vs) k
     = (case assigned ks vs k of None \<Rightarrow> m k | Some v \<Rightarrow> Some (nilToEmpty v))"
proof (induction ks vs arbitrary: m rule: list_induct2)
  case (Cons x xs y ys)
  then show ?case
    by (auto simp: assigned_def mem_Set_def map_add_def split: option.splits)
qed (simp add: assigned_def)

lemma mem_merge_fold:
  "length ks = length vs \<Longrightarrow> distinct ks \<Longrightarrow> foldl (\<lambda>m (k, v). mergeOne m k v) m (zip ks vs) k
     = (case assigned ks vs k of None \<Rightarrow> m k | Some v \<Rightarrow> Some (nilToEmpty (m k) @ nilToEmpty v))"
proof (induction ks vs arbitrary: m rule: list_induct2)
  case (Cons x xs y ys)
  have "assigned xs ys x = None" using Cons.prems by (simp add: assigned_None)
  moreover have "mergeOne m x y k = (if k = x then Some (nilToEmpty (m x) @ nilToEmpty y) else m k)"
    by (auto simp: mergeOne_def nilToEmpty_def split: option.splits)
  ultimately show ?case
    using Cons.IH[of "mergeOne m x y"] Cons.prems by (auto simp: assigned_Cons split: option.splits)
qed (simp add: assigned_def)

lemma mem_delete_fold: "foldl (\<lambda>m k. m(k := None)) m ks k = (if k \<in> set ks then None else m k)"
  by (induction ks arbitrary: m) auto

interpretation mem: kv_backend mem_GetMany mem_SetMany mem_MergeMany mem_DeleteMany mem_Get
proof unfold_locales
  fix m :: store and ks :: "skey list" and vs :: "bytes option list"
  show "mem_GetMany m (Some ks) = Inr (map (mem_Get m) ks)" by (simp add: mem_GetMany_def)
  show "\<exists>s'. mem_SetMany m (Some ks) (Some vs) = Inr s'
      \<and> (\<forall>k. mem_Get s' k = (case assigned ks vs k of None \<Rightarrow> mem_Get m k | Some v \<Rightarrow> Some (nilToEmpty v)))"
    if "length ks = length vs"
    using that unfolding mem_Get_def by (simp add: mem_SetMany_def mem_set_fold)
  show "\<exists>s'. mem_MergeMany m (Some ks) (Some vs) = Inr s'
      \<and> (\<forall>k. mem_Get s' k = (case assigned ks vs k of None \<Rightarrow> mem_Get m k
            | Some v \<Rightarrow> Some (nilToEmpty (mem_Get m k) @ nilToEmpty v)))"
    if "length ks = length vs" "distinct ks"
    using that unfolding mem_Get_def by (simp add: mem_MergeMany_def mem_merge_fold)
  show "\<exists>s'. mem_DeleteMany m (Some ks) = Inr s'
      \<and> (\<forall>k. mem_Get s' k = (if k \<in> set ks then None else mem_Get m k))"
    by (simp add: mem_DeleteMany_def mem_Get_def mem_delete_fold)
qed


section \<open>Lemmas on the concurrent read\<close>

lemma fill_from:
  assumes "length r = length ks" "a \<le> b" "b \<le> length ks"
  shows "rfold (\<lambda>r j. rbind (at_idx ks j) (\<lambda>k. set_idx r j (g k))) r [a..<b]
    = Inr (map (\<lambda>j. if a \<le> j \<and> j < b then g (ks ! j) else r ! j) [0..<length ks])"
  using assms
proof (induction "b - a" arbitrary: a r)
  case 0
  then show ?case by (auto intro!: nth_equalityI)
next
  case (Suc d)
  then have ab: "a < b" by simp
  have "rfold (\<lambda>r j. rbind (at_idx ks j) (\<lambda>k. set_idx r j (g k))) r [a..<b]
      = rfold (\<lambda>r j. rbind (at_idx ks j) (\<lambda>k. set_idx r j (g k))) (r[a := g (ks ! a)]) [Suc a..<b]"
    using Suc.prems ab by (simp add: upt_conv_Cons at_idx_ok set_idx_ok)
  also have "\<dots> = Inr (map (\<lambda>j. if Suc a \<le> j \<and> j < b then g (ks ! j) else r[a := g (ks ! a)] ! j) [0..<length ks])"
    using Suc by simp
  also have "map (\<lambda>j. if Suc a \<le> j \<and> j < b then g (ks ! j) else r[a := g (ks ! a)] ! j) [0..<length ks]
      = map (\<lambda>j. if a \<le> j \<and> j < b then g (ks ! j) else r ! j) [0..<length ks]"
    using Suc.prems ab by (auto simp: nth_list_update)
  finally show ?case .
qed

lemma batches_fill:
  assumes "0 < bs" "length r = length ks" "i \<le> length ks \<or> r = map get ks"
  shows "rfold (readBatch get ks bs) r (batchStarts i (length ks) bs)
    = Inr (map (\<lambda>j. if i \<le> j then get (ks ! j) else r ! j) [0..<length ks])"
  using assms
proof (induction "length ks - i" arbitrary: i r rule: less_induct)
  case less
  show ?case
  proof (cases "i < length ks")
    case True
    let ?r = "map (\<lambda>j. if i \<le> j \<and> j < min (i + bs) (length ks) then get (ks ! j) else r ! j) [0..<length ks]"
    have "rfold (readBatch get ks bs) r (batchStarts i (length ks) bs)
        = rfold (readBatch get ks bs) ?r (batchStarts (i + bs) (length ks) bs)"
      using True less.prems by (subst batchStarts.simps) (simp add: readBatch_def fill_from)
    also have "\<dots> = Inr (map (\<lambda>j. if i \<le> j then get (ks ! j) else r ! j) [0..<length ks])"
    proof (cases "i + bs \<le> length ks")
      case le: True
      have "rfold (readBatch get ks bs) ?r (batchStarts (i + bs) (length ks) bs)
          = Inr (map (\<lambda>j. if i + bs \<le> j then get (ks ! j) else ?r ! j) [0..<length ks])"
        using less.hyps[of "i + bs" ?r] True less.prems(1) le by simp
      also have "\<dots> = Inr (map (\<lambda>j. if i \<le> j then get (ks ! j) else r ! j) [0..<length ks])"
        by (auto simp: min_def)
      finally show ?thesis .
    next
      case False
      then have "batchStarts (i + bs) (length ks) bs = []" by (simp add: batchStarts.simps)
      then show ?thesis using False by (auto simp: min_def)
    qed
    finally show ?thesis .
  next
    case False
    then have "batchStarts i (length ks) bs = []" by (simp add: batchStarts.simps)
    then show ?thesis using False less.prems by (auto intro: nth_equalityI)
  qed
qed

lemma length_batchStarts: "0 < bs \<Longrightarrow> length (batchStarts i n bs) = (n - i + bs - 1) div bs"
proof (induction i n bs rule: batchStarts.induct)
  case (1 i n bs)
  show ?case
  proof (cases "i < n")
    case True
    have "(n - i + bs - 1) div bs = Suc ((n - i - 1) div bs)"
      using "1.prems" True div_add_self2[of bs "n - i - 1"] by (simp add: algebra_simps)
    moreover have "(n - (i + bs) + bs - 1) div bs = (n - i - 1) div bs"
    proof (cases "i + bs \<le> n")
      case True
      then show ?thesis by (simp add: algebra_simps)
    next
      case False
      then show ?thesis using True "1.prems" by simp
    qed
    ultimately show ?thesis using True 1 by (subst batchStarts.simps) simp
  qed (use "1.prems" in \<open>simp add: batchStarts.simps\<close>)
qed

text \<open>Rounding up: the number of batches of size \<open>b\<close> that cover \<open>n\<close> keys.\<close>

lemma ceil_le_iff: "0 < b \<Longrightarrow> ((n :: nat) + b - 1) div b \<le> q \<longleftrightarrow> n \<le> q * b"
proof -
  assume b: "0 < b"
  have "(n + b - 1) div b \<le> q \<longleftrightarrow> (n + b - 1) div b < Suc q" by auto
  also have "\<dots> \<longleftrightarrow> n + b - 1 < Suc q * b" using b by (simp add: div_less_iff_less_mult)
  also have "\<dots> \<longleftrightarrow> n \<le> q * b" using b by auto
  finally show ?thesis .
qed

lemma ceil_eq_iff:
  assumes "0 < b" "0 < q"
  shows "((n :: nat) + b - 1) div b = q \<longleftrightarrow> (q - 1) * b < n \<and> n \<le> q * b"
  using ceil_le_iff[OF assms(1), of n q] ceil_le_iff[OF assms(1), of n "q - 1"] assms(2) by linarith

lemma pb_GetMany_concurrent:
  assumes "enableConcurrentRead c" "0 < getManyMaxConcurrency c" "0 < getManyBatchSize c" "ks \<noteq> []"
  shows "0 < numBatches c (length ks)" "0 < evenBatchSize c (length ks)"
    and "pb_GetMany c get (Some ks) =
      (if (length ks + evenBatchSize c (length ks) - 1) div evenBatchSize c (length ks) = numBatches c (length ks)
       then Some (Inr (map get ks)) else None)"
proof -
  let ?n = "length ks"
  have n: "0 < ?n" using assms(4) by simp
  have "\<not> (?n + getManyBatchSize c - 1) div getManyBatchSize c \<le> 0"
    using ceil_le_iff[OF assms(3), of ?n 0] n by simp
  then show nb: "0 < numBatches c ?n" using assms(2) by (simp add: numBatches_def)
  have "\<not> (?n + numBatches c ?n - 1) div numBatches c ?n \<le> 0"
    using ceil_le_iff[OF nb, of ?n 0] n by simp
  then show bs: "0 < evenBatchSize c ?n" by (simp add: evenBatchSize_def)
  have "rfold (readBatch get ks (evenBatchSize c ?n)) (replicate ?n None) (batchStarts 0 ?n (evenBatchSize c ?n))
      = Inr (map get ks)"
    using batches_fill[OF bs, of "replicate ?n None" ks 0 get] by (auto intro: nth_equalityI)
  then show "pb_GetMany c get (Some ks) =
      (if (?n + evenBatchSize c ?n - 1) div evenBatchSize c ?n = numBatches c ?n
       then Some (Inr (map get ks)) else None)"
    using assms nb length_batchStarts[OF bs, of 0 ?n] by (simp add: pb_GetMany_def Let_def)
qed


lemma even_batches_enough:
  assumes "0 < M" "0 < e" "M \<le> e + 1" "0 < (L :: nat)"
    and nb: "nb = min ((L + e - 1) div e) M" and bs: "bs = (L + nb - 1) div nb"
  shows "(L + bs - 1) div bs = nb"
proof -
  have pos: "0 < (L + e - 1) div e" using ceil_le_iff[OF assms(2), of L 0] assms(4) by simp
  then have nb0: "0 < nb" using assms(1) by (simp add: nb)
  have bs0: "0 < bs" using ceil_le_iff[OF nb0, of L 0] assms(4) by (simp add: bs)
  have up: "L \<le> nb * bs" using ceil_le_iff[OF nb0, of L bs] by (simp add: bs mult.commute)
  have "(nb - 1) * bs < L"
  proof (cases "(L + e - 1) div e \<le> M")
    case True
    then have q: "nb = (L + e - 1) div e" by (simp add: nb)
    have "L \<le> nb * e" using ceil_le_iff[OF assms(2), of L nb] q by simp
    then have "bs \<le> e" using ceil_le_iff[OF nb0, of L e] by (simp add: bs mult.commute)
    moreover have "(nb - 1) * e < L" using ceil_eq_iff[OF assms(2) nb0, of L] q by simp
    ultimately show ?thesis using mult_le_mono2[of bs e "nb - 1"] by linarith
  next
    case False
    then have q: "nb = M" by (simp add: nb)
    have "M * e < L" using ceil_le_iff[OF assms(2), of L M] False by simp
    then have big: "e < bs" using ceil_le_iff[OF nb0, of L e] q by (simp add: bs mult.commute not_le[symmetric])
    have "bs * nb \<le> L + nb - 1" by (simp add: bs)
    then have "(nb - 1) * bs + bs \<le> L + nb - 1" using nb0 by (simp add: algebra_simps)
    then show ?thesis using big q assms(3) nb0 by linarith
  qed
  then show ?thesis using ceil_eq_iff[OF bs0 nb0, of L] up by simp
qed

lemma even_batches_short:
  assumes "0 < (e :: nat)" "e + 2 \<le> M" "L = e * M + 1"
    and nb: "nb = min ((L + e - 1) div e) M" and bs: "bs = (L + nb - 1) div nb"
  shows "(L + bs - 1) div bs \<noteq> nb"
proof -
  have "\<not> (L + e - 1) div e \<le> M" using ceil_le_iff[OF assms(1), of L M] by (simp add: assms(3))
  then have q: "nb = M" by (simp add: nb)
  have M: "0 < M" using assms(2) by simp
  have "bs = e + 1"
    unfolding bs q assms(3) using M assms(1, 2) ceil_eq_iff[of M "e + 1" "e * M + 1"]
    by (simp add: algebra_simps)
  then have "\<not> (nb - 1) * bs < L" using assms(2) unfolding q assms(3)
    by (simp add: algebra_simps diff_mult_distrib)
  then show ?thesis using ceil_eq_iff[of bs nb L] \<open>bs = e + 1\<close> q M by auto
qed


section \<open>Properties of the concurrent read\<close>




section \<open>Lemmas on byte ranges\<close>

lemma foldl_beNat: "foldl (\<lambda>a b. a * 256 + unat (b :: byte)) n bs = n * 256 ^ length bs + beNat bs"
proof (induction bs arbitrary: n)
  case (Cons b bs)
  have "foldl (\<lambda>a b. a * 256 + unat (b :: byte)) n (b # bs) = (n * 256 + unat b) * 256 ^ length bs + beNat bs"
    using Cons.IH[of "n * 256 + unat b"] by simp
  moreover have "beNat (b # bs) = unat b * 256 ^ length bs + beNat bs"
    using Cons.IH[of "unat b"] by (simp add: beNat_def)
  ultimately show ?case by (simp add: algebra_simps)
qed (simp add: beNat_def)

lemma beNat_Cons: "beNat (b # bs) = unat b * 256 ^ length bs + beNat bs"
  using foldl_beNat[of "unat b" bs] by (simp add: beNat_def)

lemma beNat_less: "beNat bs < 256 ^ length bs"
proof (induction bs)
  case (Cons b bs)
  have "unat b \<le> 255" using unsigned_less[of b, where 'a = nat] by simp
  then have "unat b * 256 ^ length bs \<le> 255 * 256 ^ length bs" by (rule mult_le_mono1)
  then have "unat b * 256 ^ length bs + beNat bs < 255 * 256 ^ length bs + 256 ^ length bs"
    using Cons by (rule add_le_less_mono)
  then show ?case by (simp add: beNat_Cons)
qed (simp add: beNat_def)

lemma bytesLess_append:
  "length xs = length ys \<Longrightarrow>
     bytesLess (xs @ us) (ys @ vs) \<longleftrightarrow> beNat xs < beNat ys \<or> xs = ys \<and> bytesLess us vs"
proof (induction xs ys rule: list_induct2)
  case (Cons x xs y ys)
  let ?p = "256 ^ length xs :: nat"
  have lt: "unat x * ?p + beNat xs < unat y * ?p + beNat ys" if "x < y"
  proof -
    have "unat x + 1 \<le> unat y" using that by (simp add: word_less_nat_alt)
    then have "(unat x + 1) * ?p \<le> unat y * ?p" by (rule mult_le_mono1)
    then show ?thesis using beNat_less[of xs] by (simp add: algebra_simps)
  qed
  have gt: "\<not> unat x * ?p + beNat xs < unat y * ?p + beNat ys" if "y < x"
  proof -
    have "unat y + 1 \<le> unat x" using that by (simp add: word_less_nat_alt)
    then have "(unat y + 1) * ?p \<le> unat x * ?p" by (rule mult_le_mono1)
    then show ?thesis using beNat_less[of ys] Cons.hyps by (simp add: algebra_simps)
  qed
  show ?case
    using Cons lt gt by (cases x y rule: linorder_cases) (auto simp: beNat_Cons)
qed (simp add: beNat_def)

definition storedKey :: "u16 \<Rightarrow> u32 \<Rightarrow> bytes \<Rightarrow> skey" where
  "storedKey op b rest = bePut 2 (unat op) @ bePut 4 (unat b) @ rest"

lemma bePut_inj:
  assumes "bePut k m = bePut k n" "m < 256 ^ k" "n < 256 ^ k"
  shows "m = n"
proof -
  have "m mod 256 ^ k = n mod 256 ^ k" using arg_cong[OF assms(1), of beNat] unfolding beNat_bePut .
  then show ?thesis using assms(2, 3) by simp
qed

lemma unat_u16_less: "unat (x :: u16) < 256 ^ 2" using unsigned_less[of x, where 'a = nat] by simp
lemma unat_u32_less: "unat (x :: u32) < 256 ^ 4" using unsigned_less[of x, where 'a = nat] by simp

lemma storedKey_inject:
  "storedKey op b rest = storedKey op' b' rest' \<longleftrightarrow> op = op' \<and> b = b' \<and> rest = rest'"
proof
  assume eq: "storedKey op b rest = storedKey op' b' rest'"
  then have "bePut 2 (unat op) = bePut 2 (unat op')" "bePut 4 (unat b) = bePut 4 (unat b')" "rest = rest'"
    by (simp_all add: storedKey_def)
  then show "op = op' \<and> b = b' \<and> rest = rest'"
    using bePut_inj[OF _ unat_u16_less unat_u16_less] bePut_inj[OF _ unat_u32_less unat_u32_less]
    by (simp add: word_unat_eq_iff)
qed simp

lemma bucketBound_eq:
  assumes "0 \<le> i" "i < 2 ^ 32"
  shows "bucketBound op i = storedKey op (word_of_int i) []" "uint (word_of_int i :: u32) = i"
  using assms by (simp_all add: bucketBound_def storedKey_def uint_word_of_int)

lemma storedKey_less:
  "bytesLess (storedKey op b rest) (storedKey op' b' rest')
    \<longleftrightarrow> op < op' \<or> op = op' \<and> (b < b' \<or> b = b' \<and> bytesLess rest rest')"
proof -
  have "bytesLess (storedKey op b rest) (storedKey op' b' rest') \<longleftrightarrow>
      unat op < unat op' \<or> bePut 2 (unat op) = bePut 2 (unat op')
        \<and> (unat b < unat b' \<or> bePut 4 (unat b) = bePut 4 (unat b') \<and> bytesLess rest rest')"
    using unat_u16_less[of op] unat_u16_less[of op'] unat_u32_less[of b] unat_u32_less[of b']
    by (simp add: storedKey_def bytesLess_append)
  then show ?thesis
    using bePut_inj[OF _ unat_u16_less unat_u16_less] bePut_inj[OF _ unat_u32_less unat_u32_less]
    by (metis word_less_nat_alt word_unat_eq_iff)
qed

text \<open>What the range query of a backend promises: the entries from \<open>lower\<close> (included) to
  \<open>upper\<close> (excluded), each once.\<close>

definition range_query_ok :: "(bytes \<Rightarrow> bytes \<Rightarrow> (skey \<times> bytes) list) \<Rightarrow> store \<Rightarrow> bool" where
  "range_query_ok rq m \<longleftrightarrow> (\<forall>lo hi.
     set (rq lo hi) = {(k, v). m k = Some v \<and> \<not> bytesLess k lo \<and> bytesLess k hi} \<and> distinct (map fst (rq lo hi)))"

lemma bucket_range_mem:
  assumes "range_query_ok rq m" "0 \<le> lo" "lo \<le> hi" "hi < MaxSupportedBuckets"
    and keys: "\<forall>k \<in> dom m. \<exists>op b rest. k = storedKey op b rest"
  shows "(k, v) \<in> set (ReadLocalBucketRange rq op lo hi) \<longleftrightarrow>
    m k = Some v \<and> (\<exists>b rest. k = storedKey op b rest \<and> lo \<le> uint b \<and> uint b \<le> hi)"
proof (cases "k \<in> dom m")
  case True
  then obtain op' b rest where k: "k = storedKey op' b rest" using keys by blast
  have hi: "0 \<le> hi + 1" "hi + 1 < 2 ^ 32" and lo: "lo < 2 ^ 32"
    using assms by (simp_all add: MaxSupportedBuckets_def)
  note bl = bucketBound_eq[OF assms(2) lo] and bh = bucketBound_eq[OF hi]
  have "(k, v) \<in> set (ReadLocalBucketRange rq op lo hi) \<longleftrightarrow> m k = Some v
      \<and> \<not> bytesLess k (storedKey op (word_of_int lo) []) \<and> bytesLess k (storedKey op (word_of_int (hi + 1)) [])"
    using assms(1) by (simp add: ReadLocalBucketRange_def range_query_ok_def bl(1) bh(1))
  also have "\<dots> \<longleftrightarrow> m k = Some v \<and> op' = op \<and> \<not> b < word_of_int lo \<and> b < (word_of_int (hi + 1) :: u32)"
    unfolding k storedKey_less by (cases rest) auto
  also have "\<not> b < word_of_int lo \<longleftrightarrow> lo \<le> uint b"
    using bl(2) by (simp add: word_less_def not_less)
  also have "b < (word_of_int (hi + 1) :: u32) \<longleftrightarrow> uint b \<le> hi"
    using bh(2) by (simp add: word_less_def)
  finally show ?thesis unfolding k storedKey_inject by auto
next
  case False
  then show ?thesis using assms(1) by (auto simp: ReadLocalBucketRange_def range_query_ok_def)
qed

text \<open>C18. Reading a range of buckets returns exactly the entries of the operator's keys whose bucket is in the range,
  for every range of buckets the system allows: the exclusive upper bound never overflows the four
  bytes of a bucket index.\<close>

theorem bucket_range_exact:
  assumes "range_query_ok rq m" "0 \<le> lo" "lo \<le> hi" "hi < MaxSupportedBuckets"
    and keys: "\<forall>k \<in> dom m. \<exists>op b rest. k = storedKey op b rest"
  shows "(k, v) \<in> set (ReadLocalBucketRange rq op lo hi) \<longleftrightarrow>
    m k = Some v \<and> (\<exists>b rest. k = storedKey op b rest \<and> lo \<le> uint b \<and> uint b \<le> hi)"
  by (rule bucket_range_mem[OF assms])

theorem bucket_range_exact_witness:
  "(storedKey 1 5 [9], [7]) \<in> set (ReadLocalBucketRange
     (\<lambda>lo hi. filter (\<lambda>(k, v). \<not> bytesLess k lo \<and> bytesLess k hi) [(storedKey 1 5 [9], [7])]) 1 3 5)"
proof -
  let ?rq = "\<lambda>lo hi. filter (\<lambda>(k, v). \<not> bytesLess k lo \<and> bytesLess k hi) [(storedKey 1 5 [9], [7])]"
  have "range_query_ok ?rq [storedKey 1 5 [9] \<mapsto> [7]]"
    by (auto simp: range_query_ok_def split: if_splits)
  from bucket_range_exact[OF this, of 3 5 "storedKey 1 5 [9]" "[7]" 1] show ?thesis
    by (auto simp: MaxSupportedBuckets_def storedKey_inject)
qed


section \<open>Lemmas on chunks\<close>

definition entrySize :: "skey \<times> bytes \<Rightarrow> nat" where
  "entrySize e = length (fst e) + length (snd e)"

definition storeAll :: "store \<Rightarrow> (skey \<times> bytes) list \<Rightarrow> store" where
  "storeAll m es = foldl (\<lambda>m (k, v). m(k \<mapsto> v)) m es"

definition sender_ok :: "StateChunkSender \<Rightarrow> bool" where
  "sender_ok s \<longleftrightarrow> curChunkSize s = sum_list (map entrySize (entriesOf (curChunk s)))
     \<and> curChunkSize s \<le> maxChunkSize s"

lemma fresh_sender_ok [simp]: "sender_ok (NewStateChunkSender n)" "sender_ok (resetChunk s)"
  by (simp_all add: sender_ok_def NewStateChunkSender_def resetChunk_def entriesOf_def)

lemma sendRecord_step:
  assumes "sender_ok s" "entrySize e \<le> maxChunkSize s" "sendRecord (s, out) e = (s', out')"
  shows "sender_ok s' \<and> maxChunkSize s' = maxChunkSize s
    \<and> (\<exists>css. out' = out @ map Chunk css \<and> (\<forall>cs \<in> set css. cs \<noteq> [] \<and> sum_list (map entrySize cs) \<le> maxChunkSize s)
        \<and> concat css @ entriesOf (curChunk s') = entriesOf (curChunk s) @ [e])"
proof (cases "curChunkSize s + entrySize e > maxChunkSize s")
  case True
  then have "entriesOf (curChunk s) \<noteq> []" using assms(1, 2) by (auto simp: sender_ok_def)
  then obtain cs where cs: "curChunk s = Some cs" "cs \<noteq> []" by (auto simp: entriesOf_def split: option.splits)
  have "s' = (resetChunk s)\<lparr>curChunk := Some [e], curChunkSize := entrySize e\<rparr>" "out' = out @ map Chunk [cs]"
    using assms(3) True cs
    by (auto simp: sendRecord_def Let_def entrySize_def resetChunk_def entriesOf_def NewStateChunkMsg_def)
  then show ?thesis
    using assms(1, 2) cs
    by (auto simp: sender_ok_def resetChunk_def entriesOf_def intro!: exI[of _ "[cs]"])
next
  case False
  then have "s' = s\<lparr>curChunk := Some (entriesOf (curChunk s) @ [e]), curChunkSize := curChunkSize s + entrySize e\<rparr>"
      "out' = out @ map Chunk []"
    using assms(3) by (auto simp: sendRecord_def Let_def entrySize_def)
  then show ?thesis
    using assms(1) False by (auto simp: sender_ok_def entriesOf_def split: option.splits)
qed

lemma sendRecords:
  assumes "sender_ok s" "\<forall>e \<in> set es. entrySize e \<le> maxChunkSize s" "foldl sendRecord (s, out) es = (s', out')"
  shows "sender_ok s' \<and> maxChunkSize s' = maxChunkSize s
    \<and> (\<exists>css. out' = out @ map Chunk css \<and> (\<forall>cs \<in> set css. cs \<noteq> [] \<and> sum_list (map entrySize cs) \<le> maxChunkSize s)
        \<and> concat css @ entriesOf (curChunk s') = entriesOf (curChunk s) @ es)"
  using assms
proof (induction es arbitrary: s out)
  case Nil
  then show ?case by (auto intro: exI[of _ "[]"])
next
  case (Cons e es)
  obtain t o1 where t: "sendRecord (s, out) e = (t, o1)" by (cases "sendRecord (s, out) e")
  from sendRecord_step[OF Cons.prems(1) _ t] Cons.prems(2)
  obtain cs1 where 1: "sender_ok t" "maxChunkSize t = maxChunkSize s" "o1 = out @ map Chunk cs1"
      "\<forall>cs \<in> set cs1. cs \<noteq> [] \<and> sum_list (map entrySize cs) \<le> maxChunkSize s"
      "concat cs1 @ entriesOf (curChunk t) = entriesOf (curChunk s) @ [e]" by auto
  from Cons.IH[OF 1(1), of o1] Cons.prems(2, 3) t 1(2)
  obtain cs2 where 2: "sender_ok s'" "maxChunkSize s' = maxChunkSize s" "out' = o1 @ map Chunk cs2"
      "\<forall>cs \<in> set cs2. cs \<noteq> [] \<and> sum_list (map entrySize cs) \<le> maxChunkSize s"
      "concat cs2 @ entriesOf (curChunk s') = entriesOf (curChunk t) @ es" by auto
  have "concat (cs1 @ cs2) @ entriesOf (curChunk s') = entriesOf (curChunk s) @ e # es"
    using 1(5) 2(5) by simp
  then show ?case using 1 2 by (intro conjI exI[of _ "cs1 @ cs2"]) auto
qed

lemma storeAll_append: "storeAll m (xs @ ys) = storeAll (storeAll m xs) ys"
  by (simp add: storeAll_def)

lemma SetMany_storeAll: "mem_SetMany m (Some (map fst es)) (Some (map (Some \<circ> snd) es)) = Inr (storeAll m es)"
proof -
  have "foldl (\<lambda>m (k, v). mem_Set m k v) m (zip (map fst es) (map (Some \<circ> snd) es)) = storeAll m es"
    unfolding storeAll_def by (induction es arbitrary: m) (auto simp: mem_Set_def nilToEmpty_def)
  then show ?thesis by (simp add: mem_SetMany_def)
qed

lemma receive_chunks:
  "\<forall>cs \<in> set css. cs \<noteq> [] \<Longrightarrow>
     receiveChunks m (map Chunk css @ EndOfStream # rest) = Inr (storeAll m (concat css), rest)"
proof (induction css arbitrary: m)
  case Nil
  then show ?case by (simp add: storeAll_def)
next
  case (Cons cs css)
  then show ?case using SetMany_storeAll[of m cs] by (simp add: storeAll_append)
qed


section \<open>Properties of bucket migration\<close>

lemma chunk_stream:
  assumes ok: "sender_ok s" "entriesOf (curChunk s) = []"
    and "\<forall>e \<in> set es. entrySize e \<le> maxChunkSize s"
    and "chunkSend s es = (s1, out1)" "chunkFlush s1 = (s2, out2)"
  shows "\<exists>css. out1 @ out2 = map Chunk css @ [EndOfStream] \<and> concat css = es
    \<and> (\<forall>cs \<in> set css. cs \<noteq> [] \<and> sum_list (map entrySize cs) \<le> maxChunkSize s) \<and> s2 = resetChunk s1"
proof -
  from sendRecords[OF ok(1) assms(3), of "[]" s1 out1] assms(4) ok(2)
  obtain css where css: "out1 = map Chunk css" "\<forall>cs \<in> set css. cs \<noteq> [] \<and> sum_list (map entrySize cs) \<le> maxChunkSize s"
      "concat css @ entriesOf (curChunk s1) = es" and s1: "sender_ok s1" "maxChunkSize s1 = maxChunkSize s"
    by (auto simp: chunkSend_def)
  define dss where "dss = (if entriesOf (curChunk s1) \<noteq> [] then [entriesOf (curChunk s1)] else [])"
  have "out2 = map Chunk dss @ [EndOfStream]" "s2 = resetChunk s1"
    using assms(5) by (auto simp: chunkFlush_def dss_def NewStateChunkMsg_def entriesOf_def split: option.splits)
  moreover have "\<forall>cs \<in> set (css @ dss). cs \<noteq> [] \<and> sum_list (map entrySize cs) \<le> maxChunkSize s"
    using css(2) s1 by (auto simp: dss_def sender_ok_def split: if_splits)
  moreover have "concat (css @ dss) = es" using css(3) by (auto simp: dss_def)
  ultimately show ?thesis using css(1) by (intro exI[of _ "css @ dss"]) auto
qed

text \<open>C16. A bucket sent in chunks arrives complete: if every entry fits into a chunk, the receiver of the
  messages of \<open>Send\<close> and \<open>Flush\<close> has stored exactly the entries sent, in order, when it meets the end of the
  stream, no message is left over, and no chunk is empty or larger than the limit.\<close>

theorem chunk_stream_complete:
  assumes "s = NewStateChunkSender n \<or> s = resetChunk s0 \<and> maxChunkSize s0 = n"
    and "\<forall>e \<in> set es. length (fst e) + length (snd e) \<le> n"
    and "chunkSend s es = (s1, out1)" "chunkFlush s1 = (s2, out2)"
  shows "receiveChunks m (out1 @ out2 @ rest) = Inr (storeAll m es, rest)
    \<and> (\<forall>cs. Chunk cs \<in> set (out1 @ out2) \<longrightarrow> cs \<noteq> [] \<and> sum_list (map entrySize cs) \<le> n)
    \<and> s2 = resetChunk s1"
proof -
  have ok: "sender_ok s" "maxChunkSize s = n" "entriesOf (curChunk s) = []"
    using assms(1) by (auto simp: NewStateChunkSender_def resetChunk_def entriesOf_def sender_ok_def)
  have "\<forall>e \<in> set es. entrySize e \<le> maxChunkSize s" using assms(2) ok(2) by (simp add: entrySize_def)
  from chunk_stream[OF ok(1, 3) this assms(3, 4)] ok(2)
  obtain css where css: "out1 @ out2 = map Chunk css @ [EndOfStream]" "concat css = es" "s2 = resetChunk s1"
    "\<forall>cs \<in> set css. cs \<noteq> [] \<and> sum_list (map entrySize cs) \<le> n" by auto
  have "receiveChunks m ((out1 @ out2) @ rest) = Inr (storeAll m es, rest)"
    unfolding css(1) using receive_chunks[of css m rest] css(2, 4) by simp
  moreover have "\<forall>cs. Chunk cs \<in> set (out1 @ out2) \<longrightarrow> cs \<noteq> [] \<and> sum_list (map entrySize cs) \<le> n"
    using css(4) unfolding css(1) by auto
  ultimately show ?thesis using css(3) by simp
qed

theorem chunk_stream_complete_witness:
  "receiveChunks Map.empty (snd (chunkSend (NewStateChunkSender 4) [([1], [2]), ([3], [4, 5])])
     @ snd (chunkFlush (fst (chunkSend (NewStateChunkSender 4) [([1], [2]), ([3], [4, 5])])))) =
   Inr (storeAll Map.empty [([1], [2]), ([3], [4, 5])], [])"
  using chunk_stream_complete[of "NewStateChunkSender 4" 4 undefined "[([1], [2]), ([3], [4, 5])]"
      _ _ _ _ Map.empty "[]", OF _ _ surjective_pairing surjective_pairing]
  by simp

text \<open>C26. An entry that is larger than the chunk limit breaks the transfer: as the first entry a sender meets it
  is preceded by an end-of-stream message, so the receiver stops with nothing stored and the entries stay
  in the stream; later it is preceded by an empty chunk, on which the receiver aborts.\<close>

theorem chunk_oversized:
  assumes "length (fst e) + length (snd e) > n" "chunkSend s (e # es) = (s1, out1)"
  shows "(s = NewStateChunkSender n \<longrightarrow> (\<exists>out. out1 = EndOfStream # out \<and> receiveChunks m (out1 @ rest) = Inr (m, out @ rest)))
    \<and> (s = resetChunk s0 \<and> maxChunkSize s0 = n \<longrightarrow> receiveChunks m (out1 @ rest) = Inl (Fatal ''Invalid bucket chunk''))"
proof -
  have pre: "\<exists>xs. snd (foldl sendRecord st es) = snd st @ xs" for st
  proof (induction es arbitrary: st)
    case (Cons a as)
    have "\<exists>ys. snd (sendRecord st a) = snd st @ ys" by (auto simp: sendRecord_def Let_def split: prod.splits)
    then show ?case using Cons[of "sendRecord st a"] by auto
  qed simp
  have step: "snd (sendRecord (s, []) e) = [NewStateChunkMsg (curChunk s)]"
    if "curChunkSize s = 0" "maxChunkSize s = n"
    using that assms(1) by (simp add: sendRecord_def Let_def)
  obtain xs where xs: "out1 = snd (sendRecord (s, []) e) @ xs"
    using pre[of "sendRecord (s, []) e"] assms(2) by (auto simp: chunkSend_def)
  show ?thesis
    using xs step by (auto simp: NewStateChunkSender_def resetChunk_def NewStateChunkMsg_def)
qed

theorem chunk_oversized_witness:
  "\<exists>out. snd (chunkSend (NewStateChunkSender 2) [([1], [2, 3]), ([4], [5])]) = EndOfStream # out
     \<and> receiveChunks Map.empty (EndOfStream # out) = Inr (Map.empty, out)"
  using chunk_oversized[of 2 "([1], [2, 3])" "NewStateChunkSender 2" "[([4], [5])]" _ _ Map.empty "[]",
      OF _ surjective_pairing] by auto

end
