(* ===== verification/Lookup_Tables.thy ===== *)
theory Lookup_Tables
  imports Partition_Policy
begin

text \<open>
  The two tables that route a key to the worker of its bucket
  (\<^verbatim>\<open>internal/keyby/partitionTable.go\<close> and \<^verbatim>\<open>internal/keyby/keyLookupTable.go\<close>): construction
  from a partition policy, lookup, change of a bucket owner, reconfiguration, and the
  run-length form in which the coordinator sends a table to the workers. The hash function
  is a parameter of the tables, as in the code.
\<close>

section \<open>Bucket ranges\<close>

record BucketRange =
  br_WorkerId :: u32
  LowerBucketIdx :: int
  UpperBucketIdx :: int

definition newRange :: "u16 \<Rightarrow> nat \<Rightarrow> BucketRange" where
  "newRange owner i = \<lparr>br_WorkerId = ucast owner, LowerBucketIdx = int i, UpperBucketIdx = int i\<rparr>"

text \<open>One round of the loop of \<open>Serialize\<close>: finished ranges, owner and current range.\<close>

definition serializeStep ::
    "BucketRange list \<times> u16 \<times> BucketRange \<Rightarrow> nat \<times> u16 \<Rightarrow> BucketRange list \<times> u16 \<times> BucketRange" where
  "serializeStep = (\<lambda>(bucketRanges, lastOwner, bucketRange) (i, owner).
     if owner = lastOwner
     then (bucketRanges, lastOwner, bucketRange\<lparr>UpperBucketIdx := int i\<rparr>)
     else (bucketRanges @ [bucketRange], owner, newRange owner i))"

definition serializeOwners :: "u16 list \<Rightarrow> BucketRange list res" where
  "serializeOwners os =
     rbind (at_idx os 0) (\<lambda>lastOwner.
     case foldl serializeStep ([], lastOwner, newRange lastOwner 0) (enumerate 0 os) of
       (bucketRanges, _, bucketRange) \<Rightarrow> Inr (bucketRanges @ [bucketRange]))"

text \<open>Writing at an index of type \<open>int64\<close>.\<close>

definition set_int :: "'a list \<Rightarrow> int \<Rightarrow> 'a \<Rightarrow> 'a list res" where
  "set_int xs i v = (if i < 0 then Inl (Panic ''index out of range'') else set_idx xs (nat i) v)"

definition writeRange :: "(u16 \<Rightarrow> 'b) \<Rightarrow> 'b list \<Rightarrow> BucketRange \<Rightarrow> 'b list res" where
  "writeRange mk buckets r =
     rfold (\<lambda>bs i. set_int bs i (mk (ucast (br_WorkerId r)))) buckets
       [LowerBucketIdx r..UpperBucketIdx r]"

definition appendRange :: "(u16 \<Rightarrow> 'b) \<Rightarrow> 'b list \<Rightarrow> BucketRange \<Rightarrow> 'b list" where
  "appendRange mk buckets r =
     foldl (\<lambda>bs i. bs @ [mk (ucast (br_WorkerId r))]) buckets [LowerBucketIdx r..UpperBucketIdx r]"


section \<open>PartitionTable\<close>

record PartitionTable =
  pt_H :: hashFunc
  pt_Buckets :: "u16 list"

definition NewPartitionTable ::
    "(u16 list \<Rightarrow> BucketV2 list res) \<Rightarrow> u16 list \<Rightarrow> hashFunc \<Rightarrow> PartitionTable res" where
  "NewPartitionTable generateBucketsV2 workers h =
     rbind (generateBucketsV2 workers) (\<lambda>bucketV2List.
     Inr \<lparr>pt_H = h, pt_Buckets = map WorkerID bucketV2List\<rparr>)"

definition DeserializePartitionTable ::
    "BucketRange list \<Rightarrow> int \<Rightarrow> hashFunc \<Rightarrow> PartitionTable res" where
  "DeserializePartitionTable bucketRanges numBuckets h =
     rbind (rfold (writeRange (\<lambda>w. w)) (replicate (nat numBuckets) 0) bucketRanges) (\<lambda>buckets.
     rbind (fatal_if (int (length buckets) \<noteq> numBuckets)
              ''Deserialized bucket length is not equal to NumBuckets'') (\<lambda>_.
     Inr \<lparr>pt_H = h, pt_Buckets = buckets\<rparr>))"

text \<open>The remainder of a hash by the number of buckets; Go panics on division by zero.\<close>

definition bucketOfHash :: "u64 \<Rightarrow> nat \<Rightarrow> nat res" where
  "bucketOfHash hashValue n =
     (if n = 0 then Inl (Panic ''integer divide by zero'') else Inr (unat hashValue mod n))"

definition pt_KeyToWorkerID :: "PartitionTable \<Rightarrow> byte list \<Rightarrow> u16 res" where
  "pt_KeyToWorkerID table key =
     rbind (bucketOfHash (pt_H table key) (length (pt_Buckets table))) (\<lambda>bucketIdx.
     at_idx (pt_Buckets table) bucketIdx)"

definition pt_Serialize :: "PartitionTable \<Rightarrow> BucketRange list res" where
  "pt_Serialize table = serializeOwners (pt_Buckets table)"

definition pt_Reconfigure ::
    "(u16 list \<Rightarrow> BucketV2 list \<Rightarrow> (BucketV2 list \<times> ownerChanges) run) \<Rightarrow> PartitionTable \<Rightarrow>
       u16 list \<Rightarrow> (PartitionTable \<times> ownerChanges) run" where
  "pt_Reconfigure rePartitionV2 table updatedWorkers =
     obind (Some (fatal_if (updatedWorkers = []) ''No worker to reconfigure'')) (\<lambda>_.
     obind (rePartitionV2 updatedWorkers
              (map (\<lambda>w. \<lparr>WorkerID = w, KeyMap = None\<rparr>) (pt_Buckets table))) (\<lambda>(newBuckets, ch).
     Some (Inr (table\<lparr>pt_Buckets := map WorkerID newBuckets\<rparr>, ch))))"


section \<open>KeyLookupTable\<close>

record KeyLookupTable =
  kl_H :: hashFunc
  kl_Buckets :: "Bucket option list"

definition NewKeyLookupTable ::
    "(u16 list \<Rightarrow> Bucket option list res) \<Rightarrow> u16 list \<Rightarrow> hashFunc \<Rightarrow> KeyLookupTable res" where
  "NewKeyLookupTable generateBuckets workers h =
     rbind (generateBuckets workers) (\<lambda>buckets. Inr \<lparr>kl_H = h, kl_Buckets = buckets\<rparr>)"

definition DeserializeKeyLookupTable ::
    "BucketRange list \<Rightarrow> int \<Rightarrow> hashFunc \<Rightarrow> KeyLookupTable res" where
  "DeserializeKeyLookupTable bucketRanges numBuckets h =
     (let buckets = foldl (appendRange (\<lambda>w. Some \<lparr>b_WorkerID = w\<rparr>)) [] bucketRanges
      in rbind (fatal_if (int (length buckets) \<noteq> numBuckets)
              ''Deserialized bucket length is not equal to NumBuckets'') (\<lambda>_.
         Inr \<lparr>kl_H = h, kl_Buckets = buckets\<rparr>))"

definition kl_KeyToBucketIdxAndWorkerID :: "KeyLookupTable \<Rightarrow> byte list \<Rightarrow> (int \<times> u16) res" where
  "kl_KeyToBucketIdxAndWorkerID table key =
     rbind (bucketOfHash (kl_H table key) (length (kl_Buckets table))) (\<lambda>bucketIdx.
     rbind (rbind (at_idx (kl_Buckets table) bucketIdx) deref) (\<lambda>b.
     Inr (int bucketIdx, b_WorkerID b)))"

definition kl_KeyToWorkerID :: "KeyLookupTable \<Rightarrow> byte list \<Rightarrow> u16 res" where
  "kl_KeyToWorkerID table key =
     rbind (bucketOfHash (kl_H table key) (length (kl_Buckets table))) (\<lambda>bucketIdx.
     rbind (rbind (at_idx (kl_Buckets table) bucketIdx) deref) (\<lambda>b.
     Inr (b_WorkerID b)))"

definition kl_BucketIdxToWorkerID :: "KeyLookupTable \<Rightarrow> int \<Rightarrow> u16 res" where
  "kl_BucketIdxToWorkerID table bucketIdx =
     rbind (fatal_if (bucketIdx < 0 \<or> int (length (kl_Buckets table)) \<le> bucketIdx)
              ''Invalid bucket index'') (\<lambda>_.
     rbind (rbind (at_idx (kl_Buckets table) (nat bucketIdx)) deref) (\<lambda>b.
     Inr (b_WorkerID b)))"

definition kl_ChangeBucketOwner :: "KeyLookupTable \<Rightarrow> int \<Rightarrow> u16 \<Rightarrow> KeyLookupTable res" where
  "kl_ChangeBucketOwner table bucketIdx workerID =
     rbind (fatal_if (bucketIdx < 0 \<or> int (length (kl_Buckets table)) \<le> bucketIdx)
              ''Invalid bucket index'') (\<lambda>_.
     rbind (rbind (at_idx (kl_Buckets table) (nat bucketIdx)) deref) (\<lambda>b.
     Inr (table\<lparr>kl_Buckets := (kl_Buckets table)[nat bucketIdx := Some (b\<lparr>b_WorkerID := workerID\<rparr>)]\<rparr>)))"

definition kl_Serialize :: "KeyLookupTable \<Rightarrow> BucketRange list res" where
  "kl_Serialize table =
     rbind (rfold (\<lambda>os p. rbind (deref p) (\<lambda>b. Inr (os @ [b_WorkerID b]))) [] (kl_Buckets table))
       serializeOwners"

definition kl_Reconfigure ::
    "(u16 list \<Rightarrow> Bucket option list \<Rightarrow> (Bucket option list \<times> ownerChanges) run) \<Rightarrow> KeyLookupTable \<Rightarrow>
       u16 list \<Rightarrow> (KeyLookupTable \<times> ownerChanges) run" where
  "kl_Reconfigure rePartition table updatedWorkers =
     obind (Some (fatal_if (updatedWorkers = []) ''No worker to reconfigure'')) (\<lambda>_.
     obind (rePartition updatedWorkers (kl_Buckets table)) (\<lambda>(newBuckets, ch).
     obind (Some (rfold (\<lambda>_ p. rbind (deref p) (\<lambda>_. Inr ())) () newBuckets)) (\<lambda>_.
     Some (Inr (table\<lparr>kl_Buckets := newBuckets\<rparr>, ch)))))"


section \<open>Ranges tile the table\<close>

definition expandRange :: "BucketRange \<Rightarrow> u16 list" where
  "expandRange r = replicate (nat (UpperBucketIdx r - LowerBucketIdx r + 1)) (ucast (br_WorkerId r))"

fun tiles :: "nat \<Rightarrow> BucketRange list \<Rightarrow> nat \<Rightarrow> bool" where
  "tiles s [] e \<longleftrightarrow> s = e"
| "tiles s (r # rs) e \<longleftrightarrow> LowerBucketIdx r = int s \<and> int s \<le> UpperBucketIdx r
     \<and> tiles (Suc (nat (UpperBucketIdx r))) rs e"

lemma tiles_append: "tiles s (rs @ qs) e \<longleftrightarrow> (\<exists>m. tiles s rs m \<and> tiles m qs e)"
  by (induction rs arbitrary: s) auto

lemma tiles_le: "tiles s rs e \<Longrightarrow> s \<le> e"
  by (induction rs arbitrary: s) fastforce+

lemma length_expand_tiles: "tiles s rs e \<Longrightarrow> length (concat (map expandRange rs)) = e - s"
proof (induction rs arbitrary: s)
  case (Cons r rs)
  have "tiles (Suc (nat (UpperBucketIdx r))) rs e" using Cons.prems by simp
  with Cons.IH[OF this] tiles_le[OF this] Cons.prems show ?case
    by (simp add: expandRange_def) linarith
qed simp

text \<open>The state of the serialization loop after \<open>k\<close> buckets.\<close>

definition serialized :: "u16 list \<Rightarrow> BucketRange list \<times> u16 \<times> BucketRange \<Rightarrow> bool" where
  "serialized os = (\<lambda>(rs, lo, r).
     tiles 0 (rs @ [r]) (length os) \<and> br_WorkerId r = ucast lo
   \<and> concat (map expandRange (rs @ [r])) = os)"

lemma ucast_u16_u32 [simp]: "ucast (ucast (w :: u16) :: u32) = w"
  by (rule bit_word_eqI) (simp add: bit_simps)

lemma serializeStep_ok:
  assumes "serialized os s"
  shows "serialized (os @ [w]) (serializeStep s (length os, w))"
proof -
  obtain rs l r where s: "s = (rs, l, r)" by (cases s) auto
  obtain m where m: "tiles 0 rs m" "LowerBucketIdx r = int m" "int m \<le> UpperBucketIdx r"
    "Suc (nat (UpperBucketIdx r)) = length os" "br_WorkerId r = ucast l"
    "concat (map expandRange rs) @ expandRange r = os"
    using assms s by (auto simp: serialized_def tiles_append)
  have u: "UpperBucketIdx r = int (length os) - 1" using m(3,4) by linarith
  show ?thesis
  proof (cases "w = l")
    case True
    have "expandRange (r\<lparr>UpperBucketIdx := int (length os)\<rparr>) = expandRange r @ [w]"
    proof -
      have "nat (int (length os) - int m + 1) = Suc (nat (UpperBucketIdx r - int m + 1))"
        using u m(3) by linarith
      then show ?thesis using m True by (simp add: expandRange_def replicate_append_same)
    qed
    moreover have "tiles 0 (rs @ [r\<lparr>UpperBucketIdx := int (length os)\<rparr>]) (Suc (length os))"
      unfolding tiles_append using m(1,2,3) u by (intro exI[of _ m]) simp
    ultimately show ?thesis
      using m s True by (simp add: serialized_def serializeStep_def flip: append_assoc)
  next
    case False
    have "tiles 0 ((rs @ [r]) @ [newRange w (length os)]) (Suc (length os))"
      unfolding tiles_append using m by (auto simp: newRange_def)
    then show ?thesis
      using m s False
      by (simp add: serialized_def serializeStep_def newRange_def expandRange_def)
  qed
qed

lemma serialize_fold:
  "serialized (w # os) (foldl serializeStep ([], w, newRange w 0) (enumerate 0 (w # os)))"
proof (induction os rule: rev_induct)
  case Nil
  then show ?case by (simp add: serialized_def serializeStep_def newRange_def expandRange_def)
next
  case (snoc x os)
  have "enumerate 0 (w # os @ [x]) = enumerate 0 (w # os) @ [(length (w # os), x)]"
    by (simp add: enumerate_append_eq)
  then show ?case using serializeStep_ok[OF snoc, of x] by simp
qed

lemma serializeOwners_ok:
  assumes "os \<noteq> []"
  obtains rs where "serializeOwners os = Inr rs" "tiles 0 rs (length os)"
    "concat (map expandRange rs) = os"
proof -
  obtain w os' where os: "os = w # os'" using assms by (cases os) auto
  obtain rs l r where f: "foldl serializeStep ([], w, newRange w 0) (enumerate 0 os) = (rs, l, r)"
    by (metis prod_cases3)
  have "serialized os (rs, l, r)" using serialize_fold[of w os'] f os by simp
  then show ?thesis
    using that[of "rs @ [r]"] f os by (simp add: serializeOwners_def at_idx_def serialized_def)
qed



section \<open>Reading ranges back\<close>

lemma writes_fill: "rfold (\<lambda>bs i. set_int bs i v) bs [int j..int e - 1] = fill bs j e v"
proof (induction bs j e v rule: fill.induct)
  case (1 bs j e v)
  show ?case
  proof (cases "j < e")
    case True
    have u: "[int j..int e - 1] = int j # [int (Suc j)..int e - 1]"
      using True by (subst upto.simps) (simp add: add.commute)
    have "set_int bs (int j) v = set_idx bs j v" by (simp add: set_int_def)
    then have "rfold (\<lambda>bs i. set_int bs i v) bs [int j..int e - 1]
        = rbind (set_idx bs j v) (\<lambda>s'. rfold (\<lambda>bs i. set_int bs i v) s' [int (Suc j)..int e - 1])"
      by (simp only: u rfold.simps)
    also have "\<dots> = rbind (set_idx bs j v) (\<lambda>s'. fill s' (Suc j) e v)"
      using "1.IH"[OF True] by (intro rbind_cong) auto
    also have "\<dots> = fill bs j e v" using True by (simp add: fill.simps[of bs j])
    finally show ?thesis .
  qed (simp add: fill.simps[of bs j])
qed

lemma writeRange_ok:
  assumes "LowerBucketIdx r = int s" "int s \<le> UpperBucketIdx r" "nat (UpperBucketIdx r) < length bs"
  shows "writeRange mk bs r = Inr (take s bs @ map mk (expandRange r)
     @ drop (Suc (nat (UpperBucketIdx r))) bs)"
proof -
  let ?e = "Suc (nat (UpperBucketIdx r))"
  have "writeRange mk bs r = fill bs s ?e (mk (ucast (br_WorkerId r)))"
    using writes_fill[of "mk (ucast (br_WorkerId r))" bs s ?e] assms by (simp add: writeRange_def)
  also have "\<dots> = Inr (take s bs @ replicate (?e - s) (mk (ucast (br_WorkerId r))) @ drop ?e bs)"
    by (rule fill_ok) (use assms in linarith)+
  also have "replicate (?e - s) (mk (ucast (br_WorkerId r))) = map mk (expandRange r)"
  proof -
    have "?e - s = nat (UpperBucketIdx r - int s + 1)" using assms by linarith
    then show ?thesis using assms(1) by (simp add: expandRange_def)
  qed
  finally show ?thesis .
qed

lemma writeRanges_tiles:
  "tiles s rs e \<Longrightarrow> e \<le> length bs \<Longrightarrow>
     rfold (writeRange mk) bs rs = Inr (take s bs @ map mk (concat (map expandRange rs)) @ drop e bs)"
proof (induction rs arbitrary: s bs)
  case (Cons r rs)
  let ?m = "Suc (nat (UpperBucketIdx r))"
  have t: "tiles ?m rs e" "LowerBucketIdx r = int s" "int s \<le> UpperBucketIdx r" using Cons.prems by auto
  have me: "?m \<le> length bs" using tiles_le[OF t(1)] Cons.prems(2) by simp
  let ?bs = "take s bs @ map mk (expandRange r) @ drop ?m bs"
  have w: "writeRange mk bs r = Inr ?bs" by (rule writeRange_ok) (use t me in simp_all)
  have el: "length (expandRange r) = ?m - s"
    using t(2,3) by (simp add: expandRange_def nat_diff_distrib)
  have sm: "s \<le> ?m" using t by linarith
  then have len: "length ?bs = length bs" using me el by simp
  have "take ?m ?bs = take s bs @ map mk (expandRange r)" using me el sm by simp
  moreover have "drop e ?bs = drop e bs"
    using me el sm tiles_le[OF t(1)] by (simp add: Suc_diff_le)
  ultimately show ?case using w Cons.IH[OF t(1), of ?bs] Cons.prems(2) len by simp
qed simp

lemma appendRange_eq: "appendRange mk bs r = bs @ map mk (expandRange r)"
proof -
  have "foldl (\<lambda>bs i. bs @ [v]) bs xs = bs @ replicate (length xs) v" for v and xs :: "int list"
    by (induction xs arbitrary: bs) (simp_all add: replicate_append_same)
  then show ?thesis by (simp add: appendRange_def expandRange_def)
qed

lemma appendRanges_eq: "foldl (appendRange mk) bs rs = bs @ map mk (concat (map expandRange rs))"
  by (induction rs arbitrary: bs) (simp_all add: appendRange_eq)



section \<open>Routing\<close>

lemma pt_KeyToWorkerID_eq:
  "pt_Buckets t \<noteq> [] \<Longrightarrow>
     pt_KeyToWorkerID t key = Inr (pt_Buckets t ! (unat (pt_H t key) mod length (pt_Buckets t)))"
  by (simp add: pt_KeyToWorkerID_def bucketOfHash_def at_idx_def)

lemma pt_Reconfigure_Inr:
  "pt_Reconfigure rep t ws = Some (Inr (t', ch)) \<longleftrightarrow>
     ws \<noteq> [] \<and> (\<exists>new. rep ws (map (\<lambda>w. \<lparr>WorkerID = w, KeyMap = None\<rparr>) (pt_Buckets t)) = Some (Inr (new, ch))
       \<and> t' = t\<lparr>pt_Buckets := map WorkerID new\<rparr>)"
  by (auto simp: pt_Reconfigure_def res_elims)

context partition_policy
begin

lemma new_table_routes:
  assumes "NewPartitionTable generate ws h = Inr t" "0 < numB"
  shows "length (pt_Buckets t) = numB" "\<exists>w \<in> set ws. pt_KeyToWorkerID t key = Inr w"
proof -
  obtain bs where bs: "generate ws = Inr bs" "t = \<lparr>pt_H = h, pt_Buckets = map WorkerID bs\<rparr>"
    using assms(1) by (auto simp: NewPartitionTable_def res_elims)
  then show len: "length (pt_Buckets t) = numB" using generate_covers[OF bs(1)] by simp
  then have "pt_Buckets t \<noteq> []" using assms(2) by auto
  then show "\<exists>w \<in> set ws. pt_KeyToWorkerID t key = Inr w"
    using pt_KeyToWorkerID_eq[of t key] owner_after_generate[OF bs(1)] assms(2) bs(2) len by simp
qed

text \<open>After a reconfiguration every key is routed to one of the updated workers, and the keys whose
  route changes are those of the reported buckets.\<close>

lemma reconfigure_routes:
  assumes run: "pt_Reconfigure repartition t ws = Some (Inr (t', ch))"
    and len: "length (pt_Buckets t) = numB" and "0 < numB"
  shows "length (pt_Buckets t') = numB" "\<exists>w \<in> set ws. pt_KeyToWorkerID t' key = Inr w"
    "pt_KeyToWorkerID t key = Inr s \<Longrightarrow> pt_KeyToWorkerID t' key = Inr d \<Longrightarrow>
       unat (pt_H t key) mod numB \<in> set (moved ch s d) \<longleftrightarrow> s \<noteq> d"
proof -
  let ?old = "map (\<lambda>w. \<lparr>WorkerID = w, KeyMap = None\<rparr>) (pt_Buckets t)"
  let ?i = "unat (pt_H t key) mod numB"
  obtain new where new: "repartition ws ?old = Some (Inr (new, ch))"
    "t' = t\<lparr>pt_Buckets := map WorkerID new\<rparr>" using run by (auto simp: pt_Reconfigure_Inr)
  have old: "length ?old = numB" using len by simp
  show len': "length (pt_Buckets t') = numB" using repartition_covers[OF new(1) old] new(2) by simp
  have i: "?i < numB" using assms(3) by simp
  have ne: "pt_Buckets t \<noteq> []" "pt_Buckets t' \<noteq> []" using len len' assms(3) by auto
  have route: "pt_KeyToWorkerID t key = Inr (WorkerID (?old ! ?i))"
    "pt_KeyToWorkerID t' key = Inr (WorkerID (new ! ?i))"
    using pt_KeyToWorkerID_eq[OF ne(1)] pt_KeyToWorkerID_eq[OF ne(2)] len len' new(2) i by simp_all
  then show "\<exists>w \<in> set ws. pt_KeyToWorkerID t' key = Inr w"
    using owner_after_repartition[OF new(1) old i] by simp
  show "?i \<in> set (moved ch s d) \<longleftrightarrow> s \<noteq> d"
    if "pt_KeyToWorkerID t key = Inr s" "pt_KeyToWorkerID t' key = Inr d"
    using that route moved_iff[OF new(1) old, of ?i s d] i by simp
qed

end

lemma kl_owner_rfold:
  "rfold (\<lambda>os p. rbind (deref p) (\<lambda>b. Inr (os @ [b_WorkerID b]))) acc
     (map (\<lambda>w. Some \<lparr>b_WorkerID = w\<rparr>) os) = Inr (acc @ os)"
  by (induction os arbitrary: acc) simp_all

text \<open>C19. Sending a lookup table to a worker: for any nonempty assignment of buckets the ranges that
  the coordinator serializes are read back to the same table, for the partition table and for the key
  lookup table.\<close>

theorem lookup_table_roundtrip:
  assumes "os \<noteq> []"
  shows "\<exists>rs. pt_Serialize \<lparr>pt_H = h, pt_Buckets = os\<rparr> = Inr rs
    \<and> kl_Serialize \<lparr>kl_H = h, kl_Buckets = map (\<lambda>w. Some \<lparr>b_WorkerID = w\<rparr>) os\<rparr> = Inr rs
    \<and> DeserializePartitionTable rs (int (length os)) h = Inr \<lparr>pt_H = h, pt_Buckets = os\<rparr>
    \<and> DeserializeKeyLookupTable rs (int (length os)) h
        = Inr \<lparr>kl_H = h, kl_Buckets = map (\<lambda>w. Some \<lparr>b_WorkerID = w\<rparr>) os\<rparr>"
proof -
  obtain rs where rs: "serializeOwners os = Inr rs" "tiles 0 rs (length os)"
    "concat (map expandRange rs) = os"
    using serializeOwners_ok[OF assms] by blast
  have "rfold (writeRange (\<lambda>w. w)) (replicate (length os) 0) rs = Inr os"
    using writeRanges_tiles[OF rs(2), of "replicate (length os) 0" "\<lambda>w. w"] rs(3) by simp
  then show ?thesis
    using rs by (intro exI[of _ rs]) (simp add: pt_Serialize_def kl_Serialize_def
        DeserializePartitionTable_def DeserializeKeyLookupTable_def kl_owner_rfold appendRanges_eq Let_def)
qed

theorem lookup_table_roundtrip_witness:
  "\<exists>rs. pt_Serialize \<lparr>pt_H = (\<lambda>_. 0), pt_Buckets = [1, 1, 2, 1]\<rparr> = Inr rs
    \<and> DeserializePartitionTable rs 4 (\<lambda>_. 0) = Inr \<lparr>pt_H = (\<lambda>_. 0), pt_Buckets = [1, 1, 2, 1]\<rparr>"
  using lookup_table_roundtrip[of "[1, 1, 2, 1]" "\<lambda>_. 0"] by auto

text \<open>Changing the owner of a bucket is seen by lookups of that bucket and of no other.\<close>

lemma kl_ChangeBucketOwner_lookup:
  assumes "kl_ChangeBucketOwner t i w = Inr t'"
  shows "kl_BucketIdxToWorkerID t' j = (if j = i then Inr w else kl_BucketIdxToWorkerID t j)"
  using assms
  by (cases "j < 0") (auto simp: kl_ChangeBucketOwner_def kl_BucketIdxToWorkerID_def res_elims
      at_idx_def nth_list_update eq_nat_nat_iff split: if_splits)

end
