(* ===== verification/Key_Maps.thy ===== *)
theory Key_Maps
  imports Lookup_Tables
begin

text \<open>
  The lookup table with one key map per bucket, which the lazy by-key protocol uses to find the
  worker that holds the state of a key (\<^verbatim>\<open>internal/keyby/keyLookupTableV2.go\<close>): construction,
  lookup and update of keys, and the transfer of key maps to the new owners of buckets during a
  reconfiguration, with its wire format. Go maps are visited in an order the run-time chooses;
  \<open>ordA\<close> and \<open>ordB\<close> are the orders of the two loops of \<open>AddBucket\<close>. \<open>rawU16\<close> stands for the
  fixed-width encoding of the work unit type by the mus-go library.
\<close>

section \<open>The table\<close>

record KeyLookupTableV2 =
  k2_H :: hashFunc
  k2_Buckets :: "BucketV2 list"

type_synonym keyMap = "(skey, u16) gomap"

definition NewKeyLookupTableV2 ::
    "(u16 list \<Rightarrow> BucketV2 list res) \<Rightarrow> u16 list \<Rightarrow> hashFunc \<Rightarrow> KeyLookupTableV2 res" where
  "NewKeyLookupTableV2 generateBucketsV2 workers h =
     rbind (generateBucketsV2 workers) (\<lambda>buckets. Inr \<lparr>k2_H = h, k2_Buckets = buckets\<rparr>)"

definition DeserializeKeyLookupTableV2 ::
    "BucketRange list \<Rightarrow> int \<Rightarrow> hashFunc \<Rightarrow> u16 \<Rightarrow> KeyLookupTableV2 res" where
  "DeserializeKeyLookupTableV2 bucketRanges numBuckets h localWorkerId =
     rbind (rfold (writeRange (\<lambda>w. \<lparr>WorkerID = w, KeyMap = (if w = localWorkerId then Some [] else None)\<rparr>))
              (replicate (nat numBuckets) zeroBucketV2) bucketRanges) (\<lambda>buckets.
     rbind (fatal_if (int (length buckets) \<noteq> numBuckets)
              ''Deserialized bucket length is not equal to NumBuckets'') (\<lambda>_.
     Inr \<lparr>k2_H = h, k2_Buckets = buckets\<rparr>))"

text \<open>The bucket and its key map, with the fatal error that all operations share.\<close>

definition bucketMap :: "KeyLookupTableV2 \<Rightarrow> int \<Rightarrow> string \<Rightarrow> (BucketV2 \<times> keyMap) res" where
  "bucketMap table bucketId msg =
     rbind (at_int (k2_Buckets table) bucketId) (\<lambda>bucket.
     case KeyMap bucket of None \<Rightarrow> Inl (Fatal msg) | Some m \<Rightarrow> Inr (bucket, m))"

definition setKeyMap :: "KeyLookupTableV2 \<Rightarrow> int \<Rightarrow> BucketV2 \<Rightarrow> keyMap \<Rightarrow> KeyLookupTableV2" where
  "setKeyMap table bucketId bucket m =
     table\<lparr>k2_Buckets := (k2_Buckets table)[nat bucketId := bucket\<lparr>KeyMap := Some m\<rparr>]\<rparr>"

definition GetWorkerID :: "KeyLookupTableV2 \<Rightarrow> skey \<Rightarrow> int \<Rightarrow> u16 res" where
  "GetWorkerID table key bucketId =
     rbind (bucketMap table bucketId ''Key map nil for requesting key'') (\<lambda>(bucket, m).
     Inr (case map_of m key of None \<Rightarrow> WorkerID bucket | Some w \<Rightarrow> w))"

definition UpdateKey :: "KeyLookupTableV2 \<Rightarrow> skey \<Rightarrow> int \<Rightarrow> u16 \<Rightarrow> KeyLookupTableV2 res" where
  "UpdateKey table key bucketId updatedWorkerId =
     rbind (bucketMap table bucketId ''Key map nil for updating key'') (\<lambda>(bucket, m).
     rbind (fatal_if (map_of m key = None) ''Key not found in key map for updating key'') (\<lambda>_.
     Inr (setKeyMap table bucketId bucket (AList.update key updatedWorkerId m))))"

definition InsertOrUpdateKey :: "KeyLookupTableV2 \<Rightarrow> skey \<Rightarrow> int \<Rightarrow> u16 \<Rightarrow> KeyLookupTableV2 res" where
  "InsertOrUpdateKey table key bucketId workerId =
     rbind (bucketMap table bucketId ''Key map nil for inserting/updating key'') (\<lambda>(bucket, m).
     Inr (setKeyMap table bucketId bucket (AList.update key workerId m)))"

definition RemoveKey :: "KeyLookupTableV2 \<Rightarrow> skey \<Rightarrow> int \<Rightarrow> KeyLookupTableV2 res" where
  "RemoveKey table key bucketId =
     rbind (bucketMap table bucketId ''Key map nil for removing key'') (\<lambda>(bucket, m).
     rbind (fatal_if (map_of m key = None) ''Key not found in key map for removing key'') (\<lambda>_.
     Inr (setKeyMap table bucketId bucket (AList.delete key m))))"


section \<open>Writing migrating key maps\<close>

text \<open>A message under construction: the bytes written so far, \<open>data[:offset]\<close>. Reserved fields
  are the zero bytes of the fresh buffer; a write past the end of the buffer panics.\<close>

record SerializedKeyMap =
  skm_data :: "byte list"
  skm_numBuckets :: nat

definition skmPut :: "nat \<Rightarrow> SerializedKeyMap \<Rightarrow> byte list \<Rightarrow> SerializedKeyMap res" where
  "skmPut maxSize skm bs =
     (if length (skm_data skm) + length bs \<le> maxSize then Inr (skm\<lparr>skm_data := skm_data skm @ bs\<rparr>)
      else Inl (Panic ''slice bounds out of range''))"

definition patchAt :: "byte list \<Rightarrow> nat \<Rightarrow> byte list \<Rightarrow> byte list" where
  "patchAt data i bs = take i data @ bs @ drop (i + length bs) data"

definition MigratingKeyMapWorkUnit :: u16 where
  "MigratingKeyMapWorkUnit = 8"

definition NewSerializedKeyMap :: "(u16 \<Rightarrow> byte list) \<Rightarrow> nat \<Rightarrow> SerializedKeyMap res" where
  "NewSerializedKeyMap rawU16 maxSize =
     rbind (skmPut maxSize \<lparr>skm_data = [], skm_numBuckets = 0\<rparr> (rawU16 MigratingKeyMapWorkUnit)) (\<lambda>skm.
     Inr (skm\<lparr>skm_data := skm_data skm @ replicate 8 0\<rparr>))"

text \<open>One key value pair: length of the key without its first six bytes, the rest of the key,
  and the owner.\<close>

definition addPair :: "nat \<Rightarrow> SerializedKeyMap \<times> nat \<Rightarrow> skey \<times> u16 \<Rightarrow> (SerializedKeyMap \<times> nat) res" where
  "addPair maxSize = (\<lambda>(skm, total) (key, val).
     if length key < 6 then Inl (Panic ''slice bounds out of range'')
     else rbind (skmPut maxSize skm (bePut 2 (length key - 6))) (\<lambda>skm.
          rbind (skmPut maxSize skm (drop 6 key)) (\<lambda>skm.
          rbind (skmPut maxSize skm (bePut 2 (unat val))) (\<lambda>skm.
          Inr (skm, total + (length key - 6))))))"

definition AddBucket ::
    "(keyMap \<Rightarrow> keyMap) \<Rightarrow> (keyMap \<Rightarrow> keyMap) \<Rightarrow> nat \<Rightarrow> SerializedKeyMap \<Rightarrow> nat \<Rightarrow> keyMap \<Rightarrow>
       SerializedKeyMap res" where
  "AddBucket ordA ordB maxSize skm bucketId m =
     (let numKeys = length m;
          bucketLengthOffset = length (skm_data skm);
          skm = skm\<lparr>skm_data := skm_data skm @ replicate 4 0\<rparr>;
          total0 = 2 + 4 + 4 + numKeys * (2 + 2)
      in rbind (if numKeys = 0 then Inr [0, 0]
                else gslice (fst (hd (ordA m))) 0 2) (\<lambda>opBytes.
         rbind (skmPut maxSize skm opBytes) (\<lambda>skm.
         rbind (skmPut maxSize skm (bePut 4 bucketId)) (\<lambda>skm.
         rbind (skmPut maxSize skm (bePut 4 numKeys)) (\<lambda>skm.
         rbind (rfold (addPair maxSize) (skm, total0) (ordB m)) (\<lambda>(skm, total).
         let skm = skm\<lparr>skm_data := patchAt (skm_data skm) bucketLengthOffset (bePut 4 total),
                       skm_numBuckets := skm_numBuckets skm + 1\<rparr>
         in rbind (fatal_if (maxSize < length (skm_data skm))
                     ''Serialized key map size exceeds the max allowed size'') (\<lambda>_.
            Inr skm)))))))"

definition skmDone :: "SerializedKeyMap \<Rightarrow> byte list" where
  "skmDone skm =
     patchAt (patchAt (skm_data skm) 2 (bePut 4 (length (skm_data skm) - 6)))
       6 (bePut 4 (skm_numBuckets skm))"

type_synonym keyMapFactory = "(u16, SerializedKeyMap) gomap"

definition SerializeBucket ::
    "(u16 \<Rightarrow> byte list) \<Rightarrow> (keyMap \<Rightarrow> keyMap) \<Rightarrow> (keyMap \<Rightarrow> keyMap) \<Rightarrow> nat \<Rightarrow> keyMapFactory \<Rightarrow> nat \<Rightarrow>
       u16 \<Rightarrow> keyMap option \<Rightarrow> keyMapFactory res" where
  "SerializeBucket rawU16 ordA ordB maxSize factory bucketId destWorkerId m =
     (case m of
        None \<Rightarrow> Inl (Fatal ''Bucket key map should not be nil'')
      | Some km \<Rightarrow>
          rbind (case map_of factory destWorkerId of
                   None \<Rightarrow> NewSerializedKeyMap rawU16 maxSize
                 | Some skm \<Rightarrow> Inr skm) (\<lambda>skm.
          rbind (AddBucket ordA ordB maxSize skm bucketId km) (\<lambda>skm.
          Inr (AList.update destWorkerId skm factory))))"

text \<open>The loop over the local buckets: state is the table and the messages so far.\<close>

definition migrateStep ::
    "(u16 \<Rightarrow> byte list) \<Rightarrow> (keyMap \<Rightarrow> keyMap) \<Rightarrow> (keyMap \<Rightarrow> keyMap) \<Rightarrow> nat \<Rightarrow> u16 \<Rightarrow> u16 list \<Rightarrow>
       BucketV2 list \<times> keyMapFactory \<Rightarrow> nat \<Rightarrow> (BucketV2 list \<times> keyMapFactory) res" where
  "migrateStep rawU16 ordA ordB maxSize localWorkerId routing = (\<lambda>(buckets, factory) bucketId.
     rbind (at_idx buckets bucketId) (\<lambda>bucket.
     if WorkerID bucket = localWorkerId
     then rbind (at_idx routing bucketId) (\<lambda>newOwner.
          if newOwner \<noteq> localWorkerId
          then rbind (SerializeBucket rawU16 ordA ordB maxSize factory bucketId newOwner (KeyMap bucket)) (\<lambda>factory.
               Inr (buckets[bucketId := \<lparr>WorkerID = newOwner, KeyMap = None\<rparr>], factory))
          else Inr (buckets, factory))
     else Inr (buckets, factory)))"

definition SerializeMigratingKeyMaps ::
    "(u16 \<Rightarrow> byte list) \<Rightarrow> (keyMap \<Rightarrow> keyMap) \<Rightarrow> (keyMap \<Rightarrow> keyMap) \<Rightarrow> nat \<Rightarrow> KeyLookupTableV2 \<Rightarrow> u16 \<Rightarrow>
       PartitionTable \<Rightarrow> (KeyLookupTableV2 \<times> (u16, byte list) gomap) res" where
  "SerializeMigratingKeyMaps rawU16 ordA ordB maxSize table localWorkerId routingTable =
     rbind (rfold (migrateStep rawU16 ordA ordB maxSize localWorkerId (pt_Buckets routingTable))
              (k2_Buckets table, []) [0..<length (k2_Buckets table)]) (\<lambda>(buckets, factory).
     Inr (table\<lparr>k2_Buckets := buckets\<rparr>, map (\<lambda>(w, skm). (w, skmDone skm)) factory))"


section \<open>Reading migrating key maps\<close>

text \<open>One key value pair of a bucket, read at \<open>dataOffset\<close>.\<close>

definition readPair :: "byte list \<Rightarrow> nat \<times> keyMap \<Rightarrow> nat \<Rightarrow> (nat \<times> keyMap) res" where
  "readPair data = (\<lambda>(dataOffset, m) _.
     rbind (gslice data dataOffset (dataOffset + 2)) (\<lambda>lenBytes.
     let keyLen = beNat lenBytes; dataOffset = dataOffset + 2
     in rbind (gslice data 0 6) (\<lambda>prefix.
        rbind (gslice data dataOffset (dataOffset + keyLen)) (\<lambda>rest.
        let dataOffset = dataOffset + keyLen
        in rbind (gslice data dataOffset (dataOffset + 2)) (\<lambda>ownerBytes.
           Inr (dataOffset + 2,
                AList.update (prefix @ rest) (of_nat (beNat ownerBytes)) m))))))"

text \<open>The work of the goroutine of one bucket.\<close>

definition readBucket :: "u16 \<Rightarrow> BucketV2 list \<Rightarrow> byte list \<Rightarrow> BucketV2 list res" where
  "readBucket localWorkerId buckets data =
     rbind (gslice data 2 6) (\<lambda>idBytes.
     rbind (gslice data 6 10) (\<lambda>numBytes.
     rbind (at_idx buckets (beNat idBytes)) (\<lambda>bucket.
     rbind (fatal_if (case KeyMap bucket of None \<Rightarrow> False | Some m \<Rightarrow> m \<noteq> [])
              ''Bucket already has a non-empty key map when receiving migrating keys'') (\<lambda>_.
     rbind (rfold (readPair data) (10, []) [0..<beNat numBytes]) (\<lambda>(_, m).
     Inr (buckets[beNat idBytes := \<lparr>WorkerID = localWorkerId, KeyMap = Some m\<rparr>]))))))"

definition readBucketAt ::
    "byte list \<Rightarrow> u16 \<Rightarrow> nat \<times> BucketV2 list \<Rightarrow> nat \<Rightarrow> (nat \<times> BucketV2 list) res" where
  "readBucketAt bytes localWorkerId = (\<lambda>(offset, buckets) _.
     rbind (gslice bytes offset (offset + 4)) (\<lambda>lenBytes.
     let bucketLen = beNat lenBytes; offset = offset + 4
     in rbind (gslice bytes offset (offset + bucketLen)) (\<lambda>bucketBytes.
        rbind (readBucket localWorkerId buckets bucketBytes) (\<lambda>buckets.
        Inr (offset + bucketLen, buckets)))))"

definition DeserializeMigratingKeyMaps ::
    "KeyLookupTableV2 \<Rightarrow> byte list \<Rightarrow> u16 \<Rightarrow> KeyLookupTableV2 res" where
  "DeserializeMigratingKeyMaps table bytes localWorkerId =
     rbind (gslice bytes 0 4) (\<lambda>numBytes.
     rbind (rfold (readBucketAt bytes localWorkerId) (4, k2_Buckets table) [0..<beNat numBytes])
       (\<lambda>(_, buckets). Inr (table\<lparr>k2_Buckets := buckets\<rparr>)))"


section \<open>Key operations\<close>

text \<open>The contract of the per-key map of a bucket: lookups see the last write of the key, other keys
  and other buckets are unaffected, a removed key falls back to the bucket owner.\<close>

definition tracked :: "KeyLookupTableV2 \<Rightarrow> int \<Rightarrow> bool" where
  "tracked table b \<longleftrightarrow> 0 \<le> b \<and> nat b < length (k2_Buckets table)
     \<and> KeyMap (k2_Buckets table ! nat b) \<noteq> None"

lemma bucketMap_Inr:
  "bucketMap t b msg = Inr (bk, m) \<longleftrightarrow> 0 \<le> b \<and> nat b < length (k2_Buckets t)
     \<and> bk = k2_Buckets t ! nat b \<and> KeyMap bk = Some m"
  by (auto simp: bucketMap_def res_elims split: option.splits)

lemma bucketMap_tracked: "tracked t b \<Longrightarrow> \<exists>m. bucketMap t b msg = Inr (k2_Buckets t ! nat b, m)"
  by (auto simp: tracked_def bucketMap_Inr)

lemma bucketMap_setKeyMap:
  assumes "bucketMap t b msg0 = Inr (bk, m)"
  shows "bucketMap (setKeyMap t b bk m') b' msg
    = (if b' = b then Inr (bk\<lparr>KeyMap := Some m'\<rparr>, m') else bucketMap t b' msg)"
  using assms unfolding bucketMap_Inr
  by (cases "b' < 0") (auto simp: bucketMap_def setKeyMap_def at_int_def at_idx_def nth_list_update
      eq_nat_nat_iff)

lemma GetWorkerID_Insert:
  assumes "InsertOrUpdateKey t k b w = Inr t'"
  shows "GetWorkerID t' k' b' = (if b' = b \<and> k' = k then Inr w else GetWorkerID t k' b')"
proof -
  obtain bk m where m: "bucketMap t b ''Key map nil for inserting/updating key'' = Inr (bk, m)"
    "t' = setKeyMap t b bk (AList.update k w m)"
    using assms by (auto simp: InsertOrUpdateKey_def res_elims)
  have "bucketMap t b ''Key map nil for requesting key'' = Inr (bk, m)"
    using m(1) by (auto simp: bucketMap_Inr)
  then show ?thesis
    by (simp add: GetWorkerID_def m(2) bucketMap_setKeyMap[OF m(1)] split: option.splits)
qed

lemma UpdateKey_Insert:
  assumes "UpdateKey t k b w = Inr t'" shows "InsertOrUpdateKey t k b w = Inr t'"
proof -
  obtain bk m where m: "bucketMap t b ''Key map nil for updating key'' = Inr (bk, m)"
    "t' = setKeyMap t b bk (AList.update k w m)"
    using assms by (auto simp: UpdateKey_def res_elims)
  have "bucketMap t b ''Key map nil for inserting/updating key'' = Inr (bk, m)"
    using m(1) by (auto simp: bucketMap_Inr)
  then show ?thesis by (simp add: InsertOrUpdateKey_def m(2))
qed

lemma GetWorkerID_Remove:
  assumes "RemoveKey t k b = Inr t'"
  shows "GetWorkerID t' k' b'
    = (if b' = b \<and> k' = k then Inr (WorkerID (k2_Buckets t ! nat b)) else GetWorkerID t k' b')"
proof -
  obtain bk m where m: "bucketMap t b ''Key map nil for removing key'' = Inr (bk, m)"
    "t' = setKeyMap t b bk (AList.delete k m)"
    using assms by (auto simp: RemoveKey_def res_elims)
  have bk: "k2_Buckets t ! nat b = bk" using m(1) by (simp add: bucketMap_Inr)
  have "bucketMap t b ''Key map nil for requesting key'' = Inr (bk, m)"
    using m(1) by (auto simp: bucketMap_Inr)
  then show ?thesis
    by (simp add: GetWorkerID_def m(2) bucketMap_setKeyMap[OF m(1)] bk split: option.splits)
qed

lemma tracked_setKeyMap:
  assumes "bucketMap t b msg = Inr (bk, m)"
  shows "tracked (setKeyMap t b bk m') b' = tracked t b'"
  using assms unfolding bucketMap_Inr
  by (cases "b' < 0") (auto simp: tracked_def setKeyMap_def nth_list_update eq_nat_nat_iff)

lemma tracked_Insert: "InsertOrUpdateKey t k b w = Inr t' \<Longrightarrow> tracked t' b' = tracked t b'"
  by (auto simp: InsertOrUpdateKey_def rbind_eq_Inr tracked_setKeyMap)

lemma tracked_Remove: "RemoveKey t k b = Inr t' \<Longrightarrow> tracked t' b' = tracked t b'"
  by (auto simp: RemoveKey_def rbind_eq_Inr fatal_if_eq_Inr tracked_setKeyMap)


section \<open>The wire format\<close>

definition encPair :: "skey \<times> u16 \<Rightarrow> byte list" where
  "encPair = (\<lambda>(k, w). bePut 2 (length k - 6) @ drop 6 k @ bePut 2 (unat w))"

definition bucketPayload :: "byte list \<Rightarrow> nat \<Rightarrow> keyMap \<Rightarrow> byte list" where
  "bucketPayload opBytes b ps = opBytes @ bePut 4 b @ bePut 4 (length ps) @ concat (map encPair ps)"

definition frame :: "byte list \<Rightarrow> byte list" where
  "frame p = bePut 4 (length p) @ p"

definition opBytesOf :: "(keyMap \<Rightarrow> keyMap) \<Rightarrow> keyMap \<Rightarrow> byte list" where
  "opBytesOf ord m = (if m = [] then [0, 0] else take 2 (fst (hd (ord m))))"

lemma skmPut_Inr:
  "skmPut mx skm bs = Inr skm' \<longleftrightarrow>
     length (skm_data skm) + length bs \<le> mx \<and> skm' = skm\<lparr>skm_data := skm_data skm @ bs\<rparr>"
  by (auto simp: skmPut_def)

lemma length_encPair: "6 \<le> length (fst kv) \<Longrightarrow> length (encPair kv) = 4 + (length (fst kv) - 6)"
  by (simp add: encPair_def case_prod_unfold)

lemma addPairs_Inr:
  "rfold (addPair mx) (skm, total0) ps = Inr (skm', total1) \<Longrightarrow>
     skm' = skm\<lparr>skm_data := skm_data skm @ concat (map encPair ps)\<rparr>
   \<and> total1 + 4 * length ps = total0 + length (concat (map encPair ps))
   \<and> (ps \<noteq> [] \<longrightarrow> length (skm_data skm') \<le> mx) \<and> (\<forall>kv \<in> set ps. 6 \<le> length (fst kv))"
proof (induction ps arbitrary: skm total0)
  case (Cons kv ps)
  obtain k w where kv: "kv = (k, w)" by fastforce
  obtain skm1 t1 where 1: "addPair mx (skm, total0) (k, w) = Inr (skm1, t1)"
    "rfold (addPair mx) (skm1, t1) ps = Inr (skm', total1)"
    using Cons.prems kv by (auto simp: res_elims)
  have a: "6 \<le> length k" "skm1 = skm\<lparr>skm_data := skm_data skm @ encPair kv\<rparr>"
    "t1 = total0 + (length k - 6)" "length (skm_data skm1) \<le> mx"
    using 1(1) kv by (auto simp: addPair_def res_elims skmPut_Inr encPair_def split: if_splits)
  show ?case using Cons.IH[OF 1(2)] a length_encPair[of kv] kv by auto
qed simp


lemma patchAt_append:
  "length a = i \<Longrightarrow> length b = length x \<Longrightarrow> patchAt (a @ b @ c) i x = a @ x @ c"
  by (simp add: patchAt_def)

lemma AddBucket_Inr:
  assumes run: "AddBucket ordA ordB mx skm b m = Inr skm'" and ord: "range_order ordB"
  shows "skm' = \<lparr>skm_data = skm_data skm @ frame (bucketPayload (opBytesOf ordA m) b (ordB m)),
      skm_numBuckets = skm_numBuckets skm + 1\<rparr>
    \<and> length (skm_data skm') \<le> mx \<and> (\<forall>kv \<in> set m. 6 \<le> length (fst kv))
    \<and> length (opBytesOf ordA m) = 2"
proof -
  define d0 where "d0 = skm_data skm @ replicate 4 (0 :: byte)"
  obtain opb skm1 total where
    op: "(if length m = 0 then Inr [0, 0] else gslice (fst (hd (ordA m))) 0 2) = Inr opb"
    and pairs: "rfold (addPair mx) (skm\<lparr>skm_data := d0 @ opb @ bePut 4 b @ bePut 4 (length m)\<rparr>,
        10 + length m * 4) (ordB m) = Inr (skm1, total)"
    and skm': "skm' = skm1\<lparr>skm_data := patchAt (skm_data skm1) (length (skm_data skm)) (bePut 4 total),
        skm_numBuckets := skm_numBuckets skm1 + 1\<rparr>"
    and mx: "length (skm_data skm') \<le> mx"
    using run by (auto simp: AddBucket_def Let_def res_elims skmPut_Inr d0_def not_less)
  have opb: "opb = opBytesOf ordA m" "length opb = 2"
    using op by (auto simp: opBytesOf_def gslice_def split: if_splits)
  note p = addPairs_Inr[OF pairs]
  let ?pl = "bucketPayload opb b (ordB m)"
  have len: "length (ordB m) = length m" by (rule range_orderD(3)[OF ord])
  have "skm_data skm1 = skm_data skm @ replicate 4 0 @ ?pl"
    using p len by (simp add: d0_def bucketPayload_def)
  moreover have "total = length ?pl" using p len opb(2) by (simp add: bucketPayload_def)
  ultimately have "skm_data skm' = skm_data skm @ bePut 4 (length ?pl) @ ?pl"
    using skm' patchAt_append[of "skm_data skm" _ "replicate 4 0" "bePut 4 (length ?pl)"] by simp
  moreover have "skm_numBuckets skm' = skm_numBuckets skm + 1" using skm' p by simp
  ultimately show ?thesis
    using mx p opb range_orderD(2)[OF ord, of m] by (simp add: frame_def)
qed

lemma skmDone_eq:
  assumes "length hdr = 2"
  shows "skmDone \<lparr>skm_data = hdr @ replicate 8 0 @ body, skm_numBuckets = n\<rparr>
    = hdr @ bePut 4 (4 + length body) @ bePut 4 n @ body"
proof -
  have "replicate 8 0 = replicate 4 (0 :: byte) @ replicate 4 0" by (simp flip: replicate_add)
  then have "skmDone \<lparr>skm_data = hdr @ replicate 8 0 @ body, skm_numBuckets = n\<rparr>
      = patchAt (patchAt (hdr @ replicate 4 0 @ replicate 4 0 @ body) 2 (bePut 4 (4 + length body)))
          6 (bePut 4 n)"
    using assms by (simp add: skmDone_def)
  also have "\<dots> = patchAt ((hdr @ bePut 4 (4 + length body)) @ replicate 4 0 @ body) 6 (bePut 4 n)"
    using assms by (subst patchAt_append) simp_all
  also have "\<dots> = (hdr @ bePut 4 (4 + length body)) @ bePut 4 n @ body"
    using assms by (intro patchAt_append) simp_all
  finally show ?thesis by simp
qed


section \<open>Reading what was written\<close>

lemma AList_update_fresh: "k \<notin> fst ` set m \<Longrightarrow> AList.update k v m = m @ [(k, v)]"
  by (induction m) auto

text \<open>The keys of a bucket start with the operator id and the bucket id, as the state client
  builds them, and are short enough for the two-byte length.\<close>

definition keys_ok :: "byte list \<Rightarrow> nat \<Rightarrow> keyMap \<Rightarrow> bool" where
  "keys_ok opb b m \<longleftrightarrow> distinct (map fst m) \<and> length m < 2 ^ 32 \<and>
     (\<forall>k \<in> fst ` set m. take 6 k = opb @ bePut 4 b \<and> 6 \<le> length k \<and> length k - 6 < 2 ^ 16)"

lemma readPair_enc:
  assumes "data = pre @ encPair (k, w) @ post" "take 6 data = pref" "6 \<le> length data"
    "take 6 k = pref" "6 \<le> length k" "length k - 6 < 2 ^ 16"
  shows "readPair data (length pre, m) i
    = Inr (length pre + length (encPair (k, w)), AList.update k w m)"
proof -
  let ?n = "length k - 6"
  have d: "data = pre @ bePut 2 ?n @ drop 6 k @ bePut 2 (unat w) @ post"
    using assms(1) by (simp add: encPair_def)
  have 1: "gslice data (length pre) (length pre + 2) = Inr (bePut 2 ?n)"
    using d by (intro gslice_at[of _ pre _ "drop 6 k @ bePut 2 (unat w) @ post"]) simp_all
  have 2: "gslice data (length pre + 2) (length pre + 2 + ?n) = Inr (drop 6 k)"
    using d by (intro gslice_at[of _ "pre @ bePut 2 ?n" _ "bePut 2 (unat w) @ post"]) simp_all
  have 3: "gslice data (length pre + 2 + ?n) (length pre + 2 + ?n + 2) = Inr (bePut 2 (unat w))"
    using d by (intro gslice_at[of _ "pre @ bePut 2 ?n @ drop 6 k" _ post]) simp_all
  have 4: "gslice data 0 6 = Inr pref" using assms(2,3) by (simp add: gslice_def)
  have n: "beNat (bePut 2 ?n) = ?n" using assms(6) by simp
  have "unat w < 2 ^ 16" using unsigned_less[of w] by simp
  then have w: "of_nat (beNat (bePut 2 (unat w))) = w" by simp
  have k: "pref @ drop 6 k = k" using assms(4) append_take_drop_id by metis
  show ?thesis
    unfolding readPair_def Let_def prod.case 1 rbind_simps n 4 2 3 w k
    using assms(5) by (simp add: encPair_def)
qed

lemma readPairs_enc:
  assumes "data = pre @ concat (map encPair ps) @ post" "take 6 data = pref" "6 \<le> length data"
    and "\<forall>k \<in> fst ` set ps. take 6 k = pref \<and> 6 \<le> length k \<and> length k - 6 < 2 ^ 16"
    and "distinct (map fst (m @ ps))" "length is = length ps"
  shows "rfold (readPair data) (length pre, m) is
    = Inr (length pre + length (concat (map encPair ps)), m @ ps)"
  using assms
proof (induction ps arbitrary: pre m "is")
  case (Cons kv ps)
  obtain k w where kv: "kv = (k, w)" by fastforce
  obtain i js where "is": "is = i # js" "length js = length ps" using Cons.prems(6) by (cases "is") auto
  have step: "readPair data (length pre, m) i
      = Inr (length (pre @ encPair kv), m @ [kv])"
    using readPair_enc[of data pre k w "concat (map encPair ps) @ post" pref m i] Cons.prems kv
    by (simp add: AList_update_fresh)
  have "rfold (readPair data) (length (pre @ encPair kv), m @ [kv]) js
      = Inr (length (pre @ encPair kv) + length (concat (map encPair ps)), (m @ [kv]) @ ps)"
    by (rule Cons.IH) (use Cons.prems "is" in auto)
  then show ?case unfolding "is"(1) by (simp add: step)
qed simp

lemma readBucket_payload:
  assumes ok: "keys_ok opb b ps" and "length opb = 2" "b < length buckets" "b < 2 ^ 32"
    and empty: "KeyMap (buckets ! b) = None \<or> KeyMap (buckets ! b) = Some []"
  shows "readBucket w buckets (bucketPayload opb b ps)
    = Inr (buckets[b := \<lparr>WorkerID = w, KeyMap = Some ps\<rparr>])"
proof -
  let ?d = "bucketPayload opb b ps"
  have d: "?d = opb @ bePut 4 b @ bePut 4 (length ps) @ concat (map encPair ps)"
    by (simp add: bucketPayload_def)
  have 1: "gslice ?d 2 6 = Inr (bePut 4 b)"
    using assms(2) d by (intro gslice_at[of _ opb _ "bePut 4 (length ps) @ concat (map encPair ps)"]) simp_all
  have 2: "gslice ?d 6 10 = Inr (bePut 4 (length ps))"
    using assms(2) d by (intro gslice_at[of _ "opb @ bePut 4 b" _ "concat (map encPair ps)"]) simp_all
  have id: "beNat (bePut 4 b) = b" and n: "beNat (bePut 4 (length ps)) = length ps"
    using assms(4) ok by (simp_all add: keys_ok_def)
  have "rfold (readPair ?d) (length (opb @ bePut 4 b @ bePut 4 (length ps)), []) [0..<length ps]
      = Inr (length (opb @ bePut 4 b @ bePut 4 (length ps)) + length (concat (map encPair ps)), [] @ ps)"
    by (rule readPairs_enc[where pref = "opb @ bePut 4 b" and post = "[]"])
      (use ok assms(2) d in \<open>auto simp: keys_ok_def\<close>)
  then have 3: "rfold (readPair ?d) (10, []) [0..<length ps] = Inr (10 + length (concat (map encPair ps)), ps)"
    using assms(2) by simp
  show ?thesis
    using assms(3) empty
    by (auto simp: readBucket_def 1 2 id n 3 at_idx_ok simp del: length_concat beNat_bePut)
qed


text \<open>A sequence of framed buckets is read back one by one.\<close>

definition receive :: "u16 \<Rightarrow> (nat \<Rightarrow> keyMap) \<Rightarrow> BucketV2 list \<Rightarrow> nat list \<Rightarrow> BucketV2 list" where
  "receive w ps = foldl (\<lambda>bk b. bk[b := \<lparr>WorkerID = w, KeyMap = Some (ps b)\<rparr>])"

lemma length_receive [simp]: "length (receive w ps bk bs) = length bk"
  unfolding receive_def by (induction bs arbitrary: bk) simp_all

lemma receive_Cons [simp]:
  "receive w ps bk [] = bk"
  "receive w ps bk (b # bs) = receive w ps (bk[b := \<lparr>WorkerID = w, KeyMap = Some (ps b)\<rparr>]) bs"
  by (simp_all add: receive_def)

lemma receive_nth:
  "i < length bk \<Longrightarrow> receive w ps bk bs ! i
     = (if i \<in> set bs then \<lparr>WorkerID = w, KeyMap = Some (ps i)\<rparr> else bk ! i)"
  by (induction bs arbitrary: bk) (auto simp: nth_list_update)

lemma readBuckets_frames:
  assumes "bytes = pre @ concat (map (\<lambda>b. frame (bucketPayload (opb b) b (ps b))) bs) @ post"
    and "distinct bs" "length is = length bs"
    and "\<And>b. b \<in> set bs \<Longrightarrow> keys_ok (opb b) b (ps b) \<and> length (opb b) = 2 \<and> b < length bk \<and> b < 2 ^ 32
      \<and> length (bucketPayload (opb b) b (ps b)) < 2 ^ 32
      \<and> (KeyMap (bk ! b) = None \<or> KeyMap (bk ! b) = Some [])"
  shows "rfold (readBucketAt bytes w) (length pre, bk) is
    = Inr (length pre + length (concat (map (\<lambda>b. frame (bucketPayload (opb b) b (ps b))) bs)),
           receive w ps bk bs)"
  using assms
proof (induction bs arbitrary: pre bk "is")
  case (Cons b bs)
  let ?p = "bucketPayload (opb b) b (ps b)"
  let ?rest = "concat (map (\<lambda>b. frame (bucketPayload (opb b) b (ps b))) bs)"
  obtain i js where "is": "is = i # js" "length js = length bs" using Cons.prems(3) by (cases "is") auto
  have d: "bytes = pre @ bePut 4 (length ?p) @ ?p @ ?rest @ post"
    using Cons.prems(1) by (simp add: frame_def)
  have 1: "gslice bytes (length pre) (length pre + 4) = Inr (bePut 4 (length ?p))"
    using d by (intro gslice_at[of _ pre _ "?p @ ?rest @ post"]) simp_all
  have 2: "gslice bytes (length pre + 4) (length pre + 4 + length ?p) = Inr ?p"
    using d by (intro gslice_at[of _ "pre @ bePut 4 (length ?p)" _ "?rest @ post"]) simp_all
  have b: "keys_ok (opb b) b (ps b)" "length (opb b) = 2" "b < length bk" "b < 2 ^ 32"
    "length ?p < 2 ^ 32" "KeyMap (bk ! b) = None \<or> KeyMap (bk ! b) = Some []"
    using Cons.prems(4)[of b] by simp_all
  have n: "beNat (bePut 4 (length ?p)) = length ?p" using b(5) by simp
  let ?bk = "bk[b := \<lparr>WorkerID = w, KeyMap = Some (ps b)\<rparr>]"
  have step: "readBucketAt bytes w (length pre, bk) i = Inr (length (pre @ frame ?p), ?bk)"
    unfolding readBucketAt_def Let_def prod.case 1 rbind_simps n 2 readBucket_payload[OF b(1-4,6)]
    by (simp add: frame_def)
  have "rfold (readBucketAt bytes w) (length (pre @ frame ?p), ?bk) js
      = Inr (length (pre @ frame ?p) + length ?rest, receive w ps ?bk bs)"
  proof (rule Cons.IH)
    fix b' assume b': "b' \<in> set bs"
    then have "b' \<noteq> b" using Cons.prems(2) by auto
    then show "keys_ok (opb b') b' (ps b') \<and> length (opb b') = 2 \<and> b' < length ?bk \<and> b' < 2 ^ 32
        \<and> length (bucketPayload (opb b') b' (ps b')) < 2 ^ 32
        \<and> (KeyMap (?bk ! b') = None \<or> KeyMap (?bk ! b') = Some [])"
      using b' Cons.prems(4)[of b'] by simp
  qed (use Cons.prems(2) "is" d in \<open>simp_all add: frame_def\<close>)
  then show ?case unfolding "is"(1) by (simp add: step add.assoc)
qed simp

lemma DeserializeMigratingKeyMaps_frames:
  assumes "distinct bs" "length bs < 2 ^ 32"
    and "\<And>b. b \<in> set bs \<Longrightarrow> keys_ok (opb b) b (ps b) \<and> length (opb b) = 2 \<and> b < length (k2_Buckets t)
      \<and> b < 2 ^ 32 \<and> length (bucketPayload (opb b) b (ps b)) < 2 ^ 32
      \<and> (KeyMap (k2_Buckets t ! b) = None \<or> KeyMap (k2_Buckets t ! b) = Some [])"
  shows "DeserializeMigratingKeyMaps t
      (bePut 4 (length bs) @ concat (map (\<lambda>b. frame (bucketPayload (opb b) b (ps b))) bs)) w
    = Inr (t\<lparr>k2_Buckets := receive w ps (k2_Buckets t) bs\<rparr>)"
proof -
  let ?bytes = "bePut 4 (length bs) @ concat (map (\<lambda>b. frame (bucketPayload (opb b) b (ps b))) bs)"
  have 1: "gslice ?bytes 0 4 = Inr (bePut 4 (length bs))"
    by (intro gslice_at[of _ "[]" "bePut 4 (length bs)"]) simp_all
  have n: "beNat (bePut 4 (length bs)) = length bs" using assms(2) by simp
  have "rfold (readBucketAt ?bytes w) (length (bePut 4 (length bs)), k2_Buckets t) [0..<length bs]
    = Inr (length (bePut 4 (length bs))
        + length (concat (map (\<lambda>b. frame (bucketPayload (opb b) b (ps b))) bs)),
        receive w ps (k2_Buckets t) bs)"
    by (rule readBuckets_frames[where post = "[]"]) (use assms in auto)
  then show ?thesis
    unfolding DeserializeMigratingKeyMaps_def 1 rbind_simps n by simp
qed



section \<open>Migration of key maps\<close>

definition migrating :: "u16 \<Rightarrow> u16 list \<Rightarrow> BucketV2 list \<Rightarrow> nat \<Rightarrow> u16 \<Rightarrow> nat list" where
  "migrating s R T k d = filter (\<lambda>b. WorkerID (T ! b) = s \<and> R ! b = d \<and> d \<noteq> s) [0..<k]"

locale keymap_codec =
  fixes rawU16 :: "u16 \<Rightarrow> byte list" and ordA ordB :: "keyMap \<Rightarrow> keyMap"
  assumes raw_length: "length (rawU16 x) = 2" and ordA: "range_order ordA" and ordB: "range_order ordB"
begin

definition mapOf :: "BucketV2 list \<Rightarrow> nat \<Rightarrow> keyMap" where
  "mapOf T b = (case KeyMap (T ! b) of None \<Rightarrow> [] | Some m \<Rightarrow> m)"

definition payload :: "BucketV2 list \<Rightarrow> nat \<Rightarrow> byte list" where
  "payload T b = bucketPayload (opBytesOf ordA (mapOf T b)) b (ordB (mapOf T b))"

definition body :: "BucketV2 list \<Rightarrow> nat list \<Rightarrow> byte list" where
  "body T bs = concat (map (\<lambda>b. frame (payload T b)) bs)"

text \<open>The state after the first \<open>k\<close> buckets have been visited.\<close>

definition migrated :: "nat \<Rightarrow> u16 \<Rightarrow> u16 list \<Rightarrow> BucketV2 list \<Rightarrow> nat \<Rightarrow> BucketV2 list \<times> keyMapFactory \<Rightarrow> bool" where
  "migrated mx s R T k = (\<lambda>(bk, fac). length bk = length T
     \<and> (\<forall>b < length T. bk ! b = (if b < k \<and> WorkerID (T ! b) = s \<and> R ! b \<noteq> s
            then \<lparr>WorkerID = R ! b, KeyMap = None\<rparr> else T ! b))
     \<and> (\<forall>d. map_of fac d = (if migrating s R T k d = [] then None
          else Some \<lparr>skm_data = rawU16 MigratingKeyMapWorkUnit @ replicate 8 0 @ body T (migrating s R T k d),
                     skm_numBuckets = length (migrating s R T k d)\<rparr>))
     \<and> (\<forall>d. length (body T (migrating s R T k d)) \<le> mx)
     \<and> (\<forall>b < k. WorkerID (T ! b) = s \<and> R ! b \<noteq> s \<longrightarrow> KeyMap (T ! b) \<noteq> None
          \<and> length (opBytesOf ordA (mapOf T b)) = 2))"

lemma migrating_Suc:
  "migrating s R T (Suc k) d = migrating s R T k d
     @ (if WorkerID (T ! k) = s \<and> R ! k = d \<and> d \<noteq> s then [k] else [])"
  by (simp add: migrating_def)

lemma SerializeBucket_migrated:
  assumes inv: "migrated mx s R T k (bk, fac)" and k: "k < length T"
    and own: "WorkerID (T ! k) = s" "R ! k \<noteq> s"
    and run: "SerializeBucket rawU16 ordA ordB mx fac k (R ! k) (KeyMap (T ! k)) = Inr fac'"
  shows "migrated mx s R T (Suc k) (bk[k := \<lparr>WorkerID = R ! k, KeyMap = None\<rparr>], fac')"
proof -
  let ?d = "R ! k" and ?bs = "migrating s R T k (R ! k)"
  obtain m skm skm' where m: "KeyMap (T ! k) = Some m"
    and skm: "(case map_of fac ?d of None \<Rightarrow> NewSerializedKeyMap rawU16 mx | Some skm \<Rightarrow> Inr skm) = Inr skm"
    and add: "AddBucket ordA ordB mx skm k m = Inr skm'" and fac': "fac' = AList.update ?d skm' fac"
    using run by (auto simp: SerializeBucket_def res_elims split: option.splits)
  have mk: "mapOf T k = m" by (simp add: mapOf_def m)
  have "skm = \<lparr>skm_data = rawU16 MigratingKeyMapWorkUnit @ replicate 8 0 @ body T ?bs,
      skm_numBuckets = length ?bs\<rparr>"
    using skm inv by (auto simp: migrated_def NewSerializedKeyMap_def skmPut_Inr res_elims body_def
        split: option.splits if_splits)
  then have skm': "skm' = \<lparr>skm_data = rawU16 MigratingKeyMapWorkUnit @ replicate 8 0 @ body T (?bs @ [k]),
      skm_numBuckets = length (?bs @ [k])\<rparr>" and size: "length (skm_data skm') \<le> mx"
    and op: "length (opBytesOf ordA m) = 2"
    using AddBucket_Inr[OF add ordB] by (auto simp: body_def payload_def mk)
  have "length (body T (?bs @ [k])) \<le> mx" using size skm' by simp
  then have bodies: "length (body T (migrating s R T (Suc k) d)) \<le> mx" for d
    using inv own by (auto simp: migrating_Suc migrated_def)
  have "map_of fac' d = (if migrating s R T (Suc k) d = [] then None
      else Some \<lparr>skm_data = rawU16 MigratingKeyMapWorkUnit @ replicate 8 0 @ body T (migrating s R T (Suc k) d),
                 skm_numBuckets = length (migrating s R T (Suc k) d)\<rparr>)" for d
    using inv own fac' skm' by (auto simp: migrating_Suc migrated_def)
  moreover have "(bk[k := \<lparr>WorkerID = R ! k, KeyMap = None\<rparr>]) ! b
      = (if b < Suc k \<and> WorkerID (T ! b) = s \<and> R ! b \<noteq> s then \<lparr>WorkerID = R ! b, KeyMap = None\<rparr> else T ! b)"
    if "b < length T" for b
    using that inv own by (cases "b = k") (auto simp: migrated_def less_Suc_eq)
  ultimately show ?thesis
    using inv bodies m mk op by (auto simp: migrated_def less_Suc_eq)
qed

lemma migrate_fold:
  assumes "rfold (migrateStep rawU16 ordA ordB mx s R) (T, []) [0..<k] = Inr st" "k \<le> length T"
  shows "migrated mx s R T k st"
  using assms
proof (induction k arbitrary: st)
  case 0
  then have "st = (T, [])" by simp
  then show ?case by (simp add: migrated_def migrating_def body_def)
next
  case (Suc k)
  obtain bk fac where 1: "rfold (migrateStep rawU16 ordA ordB mx s R) (T, []) [0..<k] = Inr (bk, fac)"
    and step: "migrateStep rawU16 ordA ordB mx s R (bk, fac) k = Inr st"
    using Suc.prems(1) by (auto simp: rfold_append rbind_eq_Inr)
  have inv: "migrated mx s R T k (bk, fac)" using Suc.IH[OF 1] Suc.prems(2) by simp
  have bk: "bk ! k = T ! k" "k < length bk" using inv Suc.prems(2) by (auto simp: migrated_def)
  show ?case
  proof (cases "WorkerID (T ! k) = s \<and> R ! k \<noteq> s")
    case True
    obtain fac' where "SerializeBucket rawU16 ordA ordB mx fac k (R ! k) (KeyMap (T ! k)) = Inr fac'"
      "st = (bk[k := \<lparr>WorkerID = R ! k, KeyMap = None\<rparr>], fac')"
      using step True bk by (auto simp: migrateStep_def res_elims)
    then show ?thesis using SerializeBucket_migrated[OF inv] Suc.prems(2) True by auto
  next
    case False
    then have "st = (bk, fac)" using step bk by (auto simp: migrateStep_def res_elims split: if_splits)
    moreover have "migrating s R T (Suc k) d = migrating s R T k d" for d
      using False by (auto simp: migrating_Suc)
    ultimately show ?thesis using inv False by (auto simp: migrated_def less_Suc_eq)
  qed
qed


lemma SerializeMigratingKeyMaps_sound:
  assumes "SerializeMigratingKeyMaps rawU16 ordA ordB mx t s pt = Inr (t', msgs)"
  defines "T \<equiv> k2_Buckets t" and "R \<equiv> pt_Buckets pt"
  shows "t' = t\<lparr>k2_Buckets := k2_Buckets t'\<rparr>" "length (k2_Buckets t') = length T"
    "b < length T \<Longrightarrow> k2_Buckets t' ! b = (if WorkerID (T ! b) = s \<and> R ! b \<noteq> s
       then \<lparr>WorkerID = R ! b, KeyMap = None\<rparr> else T ! b)"
    "map_of msgs d = (if migrating s R T (length T) d = [] then None
       else Some (rawU16 MigratingKeyMapWorkUnit
         @ bePut 4 (4 + length (body T (migrating s R T (length T) d)))
         @ bePut 4 (length (migrating s R T (length T) d)) @ body T (migrating s R T (length T) d)))"
    "length (body T (migrating s R T (length T) d)) \<le> mx"
    "b < length T \<Longrightarrow> WorkerID (T ! b) = s \<Longrightarrow> R ! b \<noteq> s \<Longrightarrow>
       KeyMap (T ! b) \<noteq> None \<and> length (opBytesOf ordA (mapOf T b)) = 2"
proof -
  obtain bk fac where f: "rfold (migrateStep rawU16 ordA ordB mx s R) (T, []) [0..<length T] = Inr (bk, fac)"
    and t': "t' = t\<lparr>k2_Buckets := bk\<rparr>" and msgs: "msgs = map (\<lambda>(w, skm). (w, skmDone skm)) fac"
    using assms(1) by (auto simp: SerializeMigratingKeyMaps_def res_elims T_def R_def)
  have inv: "migrated mx s R T (length T) (bk, fac)" using migrate_fold[OF f] by simp
  show "t' = t\<lparr>k2_Buckets := k2_Buckets t'\<rparr>" "length (k2_Buckets t') = length T"
    using t' inv by (simp_all add: migrated_def)
  show "k2_Buckets t' ! b = (if WorkerID (T ! b) = s \<and> R ! b \<noteq> s
       then \<lparr>WorkerID = R ! b, KeyMap = None\<rparr> else T ! b)" if "b < length T"
    using t' inv that by (simp add: migrated_def)
  have "map_of msgs d = map_option skmDone (map_of fac d)"
    by (simp add: msgs map_of_map)
  then show "map_of msgs d = (if migrating s R T (length T) d = [] then None
       else Some (rawU16 MigratingKeyMapWorkUnit
         @ bePut 4 (4 + length (body T (migrating s R T (length T) d)))
         @ bePut 4 (length (migrating s R T (length T) d)) @ body T (migrating s R T (length T) d)))"
    using inv by (simp add: migrated_def skmDone_eq raw_length)
  show "length (body T (migrating s R T (length T) d)) \<le> mx" using inv by (simp add: migrated_def)
  show "KeyMap (T ! b) \<noteq> None \<and> length (opBytesOf ordA (mapOf T b)) = 2"
    if "b < length T" "WorkerID (T ! b) = s" "R ! b \<noteq> s"
    using inv that by (simp add: migrated_def)
qed

lemma keys_ok_ord:
  assumes ok: "keys_ok opb b m"
  shows "keys_ok (opBytesOf ordA m) b (ordB m)"
proof -
  have o': "set (ordB m) = set m" "length (ordB m) = length m" "mset (map fst (ordB m)) = mset (map fst m)"
    using range_orderD[OF ordB, of m] by simp_all
  have d: "distinct (map fst (ordB m))" using ok o'(3) unfolding keys_ok_def by (metis mset_eq_imp_distinct_iff)
  have "opBytesOf ordA m = opb" if "m \<noteq> []"
  proof -
    have "ordA m \<noteq> []" using range_orderD(3)[OF ordA, of m] that by auto
    then have "hd (ordA m) \<in> set (ordA m)" by (rule hd_in_set)
    then have "hd (ordA m) \<in> set m" unfolding range_orderD(2)[OF ordA] .
    then have k: "take 6 (fst (hd (ordA m))) = opb @ bePut 4 b" "6 \<le> length (fst (hd (ordA m)))"
      using ok by (auto simp: keys_ok_def)
    have "length (take 6 (fst (hd (ordA m)))) = 6" using k(2) by simp
    then have "length opb = 2" unfolding k(1) by simp
    moreover have "take 2 (fst (hd (ordA m))) = take 2 (take 6 (fst (hd (ordA m))))" by simp
    ultimately show ?thesis using k(1) that by (simp add: opBytesOf_def)
  qed
  note op = this
  show ?thesis
  proof (cases "m = []")
    case True
    then show ?thesis using o'(2) by (simp add: keys_ok_def)
  next
    case False
    show ?thesis using ok d unfolding keys_ok_def op[OF False] o'(1,2) by simp
  qed
qed

lemma length_payload_le: "b \<in> set bs \<Longrightarrow> length (payload T b) \<le> length (body T bs)"
  by (induction bs) (auto simp: body_def frame_def)

lemma map_of_ordB: "distinct (map fst m) \<Longrightarrow> map_of (ordB m) = map_of m"
proof -
  assume d: "distinct (map fst m)"
  have "mset (map fst (ordB m)) = mset (map fst m)" using range_orderD(1)[OF ordB, of m] by simp
  then have "distinct (map fst (ordB m))" using d by (metis mset_eq_imp_distinct_iff)
  then have "map_of (ordB m) k = Some v \<longleftrightarrow> map_of m k = Some v" for k v
    using d range_orderD(2)[OF ordB, of m] by simp
  then show ?thesis by (metis (no_types, opaque_lifting) ext not_None_eq)
qed

text \<open>What one worker sends, the other receives: the key maps of the buckets that change owner
  arrive unchanged, and exactly these buckets become owned by the receiver.\<close>

lemma migration_roundtrip:
  assumes ser: "SerializeMigratingKeyMaps rawU16 ordA ordB mx t s pt = Inr (t', msgs)"
    and msg: "map_of msgs d = Some msg" and mx: "mx < 2 ^ 32" "length (k2_Buckets t) < 2 ^ 32"
    and keys: "\<forall>b < length (k2_Buckets t). \<forall>m. KeyMap (k2_Buckets t ! b) = Some m \<longrightarrow>
      (\<exists>opb. keys_ok opb b m)"
    and recv: "length (k2_Buckets u) = length (k2_Buckets t)"
      "\<forall>b < length (k2_Buckets u). pt_Buckets pt ! b = d \<and> WorkerID (k2_Buckets t ! b) = s \<longrightarrow>
         KeyMap (k2_Buckets u ! b) = None \<or> KeyMap (k2_Buckets u ! b) = Some []"
  shows "\<exists>u' f. DeserializeMigratingKeyMaps u (drop 6 msg) d = Inr u'
    \<and> length (k2_Buckets u') = length (k2_Buckets u)
    \<and> (\<forall>b < length (k2_Buckets u). k2_Buckets u' ! b =
         (if WorkerID (k2_Buckets t ! b) = s \<and> pt_Buckets pt ! b = d
          then \<lparr>WorkerID = d, KeyMap = Some (f b)\<rparr> else k2_Buckets u ! b))
    \<and> (\<forall>b < length (k2_Buckets u). WorkerID (k2_Buckets t ! b) = s \<and> pt_Buckets pt ! b = d \<longrightarrow>
         map_of (f b) = map_of (the (KeyMap (k2_Buckets t ! b))))"
proof -
  define T R where "T = k2_Buckets t" and "R = pt_Buckets pt"
  define bs where "bs = migrating s R T (length T) d"
  note S = SerializeMigratingKeyMaps_sound[OF ser, folded T_def R_def]
  have msg': "msg = rawU16 MigratingKeyMapWorkUnit @ bePut 4 (4 + length (body T bs))
      @ bePut 4 (length bs) @ body T bs" and "bs \<noteq> []"
    using S(4)[of d] msg by (auto simp: bs_def split: if_splits)
  then have drop6: "drop 6 msg = bePut 4 (length bs) @ body T bs" by (simp add: raw_length)
  have ds: "d \<noteq> s" using \<open>bs \<noteq> []\<close> by (auto simp: bs_def migrating_def filter_empty_conv)
  have mem: "b \<in> set bs \<longleftrightarrow> b < length T \<and> WorkerID (T ! b) = s \<and> R ! b = d" for b
    using ds by (auto simp: bs_def migrating_def)
  have lbs: "length bs < 2 ^ 32" "distinct bs"
    using length_filter_le[of _ "[0..<length T]"] mx(2)
    by (auto simp: bs_def migrating_def T_def intro: le_less_trans)
  let ?f = "\<lambda>b. ordB (mapOf T b)" and ?op = "\<lambda>b. opBytesOf ordA (mapOf T b)"
  have each: "keys_ok (?op b) b (?f b) \<and> length (?op b) = 2 \<and> b < length (k2_Buckets u) \<and> b < 2 ^ 32
      \<and> length (bucketPayload (?op b) b (?f b)) < 2 ^ 32
      \<and> (KeyMap (k2_Buckets u ! b) = None \<or> KeyMap (k2_Buckets u ! b) = Some [])
      \<and> distinct (map fst (mapOf T b))" if b: "b \<in> set bs" for b
  proof -
    have b': "b < length T" "WorkerID (T ! b) = s" "R ! b = d" using b mem by auto
    obtain m where m: "KeyMap (T ! b) = Some m" "mapOf T b = m" "length (?op b) = 2"
      using S(6)[OF b'(1,2)] b'(3) ds by (auto simp: mapOf_def)
    obtain opb where ok: "keys_ok opb b m" using keys b'(1) m(1) unfolding T_def by blast
    have "length (payload T b) < 2 ^ 32"
      using length_payload_le[OF b, of T] S(5)[of d] mx(1) by (simp add: bs_def)
    moreover have "b < 2 ^ 32" using b'(1) mx(2) by (simp add: T_def)
    ultimately show ?thesis
      using keys_ok_ord[OF ok] ok m b' recv mx(2) by (auto simp: keys_ok_def payload_def T_def R_def)
  qed
  have des: "DeserializeMigratingKeyMaps u (drop 6 msg) d
      = Inr (u\<lparr>k2_Buckets := receive d ?f (k2_Buckets u) bs\<rparr>)"
    unfolding drop6 body_def payload_def
    by (rule DeserializeMigratingKeyMaps_frames) (use lbs each in auto)
  show ?thesis
  proof (intro exI conjI allI impI)
    show "DeserializeMigratingKeyMaps u (drop 6 msg) d
      = Inr (u\<lparr>k2_Buckets := receive d ?f (k2_Buckets u) bs\<rparr>)" by (rule des)
    fix b assume b: "b < length (k2_Buckets u)"
    show "k2_Buckets (u\<lparr>k2_Buckets := receive d ?f (k2_Buckets u) bs\<rparr>) ! b
      = (if WorkerID (k2_Buckets t ! b) = s \<and> pt_Buckets pt ! b = d
         then \<lparr>WorkerID = d, KeyMap = Some (?f b)\<rparr> else k2_Buckets u ! b)"
      using b mem recv(1) by (auto simp: receive_nth T_def R_def)
    assume "WorkerID (k2_Buckets t ! b) = s \<and> pt_Buckets pt ! b = d"
    then have bb: "b \<in> set bs" using mem b recv(1) by (simp add: T_def R_def)
    then have b': "b < length T" "WorkerID (T ! b) = s" "R ! b = d" unfolding mem by simp_all
    then have "KeyMap (T ! b) \<noteq> None" using S(6)[OF b'(1,2)] ds by simp
    then have "mapOf T b = the (KeyMap (T ! b))" by (auto simp: mapOf_def)
    moreover have "map_of (?f b) = map_of (mapOf T b)" 
      using each[OF bb] by (intro map_of_ordB) simp
    ultimately show "map_of (?f b) = map_of (the (KeyMap (k2_Buckets t ! b)))" by (simp add: T_def)
  qed simp
qed

end


interpretation little_endian: keymap_codec "\<lambda>x. [ucast x, ucast (drop_bit 8 x)]" "\<lambda>m. m" rev
  by unfold_locales (simp_all add: range_order_def)

text \<open>C1. Migrating key maps: when a worker serializes the key maps of the buckets that the new routing
  table takes away from it and the new owner reads the message, the new owner ends up with the same
  key addresses for exactly these buckets and owns them, while the sender drops its copies and records
  the new owners. The order in which maps are visited does not matter. Keys must carry the operator and
  bucket id in their first six bytes, as the state client builds them.\<close>

theorem key_map_migration:
  assumes "\<And>x. length (rawU16 x) = 2" "range_order ordA" "range_order ordB"
    and "SerializeMigratingKeyMaps rawU16 ordA ordB maxSize t s pt = Inr (t', msgs)"
    and "map_of msgs d = Some msg" "maxSize < 2 ^ 32" "length (k2_Buckets t) < 2 ^ 32"
    and "\<forall>b < length (k2_Buckets t). \<forall>m. KeyMap (k2_Buckets t ! b) = Some m \<longrightarrow>
      (\<exists>opb. keys_ok opb b m)"
    and "length (k2_Buckets u) = length (k2_Buckets t)"
    and "\<forall>b < length (k2_Buckets u). pt_Buckets pt ! b = d \<and> WorkerID (k2_Buckets t ! b) = s \<longrightarrow>
         KeyMap (k2_Buckets u ! b) = None \<or> KeyMap (k2_Buckets u ! b) = Some []"
  shows "\<exists>u' f. DeserializeMigratingKeyMaps u (drop 6 msg) d = Inr u'
    \<and> length (k2_Buckets u') = length (k2_Buckets u)
    \<and> (\<forall>b < length (k2_Buckets t). k2_Buckets u' ! b =
         (if WorkerID (k2_Buckets t ! b) = s \<and> pt_Buckets pt ! b = d
          then \<lparr>WorkerID = d, KeyMap = Some (f b)\<rparr> else k2_Buckets u ! b))
    \<and> (\<forall>b < length (k2_Buckets t). WorkerID (k2_Buckets t ! b) = s \<and> pt_Buckets pt ! b = d \<longrightarrow>
         map_of (f b) = map_of (the (KeyMap (k2_Buckets t ! b))))
    \<and> (\<forall>b < length (k2_Buckets t). k2_Buckets t' ! b =
         (if WorkerID (k2_Buckets t ! b) = s \<and> pt_Buckets pt ! b \<noteq> s
          then \<lparr>WorkerID = pt_Buckets pt ! b, KeyMap = None\<rparr> else k2_Buckets t ! b))"
proof -
  have codec: "keymap_codec rawU16 ordA ordB" using assms(1-3) by unfold_locales
  have sent: "\<forall>b < length (k2_Buckets t). k2_Buckets t' ! b =
         (if WorkerID (k2_Buckets t ! b) = s \<and> pt_Buckets pt ! b \<noteq> s
          then \<lparr>WorkerID = pt_Buckets pt ! b, KeyMap = None\<rparr> else k2_Buckets t ! b)"
    using keymap_codec.SerializeMigratingKeyMaps_sound(3)[OF codec assms(4)] by blast
  note received = keymap_codec.migration_roundtrip[OF codec assms(4-10), unfolded assms(9)]
  show ?thesis
    unfolding assms(9) using received by (elim exE conjE) (intro exI conjI; (rule sent | assumption))
qed

text \<open>Rules that evaluate the codec on concrete input.\<close>

lemma bePut_numeral:
  "bePut 4 n = [of_nat (n div 16777216), of_nat (n div 65536), of_nat (n div 256), of_nat n]"
  "bePut 2 n = [of_nat (n div 256), of_nat n]"
  "replicate 8 (0 :: byte) = [0, 0, 0, 0, 0, 0, 0, 0]" "replicate 4 (0 :: byte) = [0, 0, 0, 0]"
  by (simp_all add: bePut_def upt_rec) (simp_all add: numeral_eq_Suc)

lemmas codec_eval = migrateStep_def SerializeBucket_def NewSerializedKeyMap_def AddBucket_def skmPut_def
  addPair_def patchAt_def at_idx_def gslice_def Let_def MigratingKeyMapWorkUnit_def skmDone_def
  bePut_numeral

theorem key_map_migration_witness:
  defines "t \<equiv> \<lparr>k2_H = (\<lambda>_. 0), k2_Buckets = [\<lparr>WorkerID = 1, KeyMap = Some []\<rparr>,
      \<lparr>WorkerID = 1, KeyMap = Some [([0, 7, 0, 0, 0, 1, 65], 3)]\<rparr>]\<rparr>"
    and "u \<equiv> \<lparr>k2_H = (\<lambda>_. 0), k2_Buckets = [\<lparr>WorkerID = 1, KeyMap = None\<rparr>, \<lparr>WorkerID = 1, KeyMap = None\<rparr>]\<rparr>"
  shows "\<exists>u' f. DeserializeMigratingKeyMaps u
       (drop 6 [8, 0, 0, 0, 0, 23, 0, 0, 0, 1, 0, 0, 0, 15, 0, 7, 0, 0, 0, 1, 0, 0, 0, 1, 0, 1, 65, 0, 3]) 2 = Inr u'
     \<and> k2_Buckets u' ! 1 = \<lparr>WorkerID = 2, KeyMap = Some (f (1 :: nat))\<rparr>
     \<and> map_of (f 1) = map_of [([0, 7, 0, 0, 0, 1, 65], 3)]"
proof -
  let ?raw = "\<lambda>x :: u16. [ucast x, ucast (drop_bit 8 x)] :: byte list"
  let ?msg = "[8, 0, 0, 0, 0, 23, 0, 0, 0, 1, 0, 0, 0, 15, 0, 7, 0, 0, 0, 1, 0, 0, 0, 1, 0, 1, 65, 0, 3] :: byte list"
  let ?skm = "\<lparr>skm_data = [8, 0, 0, 0, 0, 0, 0, 0, 0, 0, 0, 0, 0, 15, 0, 7, 0, 0, 0, 1, 0, 0, 0, 1, 0, 1, 65, 0, 3],
      skm_numBuckets = 1\<rparr>"
  have "rfold (migrateStep ?raw (\<lambda>m. m) rev 1000 1 [1, 2]) ([\<lparr>WorkerID = 1, KeyMap = Some []\<rparr>,
      \<lparr>WorkerID = 1, KeyMap = Some [([0, 7, 0, 0, 0, 1, 65], 3)]\<rparr>], []) [0, 1]
    = Inr ([\<lparr>WorkerID = 1, KeyMap = Some []\<rparr>, \<lparr>WorkerID = 2, KeyMap = None\<rparr>], [(2, ?skm)])"
    by (simp add: codec_eval)
  moreover have "skmDone ?skm = ?msg" by (simp add: codec_eval)
  ultimately have ser: "SerializeMigratingKeyMaps ?raw (\<lambda>m. m) rev 1000 t 1
        \<lparr>pt_H = (\<lambda>_. 0), pt_Buckets = [1, 2]\<rparr>
      = Inr (t\<lparr>k2_Buckets := [\<lparr>WorkerID = 1, KeyMap = Some []\<rparr>, \<lparr>WorkerID = 2, KeyMap = None\<rparr>]\<rparr>, [(2, ?msg)])"
    by (simp add: SerializeMigratingKeyMaps_def t_def upt_rec)
  have key: "\<exists>opb. keys_ok opb b m" if "b < length (k2_Buckets t)" "KeyMap (k2_Buckets t ! b) = Some m" for b m
  proof (cases "b = 0")
    case True
    then show ?thesis using that by (auto simp: t_def keys_ok_def)
  next
    case False
    then have "b = 1" using that(1) by (simp add: t_def)
    moreover have "keys_ok [0, 7] 1 [([0, 7, 0, 0, 0, 1, 65], 3)]"
      by (simp add: keys_ok_def bePut_numeral)
    ultimately show ?thesis using that(2) by (auto simp: t_def)
  qed
  have ord: "range_order (\<lambda>m :: keyMap. m)" "range_order (rev :: keyMap \<Rightarrow> keyMap)"
    by (simp_all add: range_order_def)
  have keys: "\<forall>b < length (k2_Buckets t). \<forall>m. KeyMap (k2_Buckets t ! b) = Some m \<longrightarrow>
      (\<exists>opb. keys_ok opb b m)" using key by blast
  have empty: "\<forall>b < length (k2_Buckets u). [1, 2] ! b = (2 :: u16) \<and> WorkerID (k2_Buckets t ! b) = 1 \<longrightarrow>
      KeyMap (k2_Buckets u ! b) = None \<or> KeyMap (k2_Buckets u ! b) = Some []"
    by (simp add: u_def less_Suc_eq all_conj_distrib)
  have hyps: "map_of [(2 :: u16, ?msg)] 2 = Some ?msg" "(1000 :: nat) < 2 ^ 32"
    "length (k2_Buckets t) < 2 ^ 32" "length (k2_Buckets u) = length (k2_Buckets t)"
    by (simp_all add: t_def u_def)
  obtain u' f where r: "DeserializeMigratingKeyMaps u (drop 6 ?msg) 2 = Inr u'"
    "\<forall>b < length (k2_Buckets t). k2_Buckets u' ! b =
         (if WorkerID (k2_Buckets t ! b) = 1 \<and> [1, 2] ! b = (2 :: u16)
          then \<lparr>WorkerID = 2, KeyMap = Some (f b)\<rparr> else k2_Buckets u ! b)"
    "\<forall>b < length (k2_Buckets t). WorkerID (k2_Buckets t ! b) = 1 \<and> [1, 2] ! b = (2 :: u16) \<longrightarrow>
         map_of (f b) = map_of (the (KeyMap (k2_Buckets t ! b)))"
    using key_map_migration[OF _ ord ser hyps(1-3) keys hyps(4), unfolded PartitionTable.simps, OF _ empty]
    by auto
  have "1 < length (k2_Buckets t)" "WorkerID (k2_Buckets t ! 1) = 1"
    "the (KeyMap (k2_Buckets t ! 1)) = [([0, 7, 0, 0, 0, 1, 65], 3)]" by (simp_all add: t_def)
  with r(2)[rule_format, of 1] r(3)[rule_format, of 1]
  have "k2_Buckets u' ! 1 = \<lparr>WorkerID = 2, KeyMap = Some (f 1)\<rparr>"
    "map_of (f 1) = map_of [([0, 7, 0, 0, 0, 1, 65], 3)]" by simp_all
  with r(1) show ?thesis by blast
qed


section \<open>Key maps exist exactly for local buckets\<close>

definition localBucket :: "u16 \<Rightarrow> BucketV2 \<Rightarrow> bool" where
  "localBucket w b \<longleftrightarrow> (KeyMap b \<noteq> None \<longleftrightarrow> WorkerID b = w)"

definition localMaps :: "u16 \<Rightarrow> KeyLookupTableV2 \<Rightarrow> bool" where
  "localMaps w t \<longleftrightarrow> list_all (localBucket w) (k2_Buckets t)"

text \<open>The operations a worker \<open>w\<close> performs on its own table.\<close>

inductive tableStep :: "u16 \<Rightarrow> KeyLookupTableV2 \<Rightarrow> KeyLookupTableV2 \<Rightarrow> bool" for w where
  insert: "InsertOrUpdateKey t k b v = Inr t' \<Longrightarrow> tableStep w t t'"
| update: "UpdateKey t k b v = Inr t' \<Longrightarrow> tableStep w t t'"
| remove: "RemoveKey t k b = Inr t' \<Longrightarrow> tableStep w t t'"
| send: "SerializeMigratingKeyMaps rawU16 ordA ordB mx t w pt = Inr (t', msgs) \<Longrightarrow> tableStep w t t'"
| receive: "DeserializeMigratingKeyMaps t bytes w = Inr t' \<Longrightarrow> tableStep w t t'"

inductive_cases tableStepE: "tableStep w t t'"

lemma list_all_update: "list_all P xs \<Longrightarrow> P v \<Longrightarrow> list_all P (xs[i := v])"
  by (auto simp: list_all_iff dest!: set_update_subset_insert[THEN subsetD])

lemma localMaps_setKeyMap:
  assumes "bucketMap t b msg = Inr (bk, m)" "localMaps w t"
  shows "localMaps w (setKeyMap t b bk m')"
proof -
  have "localBucket w bk" using assms by (auto simp: bucketMap_Inr localMaps_def list_all_length)
  then have "localBucket w (bk\<lparr>KeyMap := Some m'\<rparr>)"
    using assms(1) by (auto simp: localBucket_def bucketMap_Inr)
  then show ?thesis using assms(2) by (simp add: localMaps_def setKeyMap_def list_all_update)
qed

lemma localMaps_Insert: "InsertOrUpdateKey t k b v = Inr t' \<Longrightarrow> localMaps w t \<Longrightarrow> localMaps w t'"
  by (auto simp: InsertOrUpdateKey_def rbind_eq_Inr localMaps_setKeyMap)

lemma localMaps_Remove: "RemoveKey t k b = Inr t' \<Longrightarrow> localMaps w t \<Longrightarrow> localMaps w t'"
  by (auto simp: RemoveKey_def rbind_eq_Inr fatal_if_eq_Inr localMaps_setKeyMap)

lemma localMaps_send:
  assumes "SerializeMigratingKeyMaps rawU16 ordA ordB mx t w pt = Inr (t', msgs)" "localMaps w t"
  shows "localMaps w t'"
proof -
  obtain bk fac where
    f: "rfold (migrateStep rawU16 ordA ordB mx w (pt_Buckets pt)) (k2_Buckets t, [])
          [0..<length (k2_Buckets t)] = Inr (bk, fac)" and t': "t' = t\<lparr>k2_Buckets := bk\<rparr>"
    using assms(1) by (auto simp: SerializeMigratingKeyMaps_def res_elims)
  have "list_all (localBucket w) (fst (bk, fac))"
  proof (rule rfold_invariant[OF f])
    show "list_all (localBucket w) (fst (k2_Buckets t, []))" using assms(2) by (simp add: localMaps_def)
    fix s i s' assume "list_all (localBucket w) (fst s)"
      "migrateStep rawU16 ordA ordB mx w (pt_Buckets pt) s i = Inr s'"
    then show "list_all (localBucket w) (fst s')"
      by (cases s) (auto simp: migrateStep_def res_elims localBucket_def intro!: list_all_update
          split: if_splits)
  qed
  then show ?thesis by (simp add: localMaps_def t')
qed

lemma localMaps_receive:
  assumes "DeserializeMigratingKeyMaps t bytes w = Inr t'" "localMaps w t"
  shows "localMaps w t'"
proof -
  obtain n off bk where f: "rfold (readBucketAt bytes w) (4, k2_Buckets t) [0..<n] = Inr (off, bk)"
    and t': "t' = t\<lparr>k2_Buckets := bk\<rparr>"
    using assms(1) by (auto simp: DeserializeMigratingKeyMaps_def res_elims)
  have "list_all (localBucket w) (snd (off, bk))"
  proof (rule rfold_invariant[OF f])
    show "list_all (localBucket w) (snd (4, k2_Buckets t))" using assms(2) by (simp add: localMaps_def)
    fix s i s' assume "list_all (localBucket w) (snd s)" "readBucketAt bytes w s i = Inr s'"
    then show "list_all (localBucket w) (snd s')"
      by (cases s) (auto simp: readBucketAt_def readBucket_def Let_def res_elims localBucket_def
          intro!: list_all_update)
  qed
  then show ?thesis by (simp add: localMaps_def t')
qed

lemma localMaps_step: "tableStep w t t' \<Longrightarrow> localMaps w t \<Longrightarrow> localMaps w t'"
  by (erule tableStepE)
    (auto dest: localMaps_Insert localMaps_Remove localMaps_send localMaps_receive UpdateKey_Insert)

lemma localMaps_reachable: "(tableStep w)\<^sup>*\<^sup>* t t' \<Longrightarrow> localMaps w t \<Longrightarrow> localMaps w t'"
  by (induction rule: rtranclp_induct) (auto dest: localMaps_step)

lemma DeserializeKeyLookupTableV2_eq:
  assumes "serializeOwners os = Inr rs" "os \<noteq> []"
  shows "DeserializeKeyLookupTableV2 rs (int (length os)) h w = Inr \<lparr>k2_H = h, k2_Buckets =
     map (\<lambda>v. \<lparr>WorkerID = v, KeyMap = (if v = w then Some [] else None)\<rparr>) os\<rparr>"
proof -
  let ?mk = "\<lambda>v. \<lparr>WorkerID = v, KeyMap = (if v = w then Some [] else None)\<rparr>"
  have rs: "tiles 0 rs (length os)" "concat (map expandRange rs) = os"
    using serializeOwners_ok[OF assms(2)] assms(1) by auto
  then have "rfold (writeRange ?mk) (replicate (length os) zeroBucketV2) rs = Inr (map ?mk os)"
    using writeRanges_tiles[OF rs(1), of "replicate (length os) zeroBucketV2" ?mk] by simp
  then show ?thesis by (simp add: DeserializeKeyLookupTableV2_def)
qed

lemma GetWorkerID_local:
  assumes "localMaps w t" "b < length (k2_Buckets t)"
  shows "(\<exists>v. GetWorkerID t k (int b) = Inr v) \<longleftrightarrow> WorkerID (k2_Buckets t ! b) = w"
proof -
  have "KeyMap (k2_Buckets t ! b) \<noteq> None \<longleftrightarrow> WorkerID (k2_Buckets t ! b) = w"
    using assms by (simp add: localMaps_def list_all_length localBucket_def)
  then show ?thesis
    using assms(2)
    by (cases "KeyMap (k2_Buckets t ! b)")
      (auto simp: GetWorkerID_def bucketMap_def at_int_def at_idx_def)
qed

text \<open>C9. From the moment a worker receives its table, through any sequence of key updates, removals,
  outgoing and incoming key map migrations, it holds a key map for exactly the buckets it owns, and a
  lookup of a key succeeds exactly for these buckets.\<close>

theorem key_maps_local:
  assumes "serializeOwners os = Inr rs" "os \<noteq> []"
    and "DeserializeKeyLookupTableV2 rs (int (length os)) h w = Inr t0" "(tableStep w)\<^sup>*\<^sup>* t0 t"
    and "b < length (k2_Buckets t)"
  shows "(KeyMap (k2_Buckets t ! b) \<noteq> None \<longleftrightarrow> WorkerID (k2_Buckets t ! b) = w)
    \<and> ((\<exists>v. GetWorkerID t k (int b) = Inr v) \<longleftrightarrow> WorkerID (k2_Buckets t ! b) = w)"
proof -
  have "localMaps w t0"
    using DeserializeKeyLookupTableV2_eq[OF assms(1,2), of h w] assms(3)
    by (auto simp: localMaps_def localBucket_def list_all_iff)
  then have inv: "localMaps w t" using assms(4) by (rule localMaps_reachable[rotated])
  then have "KeyMap (k2_Buckets t ! b) \<noteq> None \<longleftrightarrow> WorkerID (k2_Buckets t ! b) = w"
    using assms(5) by (simp add: localMaps_def list_all_length localBucket_def)
  with GetWorkerID_local[OF inv assms(5)] show ?thesis by blast
qed

theorem key_maps_local_witness:
  "\<exists>t. InsertOrUpdateKey \<lparr>k2_H = (\<lambda>_. 0), k2_Buckets = [\<lparr>WorkerID = 1, KeyMap = Some []\<rparr>,
       \<lparr>WorkerID = 2, KeyMap = None\<rparr>]\<rparr> [7] 0 5 = Inr t
   \<and> KeyMap (k2_Buckets t ! 0) \<noteq> None \<and> (\<exists>v. GetWorkerID t [7] (int 0) = Inr v)"
proof -
  let ?ini = "\<lparr>k2_H = (\<lambda>_. 0), k2_Buckets = [\<lparr>WorkerID = 1, KeyMap = Some []\<rparr>, \<lparr>WorkerID = 2, KeyMap = None\<rparr>]\<rparr>"
  let ?t = "\<lparr>k2_H = (\<lambda>_. 0), k2_Buckets = [\<lparr>WorkerID = 1, KeyMap = Some [([7], 5)]\<rparr>, \<lparr>WorkerID = 2, KeyMap = None\<rparr>]\<rparr>"
  let ?rs = "[newRange 1 0, newRange 2 1]"
  have ser: "serializeOwners [1, 2] = Inr ?rs" by (simp add: serializeOwners_def serializeStep_def
        at_idx_def newRange_def)
  have des: "DeserializeKeyLookupTableV2 ?rs (int (length [1 :: u16, 2])) (\<lambda>_. 0) 1
      = Inr \<lparr>k2_H = (\<lambda>_. 0), k2_Buckets = [\<lparr>WorkerID = 1, KeyMap = Some []\<rparr>, \<lparr>WorkerID = 2, KeyMap = None\<rparr>]\<rparr>"
    unfolding DeserializeKeyLookupTableV2_eq[OF ser list.distinct(2), of "\<lambda>_. 0" 1] by simp
  have ins: "InsertOrUpdateKey ?ini [7] 0 5 = Inr ?t"
    by (simp add: InsertOrUpdateKey_def bucketMap_def at_int_def at_idx_def setKeyMap_def)
  then have "(tableStep 1)\<^sup>*\<^sup>* ?ini ?t" by (intro r_into_rtranclp tableStep.insert)
  from key_maps_local[OF ser _ des this, of 0 "[7]"] ins show ?thesis by simp
qed

end
