(* ===== verification/State_Service.thy ===== *)
theory State_Service
  imports State_Backend Key_Maps
begin

text \<open>
  The state service (\<^verbatim>\<open>state/\<close>) of every worker and the calls between them: local access, the
  lazy protocols without migration (\<open>no-migration\<close>), with bucket migration (\<open>basic\<close>) and with
  per-key migration (\<open>by-key\<close>). A cluster maps worker IDs to state services; a call on the
  connection to another worker reads or changes that worker's service. The goroutines of one
  call work on different workers or on different keys and are joined before the next access, so
  they are run here one after the other, in an order that is a parameter.
\<close>

section \<open>State and local access\<close>

record StateService =
  OperatorID :: u16
  svcWorkerID :: u16
  Backend :: store
  StateLookupTable :: KeyLookupTable
  StateLookupTableV2 :: KeyLookupTableV2

type_synonym cluster = "u16 \<rightharpoonup> StateService"
type_synonym keysPerState = "(u16, skey list) gomap"
type_synonym valsPerState = "(u16, bytes option list) gomap"

definition setBackend :: "StateService \<Rightarrow> store res \<Rightarrow> StateService res" where
  "setBackend s r = rbind r (\<lambda>m. Inr (s\<lparr>Backend := m\<rparr>))"

definition readLocalState :: "StateService \<Rightarrow> keysPerState \<Rightarrow> valsPerState res" where
  "readLocalState s keys =
     rfold (\<lambda>values (stateID, ks).
       rbind (mem_GetMany (Backend s) (Some ks)) (\<lambda>vs. Inr (AList.update stateID vs values))) [] keys"

definition overwriteLocalState :: "StateService \<Rightarrow> keysPerState \<Rightarrow> valsPerState \<Rightarrow> StateService res" where
  "overwriteLocalState s keys values =
     rfold (\<lambda>s (stateID, ks). case map_of values stateID of
         Some vals \<Rightarrow> setBackend s (mem_SetMany (Backend s) (Some ks) (Some vals))
       | None \<Rightarrow> Inl (Fatal ''Values for state ID not found'')) s keys"

definition mergeLocalState :: "StateService \<Rightarrow> keysPerState \<Rightarrow> valsPerState \<Rightarrow> StateService res" where
  "mergeLocalState s keys values =
     rfold (\<lambda>s (stateID, ks). case map_of values stateID of
         Some vals \<Rightarrow> setBackend s (mem_MergeMany (Backend s) (Some ks) (Some vals))
       | None \<Rightarrow> Inl (Fatal ''Values for state ID not found'')) s keys"

definition deleteLocalState :: "StateService \<Rightarrow> keysPerState \<Rightarrow> StateService res" where
  "deleteLocalState s keys =
     rfold (\<lambda>s (stateID, ks). setBackend s (mem_DeleteMany (Backend s) (Some ks))) s keys"


section \<open>Nested maps\<close>

text \<open>\<open>m[w]\<close> of a map of maps, and \<open>m[w][st] = append(m[w][st], x)\<close> with the inner map made on demand.\<close>

definition inner :: "('w, ('k, 'v) gomap) gomap \<Rightarrow> 'w \<Rightarrow> ('k, 'v) gomap" where
  "inner m w = (case map_of m w of None \<Rightarrow> [] | Some x \<Rightarrow> x)"

definition ensure :: "('w, ('k, 'v) gomap) gomap \<Rightarrow> 'w \<Rightarrow> ('w, ('k, 'v) gomap) gomap" where
  "ensure m w = (if map_of m w = None then AList.update w [] m else m)"

definition push2 :: "('w, ('k, 'x list) gomap) gomap \<Rightarrow> 'w \<Rightarrow> 'k \<Rightarrow> 'x \<Rightarrow> ('w, ('k, 'x list) gomap) gomap" where
  "push2 m w st x = AList.update w (AList.update st (mslice (inner m w) st @ [x]) (inner m w)) m"


section \<open>Grouping requests and merging results\<close>

text \<open>\<open>no-migration\<close>: the keys at position \<open>i\<close> of every state go to the owner of bucket \<open>i\<close>.\<close>

definition groupStep :: "KeyLookupTable \<Rightarrow> keysPerState \<Rightarrow>
    (u16, keysPerState) gomap \<times> (u16, nat list) gomap \<Rightarrow> nat \<times> int \<Rightarrow>
    ((u16, keysPerState) gomap \<times> (u16, nat list) gomap) res" where
  "groupStep table keys acc ib =
     (let (keysByWorker, indexTracker) = acc; (i, bucketID) = ib in
      rbind (kl_BucketIdxToWorkerID table bucketID) (\<lambda>workerID.
      rbind (rfold (\<lambda>g (stateID, keyList).
               rbind (at_idx keyList i) (\<lambda>key. Inr (push2 g workerID stateID key)))
               (ensure keysByWorker workerID) keys) (\<lambda>keysByWorker.
      Inr (keysByWorker, AList.update workerID (mslice indexTracker workerID @ [i]) indexTracker))))"

definition groupForRead :: "KeyLookupTable \<Rightarrow> keysPerState \<Rightarrow> int list \<Rightarrow>
    ((u16, keysPerState) gomap \<times> (u16, nat list) gomap) res" where
  "groupForRead table keys bucketIDs =
     rfold (groupStep table keys) ([], []) (enumerate 0 bucketIDs)"

text \<open>\<open>by-key\<close>: every key goes to the worker that holds its state.\<close>

definition byKeyStep :: "KeyLookupTableV2 \<Rightarrow> int list \<Rightarrow> u16 \<Rightarrow>
    (u16, keysPerState) gomap \<times> (u16, (u16, nat list) gomap) gomap \<Rightarrow> nat \<times> skey \<Rightarrow>
    ((u16, keysPerState) gomap \<times> (u16, (u16, nat list) gomap) gomap) res" where
  "byKeyStep table bucketIDs stateID acc ik =
     (let (keysByWorker, indexTracker) = acc; (i, key) = ik in
      rbind (at_idx bucketIDs i) (\<lambda>bucketID.
      rbind (GetWorkerID table key bucketID) (\<lambda>workerID.
      Inr (push2 keysByWorker workerID stateID key, push2 indexTracker workerID stateID i))))"

definition groupKeysByWorker :: "KeyLookupTableV2 \<Rightarrow> keysPerState \<Rightarrow> int list \<Rightarrow>
    ((u16, keysPerState) gomap \<times> (u16, (u16, nat list) gomap) gomap) res" where
  "groupKeysByWorker table keys bucketIDs =
     rfold (\<lambda>acc (stateID, keyList). rfold (byKeyStep table bucketIDs stateID) acc (enumerate 0 keyList))
       ([], []) keys"

definition emptyResult :: "keysPerState \<Rightarrow> valsPerState" where
  "emptyResult keys = map (\<lambda>(stateID, keyList). (stateID, replicate (length keyList) None)) keys"

text \<open>\<open>res[stateID][indices[i]] = v\<close> for every value of every worker.\<close>

definition writeCell :: "u16 \<Rightarrow> nat list \<Rightarrow> valsPerState \<Rightarrow> nat \<times> bytes option \<Rightarrow> valsPerState res" where
  "writeCell stateID indices res iv =
     rbind (at_idx indices (fst iv)) (\<lambda>j.
     rbind (set_idx (mslice res stateID) j (snd iv)) (\<lambda>l. Inr (AList.update stateID l res)))"

definition mergeResultsFromAllWorkers ::
    "keysPerState \<Rightarrow> (u16, valsPerState) gomap \<Rightarrow> (u16, nat list) gomap \<Rightarrow> valsPerState res" where
  "mergeResultsFromAllWorkers keys resByWorker indexTracker =
     rfold (\<lambda>res (workerID, workerRes).
       rfold (\<lambda>res (stateID, values).
         rfold (writeCell stateID (mslice indexTracker workerID)) res (enumerate 0 values))
         res workerRes)
       (emptyResult keys) resByWorker"

definition mergeResultsFromAllWorkersLazyByKey ::
    "keysPerState \<Rightarrow> (u16, valsPerState) gomap \<Rightarrow> (u16, (u16, nat list) gomap) gomap \<Rightarrow> valsPerState res" where
  "mergeResultsFromAllWorkersLazyByKey keys resByWorker indexTrackers =
     rfold (\<lambda>res (workerID, workerRes).
       rfold (\<lambda>res (stateID, values).
         rfold (writeCell stateID (mslice (inner indexTrackers workerID) stateID)) res (enumerate 0 values))
         res workerRes)
       (emptyResult keys) resByWorker"



section \<open>Calls between workers without migration\<close>

text \<open>A value that is nil arrives as an empty one.\<close>

definition overWire :: "bytes option list \<Rightarrow> bytes option list" where
  "overWire vs = map (Some \<circ> nilToEmpty) vs"

definition RemoteRead :: "StateService \<Rightarrow> skey list \<Rightarrow> bytes option list res" where
  "RemoteRead r keys = rbind (mem_GetMany (Backend r) (Some keys)) (\<lambda>vs. Inr (overWire vs))"

definition RemoteOverwrite :: "StateService \<Rightarrow> skey list \<Rightarrow> bytes option list \<Rightarrow> StateService res" where
  "RemoteOverwrite r keys values = setBackend r (mem_SetMany (Backend r) (Some keys) (Some (overWire values)))"

definition RemoteMerge :: "StateService \<Rightarrow> skey list \<Rightarrow> bytes option list \<Rightarrow> StateService res" where
  "RemoteMerge r keys values = setBackend r (mem_MergeMany (Backend r) (Some keys) (Some (overWire values)))"

definition RemoteDelete :: "StateService \<Rightarrow> skey list \<Rightarrow> StateService res" where
  "RemoteDelete r keys = setBackend r (mem_DeleteMany (Backend r) (Some keys))"

definition peer :: "cluster \<Rightarrow> u16 \<Rightarrow> StateService res" where
  "peer cl w = (case cl w of None \<Rightarrow> Inl (Fatal ''connection not found for worker'') | Some r \<Rightarrow> Inr r)"

definition remoteReadFromWorker :: "cluster \<Rightarrow> u16 \<Rightarrow> keysPerState \<Rightarrow> valsPerState res" where
  "remoteReadFromWorker cl w keys =
     rbind (peer cl w) (\<lambda>r.
     rfold (\<lambda>res (stateID, ks).
       rbind (RemoteRead r ks) (\<lambda>values.
       rbind (fatal_if (length values \<noteq> length ks) ''Invalid remote read response'') (\<lambda>_.
       Inr (AList.update stateID values res)))) [] keys)"

definition readFrom :: "cluster \<Rightarrow> u16 \<Rightarrow> u16 \<Rightarrow> keysPerState \<Rightarrow> valsPerState res" where
  "readFrom cl me w workerKeys =
     (if w = me then rbind (peer cl me) (\<lambda>s. readLocalState s workerKeys)
      else remoteReadFromWorker cl w workerKeys)"

definition remoteRead :: "((u16 \<times> keysPerState) list \<Rightarrow> (u16 \<times> keysPerState) list) \<Rightarrow>
    cluster \<Rightarrow> u16 \<Rightarrow> keysPerState \<Rightarrow> int list \<Rightarrow> valsPerState res" where
  "remoteRead ord cl me keys bucketIDs =
     rbind (peer cl me) (\<lambda>s.
     rbind (groupForRead (StateLookupTable s) keys bucketIDs) (\<lambda>(keysByWorker, indexTracker).
     rbind (rfold (\<lambda>acc (w, workerKeys). rbind (readFrom cl me w workerKeys) (\<lambda>r. Inr (acc @ [(w, r)])))
              [] (ord keysByWorker)) (\<lambda>resByWorker.
     mergeResultsFromAllWorkers keys resByWorker indexTracker)))"

definition groupValueStep :: "KeyLookupTable \<Rightarrow> valsPerState \<Rightarrow> (u16, int list) gomap \<Rightarrow> u16 \<Rightarrow>
    (u16, keysPerState) gomap \<times> (u16, valsPerState) gomap \<Rightarrow> nat \<times> skey \<Rightarrow>
    ((u16, keysPerState) gomap \<times> (u16, valsPerState) gomap) res" where
  "groupValueStep table values bucketIDs stateID acc ik =
     (let (keysByWorker, valuesByWorker) = acc; (i, key) = ik in
      rbind (at_idx (mslice bucketIDs stateID) i) (\<lambda>bucketID.
      rbind (kl_BucketIdxToWorkerID table bucketID) (\<lambda>workerID.
      case map_of values stateID of
        Some vals \<Rightarrow> rbind (at_idx vals i) (\<lambda>v.
          Inr (push2 keysByWorker workerID stateID key, push2 valuesByWorker workerID stateID v))
      | None \<Rightarrow> Inl (Fatal ''Values for state ID not found''))))"

definition groupKeysAndValuesByWorker :: "KeyLookupTable \<Rightarrow> keysPerState \<Rightarrow> valsPerState \<Rightarrow>
    (u16, int list) gomap \<Rightarrow> ((u16, keysPerState) gomap \<times> (u16, valsPerState) gomap) res" where
  "groupKeysAndValuesByWorker table keys values bucketIDs =
     rfold (\<lambda>acc (stateID, keyList).
       rfold (groupValueStep table values bucketIDs stateID) acc (enumerate 0 keyList)) ([], []) keys"

definition remoteOverwriteToWorker :: "cluster \<Rightarrow> u16 \<Rightarrow> keysPerState \<Rightarrow> valsPerState \<Rightarrow> cluster res" where
  "remoteOverwriteToWorker cl w keys values =
     rbind (peer cl w) (\<lambda>r.
     rbind (rfold (\<lambda>r (stateID, ks). case map_of values stateID of
         Some vals \<Rightarrow> RemoteOverwrite r ks vals
       | None \<Rightarrow> Inl (Fatal ''Missing values for state ID'')) r keys) (\<lambda>r.
     Inr (cl(w \<mapsto> r))))"

definition remoteMergeToWorker :: "cluster \<Rightarrow> u16 \<Rightarrow> keysPerState \<Rightarrow> valsPerState \<Rightarrow> cluster res" where
  "remoteMergeToWorker cl w keys values =
     rbind (peer cl w) (\<lambda>r.
     rbind (rfold (\<lambda>r (stateID, ks). case map_of values stateID of
         Some vals \<Rightarrow> RemoteMerge r ks vals
       | None \<Rightarrow> Inl (Fatal ''Missing values for state ID'')) r keys) (\<lambda>r.
     Inr (cl(w \<mapsto> r))))"

definition onLocal :: "cluster \<Rightarrow> u16 \<Rightarrow> (StateService \<Rightarrow> StateService res) \<Rightarrow> cluster res" where
  "onLocal cl me f = rbind (peer cl me) (\<lambda>s. rbind (f s) (\<lambda>s'. Inr (cl(me \<mapsto> s'))))"

definition remoteOverwrite :: "((u16 \<times> keysPerState) list \<Rightarrow> (u16 \<times> keysPerState) list) \<Rightarrow>
    cluster \<Rightarrow> u16 \<Rightarrow> keysPerState \<Rightarrow> valsPerState \<Rightarrow> (u16, int list) gomap \<Rightarrow> cluster res" where
  "remoteOverwrite ord cl me keys values bucketIDs =
     rbind (peer cl me) (\<lambda>s.
     rbind (groupKeysAndValuesByWorker (StateLookupTable s) keys values bucketIDs)
       (\<lambda>(keysByWorker, valuesByWorker).
     rfold (\<lambda>cl (w, workerKeys).
       if w = me then onLocal cl me (\<lambda>s. overwriteLocalState s workerKeys (inner valuesByWorker w))
       else remoteOverwriteToWorker cl w workerKeys (inner valuesByWorker w)) cl (ord keysByWorker)))"

definition remoteMerge :: "((u16 \<times> keysPerState) list \<Rightarrow> (u16 \<times> keysPerState) list) \<Rightarrow>
    cluster \<Rightarrow> u16 \<Rightarrow> keysPerState \<Rightarrow> valsPerState \<Rightarrow> (u16, int list) gomap \<Rightarrow> cluster res" where
  "remoteMerge ord cl me keys values bucketIDs =
     rbind (peer cl me) (\<lambda>s.
     rbind (groupKeysAndValuesByWorker (StateLookupTable s) keys values bucketIDs)
       (\<lambda>(keysByWorker, valuesByWorker).
     rfold (\<lambda>cl (w, workerKeys).
       if w = me then onLocal cl me (\<lambda>s. mergeLocalState s workerKeys (inner valuesByWorker w))
       else remoteMergeToWorker cl w workerKeys (inner valuesByWorker w)) cl (ord keysByWorker)))"

definition groupForDelete :: "KeyLookupTable \<Rightarrow> keysPerState \<Rightarrow> (u16, int list) gomap \<Rightarrow>
    (u16, keysPerState) gomap res" where
  "groupForDelete table keys bucketIDs =
     rfold (\<lambda>acc (stateID, keyList).
       rfold (\<lambda>g (i, key).
         rbind (at_idx (mslice bucketIDs stateID) i) (\<lambda>bucketID.
         rbind (kl_BucketIdxToWorkerID table bucketID) (\<lambda>workerID.
         Inr (push2 g workerID stateID key)))) acc (enumerate 0 keyList)) [] keys"

definition remoteDeleteFromWorker :: "cluster \<Rightarrow> u16 \<Rightarrow> keysPerState \<Rightarrow> cluster res" where
  "remoteDeleteFromWorker cl w keys =
     rbind (peer cl w) (\<lambda>r.
     rbind (rfold (\<lambda>r (stateID, ks). RemoteDelete r ks) r keys) (\<lambda>r. Inr (cl(w \<mapsto> r))))"

definition remoteDelete :: "((u16 \<times> keysPerState) list \<Rightarrow> (u16 \<times> keysPerState) list) \<Rightarrow>
    cluster \<Rightarrow> u16 \<Rightarrow> keysPerState \<Rightarrow> (u16, int list) gomap \<Rightarrow> cluster res" where
  "remoteDelete ord cl me keys bucketIDs =
     rbind (peer cl me) (\<lambda>s.
     rbind (groupForDelete (StateLookupTable s) keys bucketIDs) (\<lambda>keysByWorker.
     rfold (\<lambda>cl (w, workerKeys).
       if w = me then onLocal cl me (\<lambda>s. deleteLocalState s workerKeys)
       else remoteDeleteFromWorker cl w workerKeys) cl (ord keysByWorker)))"



section \<open>Bucket migration\<close>

text \<open>\<open>basic\<close>: the remote buckets of a request, grouped by their owners, and in the order met.\<close>

definition requestStep :: "KeyLookupTable \<Rightarrow> u16 \<Rightarrow> (u16, int list) gomap \<times> int list \<Rightarrow> int \<Rightarrow>
    ((u16, int list) gomap \<times> int list) res" where
  "requestStep table me acc bucketID =
     (let (requests, requested) = acc in
      rbind (kl_BucketIdxToWorkerID table bucketID) (\<lambda>workerID.
      Inr (if workerID = me \<or> bucketID \<in> set requested then (requests, requested)
           else (AList.update workerID (mslice requests workerID @ [bucketID]) requests,
                 requested @ [bucketID]))))"

text \<open>\<open>rq\<close> is the range query of the backend, a parameter; \<open>sender\<close> the chunk sender of the connection.\<close>

definition migrateBucketStep :: "(store \<Rightarrow> bytes \<Rightarrow> bytes \<Rightarrow> (skey \<times> bytes) list) \<Rightarrow> u16 \<Rightarrow>
    StateService \<times> StateChunkSender \<times> StateChunk list \<Rightarrow> int \<Rightarrow>
    (StateService \<times> StateChunkSender \<times> StateChunk list) res" where
  "migrateBucketStep rq sourceWorkerId acc bucketIdx =
     (let (r, sender, out) = acc in
      rbind (kl_BucketIdxToWorkerID (StateLookupTable r) bucketIdx) (\<lambda>owner.
      rbind (fatal_if (owner \<noteq> svcWorkerID r) ''Requested bucket does not belong to the local worker'') (\<lambda>_.
      let (sender, msgs) = chunkSend sender
            (ReadLocalBucketRange (rq (Backend r)) (OperatorID r) bucketIdx bucketIdx) in
      rbind (kl_ChangeBucketOwner (StateLookupTable r) bucketIdx sourceWorkerId) (\<lambda>table.
      Inr (r\<lparr>StateLookupTable := table\<rparr>, sender, out @ msgs)))))"

definition RemoteBucketMigration :: "(store \<Rightarrow> bytes \<Rightarrow> bytes \<Rightarrow> (skey \<times> bytes) list) \<Rightarrow>
    StateService \<Rightarrow> StateChunkSender \<Rightarrow> u16 \<Rightarrow> u16 \<Rightarrow> int list \<Rightarrow>
    (StateService \<times> StateChunkSender \<times> StateChunk list) res" where
  "RemoteBucketMigration rq r sender operatorId sourceWorkerId bucketIds =
     rbind (fatal_if (operatorId \<noteq> OperatorID r) ''Invalid operator ID'') (\<lambda>_.
     rbind (rfold (migrateBucketStep rq sourceWorkerId) (r, sender, []) bucketIds) (\<lambda>(r, sender, out).
     let (sender, msgs) = chunkFlush sender in Inr (r, sender, out @ msgs)))"

definition migrateRemoteBucketsFromWorker :: "(store \<Rightarrow> bytes \<Rightarrow> bytes \<Rightarrow> (skey \<times> bytes) list) \<Rightarrow>
    (u16 \<Rightarrow> StateChunkSender) \<Rightarrow> u16 \<Rightarrow> u16 \<Rightarrow> cluster \<Rightarrow> u16 \<times> int list \<Rightarrow> cluster res" where
  "migrateRemoteBucketsFromWorker rq senders me operatorID cl req =
     (let (w, bucketIds) = req in
      rbind (peer cl w) (\<lambda>r.
      rbind (RemoteBucketMigration rq r (senders w) operatorID me bucketIds) (\<lambda>(r, sender, stream).
      onLocal (cl(w \<mapsto> r)) me (\<lambda>s.
        rbind (receiveChunks (Backend s) stream) (\<lambda>(m, rest). Inr (s\<lparr>Backend := m\<rparr>))))))"

definition changeOwners :: "KeyLookupTable \<Rightarrow> u16 \<Rightarrow> int list \<Rightarrow> KeyLookupTable res" where
  "changeOwners table me bucketIds = rfold (\<lambda>t b. kl_ChangeBucketOwner t b me) table bucketIds"

definition migrateRemoteBuckets :: "(store \<Rightarrow> bytes \<Rightarrow> bytes \<Rightarrow> (skey \<times> bytes) list) \<Rightarrow>
    (u16 \<Rightarrow> StateChunkSender) \<Rightarrow> cluster \<Rightarrow> u16 \<Rightarrow> u16 \<Rightarrow> int list \<Rightarrow> cluster res" where
  "migrateRemoteBuckets rq senders cl me operatorID bucketIDs =
     rbind (peer cl me) (\<lambda>s.
     rbind (rfold (requestStep (StateLookupTable s) me) ([], []) bucketIDs) (\<lambda>(requests, requested).
     if requests = [] then Inr cl
     else rbind (rfold (migrateRemoteBucketsFromWorker rq senders me operatorID) cl requests) (\<lambda>cl.
          onLocal cl me (\<lambda>s.
            rbind (changeOwners (StateLookupTable s) me requested) (\<lambda>table.
            Inr (s\<lparr>StateLookupTable := table\<rparr>))))))"


section \<open>Migration of single keys\<close>

definition RemoteByKeyMigration :: "StateService \<Rightarrow> keysPerState \<Rightarrow> valsPerState res" where
  "RemoteByKeyMigration r stateKeyLists =
     rfold (\<lambda>acc (stateID, ks).
       rbind (mem_GetMany (Backend r) (Some ks)) (\<lambda>vs. Inr (acc @ [(stateID, overWire vs)]))) [] stateKeyLists"

definition fetchStateByRpc :: "cluster \<Rightarrow> u16 \<Rightarrow> keysPerState \<Rightarrow> valsPerState res" where
  "fetchStateByRpc cl w keys =
     rbind (peer cl w) (\<lambda>r.
     rbind (RemoteByKeyMigration r keys) (\<lambda>response.
     Inr (foldl (\<lambda>res (stateID, values). AList.update stateID values res) [] response)))"

definition fetchFrom :: "cluster \<Rightarrow> u16 \<Rightarrow> u16 \<Rightarrow> keysPerState \<Rightarrow> valsPerState res" where
  "fetchFrom cl me w workerKeys =
     (if w = me then rbind (peer cl me) (\<lambda>s. readLocalState s workerKeys)
      else fetchStateByRpc cl w workerKeys)"

text \<open>The background work of a fetch: the fetched values are written to the local backend, and the
  table says that the keys are local.\<close>

definition flushFetched :: "keysPerState \<Rightarrow> valsPerState \<Rightarrow> StateService \<Rightarrow> StateService res" where
  "flushFetched keys res s =
     rfold (\<lambda>s (stateID, keyList). setBackend s (mem_SetMany (Backend s) (Some keyList) (map_of res stateID))) s keys"

definition updateAddrStep :: "u16 \<Rightarrow> int list \<Rightarrow> nat list \<Rightarrow> KeyLookupTableV2 \<Rightarrow> nat \<times> skey \<Rightarrow> KeyLookupTableV2 res" where
  "updateAddrStep me bucketIDs indices table ik =
     rbind (at_idx indices (fst ik)) (\<lambda>j.
     rbind (at_idx bucketIDs j) (\<lambda>bucketID. UpdateKey table (snd ik) bucketID me))"

definition updateAddrForFetchedNeededRemoteKeys :: "(u16, keysPerState) gomap \<Rightarrow>
    (u16, (u16, nat list) gomap) gomap \<Rightarrow> int list \<Rightarrow> StateService \<Rightarrow> StateService res" where
  "updateAddrForFetchedNeededRemoteKeys keysByWorker indexTracker bucketIDs s =
     rbind (rfold (\<lambda>table (w, workerKeys).
         if w = svcWorkerID s then Inr table
         else rfold (\<lambda>table (stateID, keyList).
                rfold (updateAddrStep (svcWorkerID s) bucketIDs (mslice (inner indexTracker w) stateID)) table
                  (enumerate 0 keyList)) table workerKeys)
       (StateLookupTableV2 s) keysByWorker) (\<lambda>table.
     Inr (s\<lparr>StateLookupTableV2 := table\<rparr>))"

definition remoteReadWithByKeyMigration :: "((u16 \<times> keysPerState) list \<Rightarrow> (u16 \<times> keysPerState) list) \<Rightarrow>
    cluster \<Rightarrow> u16 \<Rightarrow> keysPerState \<Rightarrow> int list \<Rightarrow> (cluster \<times> valsPerState) res" where
  "remoteReadWithByKeyMigration ord cl me keys bucketIDs =
     rbind (peer cl me) (\<lambda>s.
     rbind (groupKeysByWorker (StateLookupTableV2 s) keys bucketIDs) (\<lambda>(keysByWorker, indexTracker).
     rbind (rfold (\<lambda>acc (w, workerKeys). rbind (fetchFrom cl me w workerKeys) (\<lambda>r. Inr (acc @ [(w, r)])))
              [] (ord keysByWorker)) (\<lambda>resByWorker.
     rbind (rfold (\<lambda>s (w, workerKeys). if w = me then Inr s else flushFetched workerKeys (inner resByWorker w) s)
              s (ord keysByWorker)) (\<lambda>s.
     rbind (updateAddrForFetchedNeededRemoteKeys (ord keysByWorker) indexTracker bucketIDs s) (\<lambda>s.
     rbind (mergeResultsFromAllWorkersLazyByKey keys resByWorker indexTracker) (\<lambda>res.
     Inr (cl(me \<mapsto> s), res)))))))"

definition insertOrUpdateAddrForLocalKeys :: "keysPerState \<Rightarrow> (u16, int list) gomap \<Rightarrow> StateService \<Rightarrow> StateService res" where
  "insertOrUpdateAddrForLocalKeys keys bucketIDs s =
     rbind (rfold (\<lambda>table (stateID, keyList).
         rfold (\<lambda>table (i, key).
           rbind (at_idx (mslice bucketIDs stateID) i) (\<lambda>b. InsertOrUpdateKey table key b (svcWorkerID s)))
           table (enumerate 0 keyList)) (StateLookupTableV2 s) keys) (\<lambda>table.
     Inr (s\<lparr>StateLookupTableV2 := table\<rparr>))"

definition deleteKeysFromLookupTable :: "keysPerState \<Rightarrow> (u16, int list) gomap \<Rightarrow> StateService \<Rightarrow> StateService res" where
  "deleteKeysFromLookupTable keys bucketIDs s =
     rbind (rfold (\<lambda>table (stateID, keyList).
         rfold (\<lambda>table (i, key).
           rbind (at_idx (mslice bucketIDs stateID) i) (\<lambda>b. RemoveKey table key b))
           table (enumerate 0 keyList)) (StateLookupTableV2 s) keys) (\<lambda>table.
     Inr (s\<lparr>StateLookupTableV2 := table\<rparr>))"



section \<open>Reads with bucket migration in the background\<close>

text \<open>\<open>optimized\<close>: groups as for \<open>no-migration\<close>, and the set of remote buckets per worker.\<close>

definition bucketsByWorker :: "KeyLookupTable \<Rightarrow> u16 \<Rightarrow> int list \<Rightarrow> (u16, int list) gomap res" where
  "bucketsByWorker table me bucketIDs =
     rfold (\<lambda>g bucketID.
       rbind (kl_BucketIdxToWorkerID table bucketID) (\<lambda>workerID.
       Inr (if workerID = me \<or> bucketID \<in> set (mslice g workerID) then g
            else AList.update workerID (mslice g workerID @ [bucketID]) g))) [] bucketIDs"

definition asyncBucketStep :: "(store \<Rightarrow> bytes \<Rightarrow> bytes \<Rightarrow> (skey \<times> bytes) list) \<Rightarrow> u16 \<Rightarrow> skey set \<Rightarrow>
    StateService \<times> StateChunkSender \<times> StateChunk list \<Rightarrow> int \<Rightarrow>
    (StateService \<times> StateChunkSender \<times> StateChunk list) res" where
  "asyncBucketStep rq sourceWorkerId transferredKeys acc bucketId =
     (let (r, sender, out) = acc in
      rbind (kl_BucketIdxToWorkerID (StateLookupTable r) bucketId) (\<lambda>owner.
      rbind (fatal_if (owner \<noteq> svcWorkerID r) ''Requested bucket does not belong to the local worker'') (\<lambda>_.
      let (sender, msgs) = chunkSend sender (DedupStates
            (ReadLocalBucketRange (rq (Backend r)) (OperatorID r) bucketId bucketId) transferredKeys) in
      rbind (kl_ChangeBucketOwner (StateLookupTable r) bucketId sourceWorkerId) (\<lambda>table.
      Inr (r\<lparr>StateLookupTable := table\<rparr>, sender, out @ msgs)))))"

text \<open>The server: the values of the needed keys first, then the rest of the buckets in chunks.\<close>

definition RemoteAsyncBucketMigration :: "(store \<Rightarrow> bytes \<Rightarrow> bytes \<Rightarrow> (skey \<times> bytes) list) \<Rightarrow>
    StateService \<Rightarrow> StateChunkSender \<Rightarrow> u16 \<Rightarrow> u16 \<Rightarrow> keysPerState \<Rightarrow> int list \<Rightarrow>
    (StateService \<times> valsPerState \<times> StateChunk list) res" where
  "RemoteAsyncBucketMigration rq r sender operatorId sourceWorkerId stateKeyLists bucketIds =
     rbind (fatal_if (operatorId \<noteq> OperatorID r) ''Invalid operator ID'') (\<lambda>_.
     rbind (RemoteByKeyMigration r stateKeyLists) (\<lambda>keyResponse.
     rbind (rfold (asyncBucketStep rq sourceWorkerId (set (concat (map snd stateKeyLists))))
              (r, sender, []) bucketIds) (\<lambda>(r, sender, out).
     Inr (r, keyResponse, out @ snd (chunkFlush sender)))))"

text \<open>The client's second stage; unlike \<open>basic\<close> it does not look at the size of a chunk.\<close>

fun receiveAsync :: "store \<Rightarrow> StateChunk list \<Rightarrow> store res" where
  "receiveAsync m [] = Inl (Fatal ''Failed to receive async bucket fetch'')"
| "receiveAsync m (EndOfStream # cs) = Inr m"
| "receiveAsync m (Chunk es # cs) =
     rbind (mem_SetMany m (Some (map fst es)) (Some (map (Some \<circ> snd) es))) (\<lambda>m'. receiveAsync m' cs)"

definition asyncStateFetchExecutor :: "(store \<Rightarrow> bytes \<Rightarrow> bytes \<Rightarrow> (skey \<times> bytes) list) \<Rightarrow>
    (u16 \<Rightarrow> StateChunkSender) \<Rightarrow> cluster \<Rightarrow> u16 \<Rightarrow> u16 \<Rightarrow> u16 \<Rightarrow> keysPerState \<Rightarrow> int list \<Rightarrow>
    (cluster \<times> valsPerState) res" where
  "asyncStateFetchExecutor rq senders cl me remoteWorkerId operatorId keys bucketIds =
     rbind (peer cl remoteWorkerId) (\<lambda>r.
     rbind (RemoteAsyncBucketMigration rq r (senders remoteWorkerId) operatorId me keys bucketIds)
       (\<lambda>(r, keyResponse, stream).
     let res = foldl (\<lambda>res (stateID, values). AList.update stateID values res) [] keyResponse in
     rbind (onLocal (cl(remoteWorkerId \<mapsto> r)) me (\<lambda>s.
       rbind (flushFetched keys res s) (\<lambda>s.
       rbind (receiveAsync (Backend s) stream) (\<lambda>m.
       rbind (changeOwners (StateLookupTable s) me bucketIds) (\<lambda>table.
       Inr (s\<lparr>Backend := m, StateLookupTable := table\<rparr>)))))) (\<lambda>cl.
     Inr (cl, res))))"

definition remoteReadWithAsyncBucketMigration ::
    "((u16 \<times> keysPerState) list \<Rightarrow> (u16 \<times> keysPerState) list) \<Rightarrow> (int list \<Rightarrow> int list) \<Rightarrow>
     (store \<Rightarrow> bytes \<Rightarrow> bytes \<Rightarrow> (skey \<times> bytes) list) \<Rightarrow> (u16 \<Rightarrow> StateChunkSender) \<Rightarrow>
     cluster \<Rightarrow> u16 \<Rightarrow> u16 \<Rightarrow> keysPerState \<Rightarrow> int list \<Rightarrow> (cluster \<times> valsPerState) res" where
  "remoteReadWithAsyncBucketMigration ord ordB rq senders cl me operatorID keys bucketIDs =
     rbind (peer cl me) (\<lambda>s.
     rbind (groupForRead (StateLookupTable s) keys bucketIDs) (\<lambda>(keysByWorker, indexTracker).
     rbind (bucketsByWorker (StateLookupTable s) me bucketIDs) (\<lambda>bucketsOf.
     rbind (rfold (\<lambda>(cl, acc) (w, workerKeys).
              if w = me then rbind (peer cl me) (\<lambda>s. rbind (readLocalState s workerKeys) (\<lambda>r. Inr (cl, acc @ [(w, r)])))
              else rbind (asyncStateFetchExecutor rq senders cl me w operatorID workerKeys
                            (ordB (mslice bucketsOf w))) (\<lambda>(cl, r). Inr (cl, acc @ [(w, r)])))
            (cl, []) (ord keysByWorker)) (\<lambda>(cl, resByWorker).
     rbind (mergeResultsFromAllWorkers keys resByWorker indexTracker) (\<lambda>res. Inr (cl, res))))))"


section \<open>The interface of the service\<close>

text \<open>What a call depends on besides the cluster: the configured protocol, the orders in which maps
  are ranged over, the range query of the backend and the chunk senders.\<close>

record svcEnv =
  ReconfigProtocol :: string
  LazyProtocolVersion :: string
  ordW :: "(u16 \<times> keysPerState) list \<Rightarrow> (u16 \<times> keysPerState) list"
  ordB :: "int list \<Rightarrow> int list"
  rangeQ :: "store \<Rightarrow> bytes \<Rightarrow> bytes \<Rightarrow> (skey \<times> bytes) list"
  chunkSenders :: "u16 \<Rightarrow> StateChunkSender"

definition GetManyMultiState :: "svcEnv \<Rightarrow> cluster \<Rightarrow> u16 \<Rightarrow> u16 \<Rightarrow> keysPerState \<Rightarrow> int list \<Rightarrow>
    (cluster \<times> valsPerState) res" where
  "GetManyMultiState e cl me operatorID keys bucketIDs =
     (if ReconfigProtocol e = ''lazy'' then
        if LazyProtocolVersion e = ''basic'' then
          rbind (migrateRemoteBuckets (rangeQ e) (chunkSenders e) cl me operatorID bucketIDs) (\<lambda>cl.
          rbind (peer cl me) (\<lambda>s. rbind (readLocalState s keys) (\<lambda>res. Inr (cl, res))))
        else if LazyProtocolVersion e = ''by-key'' then
          remoteReadWithByKeyMigration (ordW e) cl me keys bucketIDs
        else if LazyProtocolVersion e = ''optimized'' then
          remoteReadWithAsyncBucketMigration (ordW e) (ordB e) (rangeQ e) (chunkSenders e) cl me operatorID keys bucketIDs
        else if LazyProtocolVersion e = ''no-migration'' then
          rbind (remoteRead (ordW e) cl me keys bucketIDs) (\<lambda>res. Inr (cl, res))
        else Inl (Fatal ''Unsupported lazy protocol version'')
      else rbind (peer cl me) (\<lambda>s. rbind (readLocalState s keys) (\<lambda>res. Inr (cl, res))))"

definition SetManyMultiState :: "svcEnv \<Rightarrow> cluster \<Rightarrow> u16 \<Rightarrow> keysPerState \<Rightarrow> valsPerState \<Rightarrow>
    (u16, int list) gomap \<Rightarrow> cluster res" where
  "SetManyMultiState e cl me keys values bucketIDs =
     rbind (fatal_if (keys = []) ''No keys to set'') (\<lambda>_.
     if ReconfigProtocol e = ''lazy'' \<and> LazyProtocolVersion e = ''no-migration'' then
       remoteOverwrite (ordW e) cl me keys values bucketIDs
     else onLocal cl me (\<lambda>s.
       rbind (if ReconfigProtocol e = ''lazy'' \<and> LazyProtocolVersion e = ''by-key''
              then insertOrUpdateAddrForLocalKeys keys bucketIDs s else Inr s) (\<lambda>s.
       overwriteLocalState s keys values)))"

definition MergeManyMultiState :: "svcEnv \<Rightarrow> cluster \<Rightarrow> u16 \<Rightarrow> keysPerState \<Rightarrow> valsPerState \<Rightarrow>
    (u16, int list) gomap \<Rightarrow> cluster res" where
  "MergeManyMultiState e cl me keys values bucketIDs =
     rbind (fatal_if (keys = []) ''No keys to merge'') (\<lambda>_.
     if ReconfigProtocol e = ''lazy'' \<and> LazyProtocolVersion e = ''no-migration'' then
       remoteMerge (ordW e) cl me keys values bucketIDs
     else onLocal cl me (\<lambda>s.
       rbind (if ReconfigProtocol e = ''lazy'' \<and> LazyProtocolVersion e = ''by-key''
              then insertOrUpdateAddrForLocalKeys keys bucketIDs s else Inr s) (\<lambda>s.
       mergeLocalState s keys values)))"

definition svc_DeleteMany :: "svcEnv \<Rightarrow> cluster \<Rightarrow> u16 \<Rightarrow> keysPerState \<Rightarrow> (u16, int list) gomap \<Rightarrow> cluster res" where
  "svc_DeleteMany e cl me keys bucketIDs =
     rbind (fatal_if (keys = []) ''No keys to delete'') (\<lambda>_.
     if ReconfigProtocol e = ''lazy'' \<and> LazyProtocolVersion e = ''no-migration'' then
       remoteDelete (ordW e) cl me keys bucketIDs
     else onLocal cl me (\<lambda>s.
       rbind (if ReconfigProtocol e = ''lazy'' \<and> LazyProtocolVersion e = ''by-key''
              then deleteKeysFromLookupTable keys bucketIDs s else Inr s) (\<lambda>s.
       deleteLocalState s keys)))"

text \<open>The operations that a state client calls on the service of its worker.\<close>

record 'c stateApi =
  apiGetMany :: "'c \<Rightarrow> u16 \<Rightarrow> keysPerState \<Rightarrow> int list \<Rightarrow> ('c \<times> valsPerState) res"
  apiSetMany :: "'c \<Rightarrow> keysPerState \<Rightarrow> valsPerState \<Rightarrow> (u16, int list) gomap \<Rightarrow> 'c res"
  apiMergeMany :: "'c \<Rightarrow> keysPerState \<Rightarrow> valsPerState \<Rightarrow> (u16, int list) gomap \<Rightarrow> 'c res"
  apiDeleteMany :: "'c \<Rightarrow> keysPerState \<Rightarrow> (u16, int list) gomap \<Rightarrow> 'c res"

definition serviceApi :: "svcEnv \<Rightarrow> u16 \<Rightarrow> cluster stateApi" where
  "serviceApi e me = \<lparr>apiGetMany = (\<lambda>cl. GetManyMultiState e cl me), apiSetMany = (\<lambda>cl. SetManyMultiState e cl me),
     apiMergeMany = (\<lambda>cl. MergeManyMultiState e cl me), apiDeleteMany = (\<lambda>cl. svc_DeleteMany e cl me)\<rparr>"

end
