(* ===== verification/Request_Groups.thy ===== *)
theory Request_Groups
  imports State_Service
begin

text \<open>
  How the state service splits a request by worker and puts the answers together again: what
  the groups hold, that gathering the values of all groups fills the result in the order of the
  request, and what a write does that is split the same way. The lazy protocols share these facts.
\<close>

section \<open>Association lists\<close>

lemma distinct_update [simp]: "distinct (map fst (AList.update k v m)) = distinct (map fst m)"
proof (induction m)
  case (Cons x m)
  have "fst ` set (AList.update k v m) = insert k (fst ` set m)" using dom_update[of k v m] by simp
  with Cons show ?case by (cases x) auto
qed simp

lemma update_map_other:
  "k \<in> fst ` set m \<Longrightarrow> distinct (map fst m) \<Longrightarrow>
     AList.update k (f k) m = map (\<lambda>(k', v). (k', if k' = k then f k else v)) m"
proof (induction m)
  case (Cons x m)
  obtain a b where x: "x = (a, b)" by (cases x)
  show ?case
  proof (cases "a = k")
    case True
    have "map (\<lambda>(k', v). (k', if k' = k then f k else v)) m = m"
      by (rule map_idI) (use Cons.prems(2) x True in \<open>auto simp: image_iff\<close>)
    then show ?thesis by (simp add: x True)
  next
    case False
    then show ?thesis using Cons x by auto
  qed
qed simp

text \<open>Building a map by assigning to the keys of another map, one by one, keeps its order.\<close>

lemma update_fresh: "k \<notin> fst ` set m \<Longrightarrow> AList.update k v m = m @ [(k, v)]"
  by (induction m) auto

lemma rfold_updates:
  assumes "\<And>acc k v. (k, v) \<in> set m \<Longrightarrow> step acc (k, v) = Inr (AList.update k (g k v) acc)"
    and "distinct (map fst acc @ map fst m)"
  shows "rfold step acc m = Inr (acc @ map (\<lambda>(k, v). (k, g k v)) m)"
  using assms
proof (induction m arbitrary: acc)
  case (Cons x m)
  obtain k v where x: "x = (k, v)" by (cases x)
  have "rfold step (acc @ [(k, g k v)]) m = Inr ((acc @ [(k, g k v)]) @ map (\<lambda>(k, v). (k, g k v)) m)"
    by (rule Cons.IH) (use Cons.prems x in auto)
  moreover have "step acc x = Inr (acc @ [(k, g k v)])"
  proof -
    have "k \<notin> fst ` set acc" using Cons.prems(2) x by auto
    then show ?thesis using Cons.prems(1)[of k v acc] x by (simp add: update_fresh)
  qed
  ultimately show ?case by (simp add: x)
qed simp

lemma rfold_snoc:
  assumes "\<And>acc x. x \<in> set xs \<Longrightarrow> step acc x = Inr (acc @ [g x])"
  shows "rfold step acc xs = Inr (acc @ map g xs)"
  using assms by (induction xs arbitrary: acc) auto

lemma foldl_updates:
  "distinct (map fst (acc @ m)) \<Longrightarrow> foldl (\<lambda>res (k, v). AList.update k v res) acc m = acc @ m"
proof (induction m arbitrary: acc)
  case (Cons x m)
  obtain k v where x: "x = (k, v)" by (cases x)
  have "k \<notin> fst ` set acc" using Cons.prems x by auto
  then show ?case using Cons.IH[of "acc @ [(k, v)]"] Cons.prems x by (auto simp: update_fresh)
qed simp


text \<open>A loop whose steps each take care of some items takes care of all of them.\<close>

lemma rfold_grow:
  assumes "\<And>t x D. x \<in> set xs \<Longrightarrow> Q D t \<Longrightarrow> \<exists>t'. step t x = Inr t' \<and> Q (D \<union> d x) t'" "Q D t"
  shows "\<exists>t'. rfold step t xs = Inr t' \<and> Q (D \<union> \<Union> (d ` set xs)) t'"
  using assms
proof (induction xs arbitrary: t D)
  case (Cons x xs)
  obtain t1 where t1: "step t x = Inr t1" "Q (D \<union> d x) t1" using Cons.prems by (meson list.set_intros(1))
  have "\<exists>t'. rfold step t1 xs = Inr t' \<and> Q (D \<union> d x \<union> \<Union> (d ` set xs)) t'"
    by (rule Cons.IH[OF _ t1(2)]) (use Cons.prems(1) in auto)
  then show ?case using t1(1) by (auto simp: Un_assoc)
qed simp


section \<open>Groups\<close>

text \<open>\<open>grouped G rs W S X\<close>: the group of worker \<open>w\<close> and state \<open>st\<close> lists, in order, the \<open>X\<close> of those
  requests of \<open>rs\<close> that go to \<open>w\<close> and \<open>st\<close>, and every request is in its group.\<close>

definition grouped :: "('w, ('k, 'x list) gomap) gomap \<Rightarrow> 'r list \<Rightarrow> ('r \<Rightarrow> 'w) \<Rightarrow> ('r \<Rightarrow> 'k) \<Rightarrow> ('r \<Rightarrow> 'x) \<Rightarrow> bool" where
  "grouped G rs W S X \<longleftrightarrow> distinct (map fst G)
     \<and> (\<forall>(w, wk) \<in> set G. distinct (map fst wk)
          \<and> (\<forall>(st, xs) \<in> set wk. xs \<noteq> [] \<and> xs = map X (filter (\<lambda>r. W r = w \<and> S r = st) rs)))
     \<and> (\<forall>r \<in> set rs. S r \<in> fst ` set (inner G (W r)))"

lemma grouped_mslice:
  assumes "grouped G rs W S X"
  shows "mslice (inner G w) st = map X (filter (\<lambda>r. W r = w \<and> S r = st) rs)"
proof (cases "map_of (inner G w) st")
  case None
  have "filter (\<lambda>r. W r = w \<and> S r = st) rs = []"
    using assms None by (auto simp: grouped_def filter_empty_conv map_of_eq_None_iff)
  then show ?thesis using None by (simp add: mslice_def)
next
  case (Some xs)
  then obtain wk where wk: "map_of G w = Some wk" "inner G w = wk"
    by (cases "map_of G w") (auto simp: inner_def)
  have "(w, wk) \<in> set G" "(st, xs) \<in> set wk" using wk Some by (auto dest: map_of_SomeD)
  then have "xs = map X (filter (\<lambda>r. W r = w \<and> S r = st) rs)" using assms unfolding grouped_def by blast
  then show ?thesis using Some by (simp add: mslice_def)
qed

lemma grouped_empty [simp]: "grouped [] [] W S X"
  by (simp add: grouped_def)

lemma grouped_inner: "grouped G rs W S X \<Longrightarrow> distinct (map fst (inner G w))"
  unfolding grouped_def inner_def by (cases "map_of G w") (auto dest: map_of_SomeD)

lemma set_update: "distinct (map fst m) \<Longrightarrow>
    (k, v) \<in> set (AList.update k' v' m) \<longleftrightarrow> (if k = k' then v = v' else (k, v) \<in> set m)"
proof -
  assume d: "distinct (map fst m)"
  have "(k, v) \<in> set (AList.update k' v' m) \<longleftrightarrow> map_of (AList.update k' v' m) k = Some v"
    using d by (simp only: map_of_eq_Some_iff distinct_update)
  also have "\<dots> \<longleftrightarrow> (if k = k' then v = v' else map_of m k = Some v)" by auto
  finally show ?thesis using d by (simp add: map_of_eq_Some_iff)
qed

lemma inner_update: "inner (AList.update w x G) w' = (if w' = w then x else inner G w')"
  by (simp add: inner_def)

lemma fst_update [simp]: "fst ` set (AList.update k v m) = insert k (fst ` set m)"
  using dom_update[of k v m] by simp

lemma fst_push2 [simp]: "fst ` set (push2 G w st x) = insert w (fst ` set G)"
  by (simp add: push2_def)

lemma grouped_ensure: assumes "grouped G rs W S X" shows "grouped (ensure G w) rs W S X"
proof (cases "map_of G w")
  case None
  then have "ensure G w = G @ [(w, [])]" "w \<notin> fst ` set G"
    by (simp_all add: ensure_def update_fresh map_of_eq_None_iff)
  moreover have "inner (ensure G w) = inner G" using None by (auto simp: fun_eq_iff ensure_def inner_def)
  ultimately show ?thesis using assms unfolding grouped_def by auto
qed (simp add: ensure_def assms)

lemma grouped_push2:
  assumes g: "grouped G rs W S X" and r: "W r = w" "S r = st" "X r = x"
  shows "grouped (push2 G w st x) (rs @ [r]) W S X"
proof -
  let ?new = "AList.update st (mslice (inner G w) st @ [x]) (inner G w)"
  have dG: "distinct (map fst G)" and di: "distinct (map fst (inner G w))"
    using g grouped_inner[OF g] by (simp_all add: grouped_def)
  have "distinct (map fst wk) \<and> (\<forall>(st', xs) \<in> set wk. xs \<noteq> [] \<and> xs = map X (filter (\<lambda>r. W r = w' \<and> S r = st') (rs @ [r])))"
    if mem: "(w', wk) \<in> set (push2 G w st x)" for w' wk
  proof (cases "w' = w")
    case True
    then have wk: "wk = ?new" using mem by (simp add: push2_def set_update[OF dG])
    have "xs \<noteq> [] \<and> xs = map X (filter (\<lambda>r. W r = w \<and> S r = st') (rs @ [r]))" if "(st', xs) \<in> set ?new" for st' xs
    proof (cases "st' = st")
      case True
      then show ?thesis using that r by (simp add: set_update[OF di] grouped_mslice[OF g])
    next
      case False
      then have "(st', xs) \<in> set (inner G w)" using that by (simp add: set_update[OF di])
      then have "mslice (inner G w) st' = xs" using di by (simp add: mslice_def map_of_eq_Some_iff[OF di, THEN iffD2])
      moreover have "xs \<noteq> []"
      proof -
        obtain wk' where "(w, wk') \<in> set G" "inner G w = wk'"
          using \<open>(st', xs) \<in> set (inner G w)\<close> by (cases "map_of G w") (auto simp: inner_def dest: map_of_SomeD)
        then show ?thesis using g \<open>(st', xs) \<in> set (inner G w)\<close> unfolding grouped_def by blast
      qed
      ultimately show ?thesis using r False by (simp add: grouped_mslice[OF g, symmetric])
    qed
    then show ?thesis using wk di True by auto
  next
    case False
    then have "(w', wk) \<in> set G" using mem by (simp add: push2_def set_update[OF dG])
    then show ?thesis using g False r unfolding grouped_def by auto
  qed
  moreover have "S q \<in> fst ` set (inner (push2 G w st x) (W q))" if "q \<in> set (rs @ [r])" for q
  proof -
    have "fst ` set ?new = insert st (fst ` set (inner G w))" using dom_update[of st _ "inner G w"] by simp
    moreover have "q \<in> set rs \<Longrightarrow> S q \<in> fst ` set (inner G (W q))" using g by (simp add: grouped_def)
    ultimately show ?thesis using that r by (cases "W q = w") (auto simp: push2_def inner_update)
  qed
  moreover have "distinct (map fst (push2 G w st x))" using dG by (simp add: push2_def)
  ultimately show ?thesis unfolding grouped_def by blast
qed

text \<open>The members of a group, found through the entries of the map.\<close>

lemma grouped_entry:
  assumes "grouped G rs W S X" "(w, wk) \<in> set G" "(st, xs) \<in> set wk"
  shows "xs = map X (filter (\<lambda>r. W r = w \<and> S r = st) rs)"
  using assms unfolding grouped_def by blast

lemma grouped_entry_req:
  assumes "grouped G rs W S X" "(w, wk) \<in> set G" "(st, xs) \<in> set wk"
  shows "\<exists>r \<in> set rs. W r = w \<and> S r = st"
proof -
  have "xs \<noteq> []" using assms unfolding grouped_def by blast
  then show ?thesis using grouped_entry[OF assms] by (auto simp: filter_empty_conv)
qed

lemma grouped_inner_entry: "grouped G rs W S X \<Longrightarrow> (w, wk) \<in> set G \<Longrightarrow> inner G w = wk"
  by (simp add: grouped_def inner_def)

lemma grouped_covers:
  assumes "grouped G rs W S X" "r \<in> set rs"
  shows "\<exists>wk xs. (W r, wk) \<in> set G \<and> (S r, xs) \<in> set wk"
proof -
  have "S r \<in> fst ` set (inner G (W r))" using assms by (simp add: grouped_def)
  moreover then obtain wk where "map_of G (W r) = Some wk" by (cases "map_of G (W r)") (auto simp: inner_def)
  ultimately show ?thesis by (intro exI[of _ wk]) (auto simp: inner_def dest: map_of_SomeD)
qed



section \<open>Gathering\<close>

text \<open>A result in which the cells of \<open>D\<close> are filled from \<open>F\<close> and the others are nil.\<close>

definition cells :: "(u16 \<Rightarrow> nat \<Rightarrow> bytes option) \<Rightarrow> (u16 \<times> nat) set \<Rightarrow> keysPerState \<Rightarrow> valsPerState" where
  "cells F D keys = map (\<lambda>(st, ks). (st, map (\<lambda>i. if (st, i) \<in> D then F st i else None) [0..<length ks])) keys"

lemma cells_empty: "emptyResult keys = cells F {} keys"
  by (simp add: emptyResult_def cells_def map_replicate_trivial)

lemma fst_cells: "map fst (cells F D keys) = map fst keys"
  by (induction keys) (auto simp: cells_def)

lemma cells_full:
  assumes "\<And>st ks i. (st, ks) \<in> set keys \<Longrightarrow> i < length ks \<Longrightarrow> (st, i) \<in> D"
  shows "cells F D keys = map (\<lambda>(st, ks). (st, map (F st) [0..<length ks])) keys"
  using assms by (auto simp: cells_def)

lemma mslice_cells:
  assumes "distinct (map fst keys)" "(st, ks) \<in> set keys"
  shows "mslice (cells F D keys) st = map (\<lambda>i. if (st, i) \<in> D then F st i else None) [0..<length ks]"
proof -
  have "(st, map (\<lambda>i. if (st, i) \<in> D then F st i else None) [0..<length ks]) \<in> set (cells F D keys)"
    using assms(2) by (force simp: cells_def)
  moreover have "distinct (map fst (cells F D keys))" using assms(1) by (simp only: fst_cells)
  ultimately show ?thesis by (simp add: mslice_def)
qed

lemma cells_insert:
  assumes d: "distinct (map fst keys)" and m: "(st, ks) \<in> set keys"
  shows "AList.update st ((mslice (cells F D keys) st)[j := F st j]) (cells F D keys) = cells F (insert (st, j) D) keys"
proof -
  let ?l = "(mslice (cells F D keys) st)[j := F st j]"
  have l: "?l = map (\<lambda>i. if (st, i) \<in> insert (st, j) D then F st i else None) [0..<length ks]"
    unfolding mslice_cells[OF assms] 
    by (rule nth_equalityI) (simp, case_tac "i = j", simp_all)
  have in': "st \<in> fst ` set (cells F D keys)" using m by (force simp: cells_def)
  have d': "distinct (map fst (cells F D keys))" using d by (simp only: fst_cells)
  have "ks' = ks" if "(st, ks') \<in> set keys" for ks' using that m d by (simp add: eq_key_imp_eq_value)
  then show ?thesis
    using update_map_other[OF in' d', of "\<lambda>_. ?l"] unfolding l by (auto simp: cells_def)
qed

text \<open>Writing the values of one group.\<close>

lemma writeCells:
  assumes d: "distinct (map fst keys)" and m: "(st, ks) \<in> set keys"
    and "\<And>i. i \<in> set idx \<Longrightarrow> i < length ks"
  shows "rfold (writeCell st idx) (cells F D keys) (enumerate 0 (map (F st) idx))
    = Inr (cells F (D \<union> Pair st ` set idx) keys)"
proof -
  have "rfold (writeCell st (pre @ idx)) (cells F D keys) (enumerate (length pre) (map (F st) idx))
    = Inr (cells F (D \<union> Pair st ` set idx) keys)" for pre
    using assms(3)
  proof (induction idx arbitrary: pre D)
    case (Cons i idx)
    have i: "i < length (mslice (cells F D keys) st)" using Cons.prems mslice_cells[OF d m] by simp
    have "writeCell st (pre @ i # idx) (cells F D keys) (length pre, F st i) = Inr (cells F (insert (st, i) D) keys)"
      using i by (simp add: writeCell_def slice_simps cells_insert[OF d m])
    then show ?case
      using Cons.IH[where pre = "pre @ [i]" and D = "insert (st, i) D"] Cons.prems by simp
  qed simp
  from this[of "[]"] show ?thesis by simp
qed

text \<open>Writing the groups of all workers: when every group holds the values of \<open>F\<close> at the positions
  that \<open>idx\<close> tracks, and every position is tracked by some group, the result is \<open>F\<close>.\<close>

definition groupOk :: "keysPerState \<Rightarrow> (u16 \<Rightarrow> nat \<Rightarrow> bytes option) \<Rightarrow> (u16 \<Rightarrow> u16 \<Rightarrow> nat list) \<Rightarrow>
    u16 \<times> valsPerState \<Rightarrow> bool" where
  "groupOk keys F idx g \<longleftrightarrow> (\<forall>(st, vs) \<in> set (snd g). vs = map (F st) (idx (fst g) st)
      \<and> (\<exists>ks. (st, ks) \<in> set keys \<and> (\<forall>i \<in> set (idx (fst g) st). i < length ks)))"

lemma gather_states:
  assumes "distinct (map fst keys)"
    and "\<forall>(st, vs) \<in> set wr. vs = map (F st) (idx st)
          \<and> (\<exists>ks. (st, ks) \<in> set keys \<and> (\<forall>i \<in> set (idx st). i < length ks))"
  shows "rfold (\<lambda>res (st, values). rfold (writeCell st (idx st)) res (enumerate 0 values)) (cells F D keys) wr
    = Inr (cells F (D \<union> {(st, i). st \<in> fst ` set wr \<and> i \<in> set (idx st)}) keys)"
  using assms(2)
proof (induction wr arbitrary: D)
  case (Cons x wr)
  obtain st vs where x: "x = (st, vs)" by (cases x)
  obtain ks where "vs = map (F st) (idx st)" "(st, ks) \<in> set keys" "\<forall>i \<in> set (idx st). i < length ks"
    using Cons.prems x by auto
  then have "rfold (writeCell st (idx st)) (cells F D keys) (enumerate 0 vs) = Inr (cells F (D \<union> Pair st ` set (idx st)) keys)"
    using writeCells[OF assms(1)] by simp
  moreover have "D \<union> Pair st ` set (idx st) \<union> {(st, i). st \<in> fst ` set wr \<and> i \<in> set (idx st)}
    = D \<union> {(st, i). st \<in> fst ` set (x # wr) \<and> i \<in> set (idx st)}" by (auto simp: x)
  ultimately show ?case using Cons.IH[of "D \<union> Pair st ` set (idx st)"] Cons.prems x by simp
qed simp

lemma gather_workers:
  assumes "distinct (map fst keys)" "\<forall>g \<in> set rw. groupOk keys F idx g"
  shows "rfold (\<lambda>res (w, wr). rfold (\<lambda>res (st, values). rfold (writeCell st (idx w st)) res (enumerate 0 values)) res wr)
      (cells F D keys) rw
    = Inr (cells F (D \<union> {(st, i). \<exists>(w, wr) \<in> set rw. st \<in> fst ` set wr \<and> i \<in> set (idx w st)}) keys)"
  using assms(2)
proof (induction rw arbitrary: D)
  case (Cons x rw)
  obtain w wr where x: "x = (w, wr)" by (cases x)
  let ?D = "D \<union> {(st, i). st \<in> fst ` set wr \<and> i \<in> set (idx w st)}"
  have "rfold (\<lambda>res (st, values). rfold (writeCell st (idx w st)) res (enumerate 0 values)) (cells F D keys) wr
    = Inr (cells F ?D keys)"
    by (rule gather_states[OF assms(1)]) (use Cons.prems x in \<open>auto simp: groupOk_def\<close>)
  moreover have "?D \<union> {(st, i). \<exists>(w, wr) \<in> set rw. st \<in> fst ` set wr \<and> i \<in> set (idx w st)}
    = D \<union> {(st, i). \<exists>(w, wr) \<in> set (x # rw). st \<in> fst ` set wr \<and> i \<in> set (idx w st)}"
    by (auto simp: x)
  ultimately show ?case using Cons.IH[of ?D] Cons.prems x by simp
qed simp

lemma gather_all:
  assumes "distinct (map fst keys)" "\<forall>g \<in> set rw. groupOk keys F idx g"
    and "\<And>st ks i. (st, ks) \<in> set keys \<Longrightarrow> i < length ks \<Longrightarrow>
           \<exists>(w, wr) \<in> set rw. st \<in> fst ` set wr \<and> i \<in> set (idx w st)"
  shows "rfold (\<lambda>res (w, wr). rfold (\<lambda>res (st, values). rfold (writeCell st (idx w st)) res (enumerate 0 values)) res wr)
      (emptyResult keys) rw
    = Inr (map (\<lambda>(st, ks). (st, map (F st) [0..<length ks])) keys)"
proof -
  have "cells F ({} \<union> {(st, i). \<exists>(w, wr) \<in> set rw. st \<in> fst ` set wr \<and> i \<in> set (idx w st)}) keys
    = map (\<lambda>(st, ks). (st, map (F st) [0..<length ks])) keys"
    by (rule cells_full) (use assms(3) in blast)
  then show ?thesis unfolding cells_empty[where F = F] gather_workers[OF assms(1, 2)] by simp
qed



section \<open>Requests, state by state\<close>

definition reqState :: "nat \<times> u16 \<times> skey \<Rightarrow> u16" where "reqState r = fst (snd r)"

definition reqKey :: "nat \<times> u16 \<times> skey \<Rightarrow> skey" where "reqKey r = snd (snd r)"

definition stateReqs :: "keysPerState \<Rightarrow> (nat \<times> u16 \<times> skey) list" where
  "stateReqs keys = concat (map (\<lambda>(st, ks). map (\<lambda>(i, k). (i, st, k)) (enumerate 0 ks)) keys)"

lemma rfold_map: "rfold f s (map g xs) = rfold (\<lambda>s x. f s (g x)) s xs"
  by (induction xs arbitrary: s) auto

lemma rfold_stateReqs:
  "rfold (\<lambda>acc (st, ks). rfold (f st) acc (enumerate 0 ks)) acc keys
    = rfold (\<lambda>acc (i, st, k). f st acc (i, k)) acc (stateReqs keys)"
  by (induction keys arbitrary: acc) (auto simp: stateReqs_def rfold_append rfold_map split_beta)

lemma stateReqs_iff: "(i, st, k) \<in> set (stateReqs keys) \<longleftrightarrow> (\<exists>ks. (st, ks) \<in> set keys \<and> i < length ks \<and> k = ks ! i)"
  by (force simp: stateReqs_def in_set_enumerate_eq)

lemma reqKeys: "map reqKey (stateReqs keys) = concat (map snd keys)"
proof (induction keys)
  case (Cons x keys)
  have "map reqKey (map (\<lambda>(i, k). (i, fst x, k)) (enumerate 0 (snd x))) = map snd (enumerate 0 (snd x))"
    by (simp add: reqKey_def comp_def split_beta)
  then show ?case using Cons by (simp add: stateReqs_def split_beta)
qed (simp add: stateReqs_def)

text \<open>Grouping a list of requests in one pass, one or two values at a time.\<close>

lemma group_fold:
  assumes "\<And>A r. r \<in> set rs \<Longrightarrow> f A r = Inr (push2 A (W r) (S r) (X r))" "grouped A pre W S X"
  shows "\<exists>A'. rfold f A rs = Inr A' \<and> grouped A' (pre @ rs) W S X \<and> fst ` set A' = fst ` set A \<union> W ` set rs"
  using assms
proof (induction rs arbitrary: A pre)
  case (Cons r rs)
  have "grouped (push2 A (W r) (S r) (X r)) (pre @ [r]) W S X" by (rule grouped_push2[OF Cons.prems(2)]) simp_all
  from Cons.IH[OF _ this] Cons.prems(1) obtain A' where
    "rfold f (push2 A (W r) (S r) (X r)) rs = Inr A'" "grouped A' (pre @ [r] @ rs) W S X"
    "fst ` set A' = insert (W r) (fst ` set A) \<union> W ` set rs" by auto
  then show ?case using Cons.prems(1) by (intro exI[of _ A']) auto
qed simp

lemma group_fold2:
  assumes "\<And>A B r. r \<in> set rs \<Longrightarrow> f (A, B) r = Inr (push2 A (W r) (S r) (X r), push2 B (W r) (S r) (Y r))"
    and "grouped A pre W S X" "grouped B pre W S Y"
  shows "\<exists>A' B'. rfold f (A, B) rs = Inr (A', B') \<and> grouped A' (pre @ rs) W S X \<and> grouped B' (pre @ rs) W S Y
    \<and> fst ` set A' = fst ` set A \<union> W ` set rs"
  using assms
proof (induction rs arbitrary: A B pre)
  case (Cons r rs)
  have "grouped (push2 A (W r) (S r) (X r)) (pre @ [r]) W S X" "grouped (push2 B (W r) (S r) (Y r)) (pre @ [r]) W S Y"
    by (rule grouped_push2[OF Cons.prems(2)] grouped_push2[OF Cons.prems(3)]; simp)+
  from Cons.IH[OF _ this] Cons.prems(1) obtain A' B' where
    "rfold f (push2 A (W r) (S r) (X r), push2 B (W r) (S r) (Y r)) rs = Inr (A', B')"
    "grouped A' (pre @ [r] @ rs) W S X" "grouped B' (pre @ [r] @ rs) W S Y"
    "fst ` set A' = insert (W r) (fst ` set A) \<union> W ` set rs" by auto
  then show ?case using Cons.prems(1) by (intro exI[of _ A'] exI[of _ B']) auto
qed simp

text \<open>Two groupings of the same requests have their values at the same places.\<close>

lemma grouped_pair:
  assumes "grouped G rs W S X" "grouped H rs W S (\<lambda>r. v (X r))" "(w, wk) \<in> set G" "(st, xs) \<in> set wk"
  shows "map_of (inner H w) st = Some (map v xs)"
proof -
  have xs: "xs = map X (filter (\<lambda>r. W r = w \<and> S r = st) rs)" by (rule grouped_entry[OF assms(1, 3, 4)])
  have ne: "xs \<noteq> []" using assms(1, 3, 4) unfolding grouped_def by blast
  have "mslice (inner H w) st = map v xs" using grouped_mslice[OF assms(2), of w st] xs by simp
  then show ?thesis using ne by (cases "map_of (inner H w) st") (auto simp: mslice_def)
qed


section \<open>Writes\<close>

text \<open>A write changes the values of some keys, each by a function of its old value.\<close>

definition applyTo :: "(skey \<Rightarrow> bytes option \<Rightarrow> bytes option) \<Rightarrow> skey set \<Rightarrow> store \<Rightarrow> store" where
  "applyTo p K m = (\<lambda>k. if k \<in> K then p k (m k) else m k)"

definition onStore :: "(store \<Rightarrow> store) \<Rightarrow> StateService \<Rightarrow> StateService" where
  "onStore f s = s\<lparr>Backend := f (Backend s)\<rparr>"

definition setTo :: "(skey \<Rightarrow> bytes option) \<Rightarrow> skey \<Rightarrow> bytes option \<Rightarrow> bytes option" where
  "setTo val k old = Some (nilToEmpty (val k))"

definition appendTo :: "(skey \<Rightarrow> bytes option) \<Rightarrow> skey \<Rightarrow> bytes option \<Rightarrow> bytes option" where
  "appendTo val k old = Some (nilToEmpty old @ nilToEmpty (val k))"

definition cleared :: "skey \<Rightarrow> bytes option \<Rightarrow> bytes option" where
  "cleared k old = None"

lemma onStore_simps [simp]: "Backend (onStore f s) = f (Backend s)" "StateLookupTable (onStore f s) = StateLookupTable s"
  "StateLookupTableV2 (onStore f s) = StateLookupTableV2 s" "svcWorkerID (onStore f s) = svcWorkerID s"
  "OperatorID (onStore f s) = OperatorID s"
  by (simp_all add: onStore_def)

lemma mem_look: "mem_Get m = m" by (simp add: mem_Get_def fun_eq_iff)

lemma assigned_map: "assigned ks (map v ks) k = (if k \<in> set ks then Some (v k) else None)"
proof (induction ks)
  case (Cons x ks)
  show ?case unfolding list.map assigned_Cons Cons.IH by auto
qed (simp add: assigned_def)

lemma SetMany_map: "mem_SetMany m (Some ks) (Some (map v ks)) = Inr (applyTo (setTo v) (set ks) m)"
  using mem.set_law[of ks "map v ks" m]
  by (auto simp: applyTo_def setTo_def assigned_map mem_look fun_eq_iff split: if_splits)

lemma MergeMany_map: "distinct ks \<Longrightarrow> mem_MergeMany m (Some ks) (Some (map v ks)) = Inr (applyTo (appendTo v) (set ks) m)"
  using mem.merge_law[of ks "map v ks" m]
  by (auto simp: applyTo_def appendTo_def assigned_map mem_look fun_eq_iff split: if_splits)

lemma DeleteMany_eq: "mem_DeleteMany m (Some ks) = Inr (applyTo cleared (set ks) m)"
  using mem.delete_law[of m ks] by (auto simp: applyTo_def cleared_def mem_look fun_eq_iff)

lemma nilToEmpty_idem [simp]: "nilToEmpty (Some (nilToEmpty v)) = nilToEmpty v" "nilToEmpty (Some b) = b"
  by (simp_all add: nilToEmpty_def)

lemma overWire_map: "overWire (map v ks) = map (\<lambda>k. Some (nilToEmpty (v k))) ks"
  by (simp add: overWire_def)

lemma setTo_wire: "setTo (\<lambda>k. Some (nilToEmpty (v k))) = setTo v" "appendTo (\<lambda>k. Some (nilToEmpty (v k))) = appendTo v"
  by (simp_all add: setTo_def appendTo_def fun_eq_iff)

text \<open>Writing the states of one worker one after the other; a key belongs to one state.\<close>

lemma apply_states:
  assumes "\<And>s st ks. (st, ks) \<in> set wk \<Longrightarrow> step s (st, ks) = Inr (onStore (applyTo p (set ks)) s)"
    and "distinct (map fst wk)" "\<And>st ks k. (st, ks) \<in> set wk \<Longrightarrow> k \<in> set ks \<Longrightarrow> sf k = st"
  shows "rfold step s wk = Inr (onStore (applyTo p (\<Union>(st, ks) \<in> set wk. set ks)) s)"
  using assms
proof (induction wk arbitrary: s)
  case Nil
  show ?case by (simp add: onStore_def applyTo_def)
next
  case (Cons x wk)
  obtain st ks where x: "x = (st, ks)" by (cases x)
  have "set ks \<inter> (\<Union>(st, ks) \<in> set wk. set ks) = {}"
  proof (rule ccontr)
    assume "set ks \<inter> (\<Union>(st, ks) \<in> set wk. set ks) \<noteq> {}"
    then obtain k st' ks' where "k \<in> set ks" "(st', ks') \<in> set wk" "k \<in> set ks'" by auto
    then have "st' = st" using Cons.prems(3)[of st ks k] Cons.prems(3)[of st' ks' k] x by simp
    then show False using Cons.prems(2) x \<open>(st', ks') \<in> set wk\<close> by force
  qed
  then have "onStore (applyTo p (\<Union>(st, ks) \<in> set wk. set ks)) (onStore (applyTo p (set ks)) s)
    = onStore (applyTo p (\<Union>(st, ks) \<in> set (x # wk). set ks)) s"
  proof -
    assume d: "set ks \<inter> (\<Union>(st, ks) \<in> set wk. set ks) = {}"
    have "applyTo p (\<Union>(st, ks) \<in> set wk. set ks) (applyTo p (set ks) m)
      = applyTo p (\<Union>(st, ks) \<in> set (x # wk). set ks) m" for m
      using d by (intro ext) (auto simp: applyTo_def x)
    then show ?thesis by (simp add: onStore_def)
  qed
  moreover have "rfold step (onStore (applyTo p (set ks)) s) wk
      = Inr (onStore (applyTo p (\<Union>(st, ks) \<in> set wk. set ks)) (onStore (applyTo p (set ks)) s))"
  proof (rule Cons.IH)
    show "step s' (st', ks') = Inr (onStore (applyTo p (set ks')) s')" if "(st', ks') \<in> set wk" for s' st' ks'
      using Cons.prems(1) that by simp
    show "sf k = st'" if "(st', ks') \<in> set wk" "k \<in> set ks'" for st' ks' k
      using Cons.prems(3)[of st' ks' k] that by simp
  qed (use Cons.prems(2) in simp)
  ultimately show ?case using Cons.prems(1)[of st ks s] x by simp
qed

text \<open>Writing to the workers one after the other.\<close>

lemma apply_workers:
  assumes "\<And>cl w wk s. (w, wk) \<in> set G \<Longrightarrow> cl w = Some s \<Longrightarrow> step cl (w, wk) = Inr (cl(w \<mapsto> g wk s))"
    and "distinct (map fst G)" "\<forall>w \<in> fst ` set G. cl w \<noteq> None"
  shows "rfold step cl G = Inr (\<lambda>w. case map_of G w of None \<Rightarrow> cl w | Some wk \<Rightarrow> map_option (g wk) (cl w))"
  using assms
proof (induction G arbitrary: cl)
  case (Cons x G)
  obtain w wk where x: "x = (w, wk)" by (cases x)
  obtain s where s: "cl w = Some s" using Cons.prems(3) x by auto
  have w: "w \<notin> fst ` set G" using Cons.prems(2) x by simp
  have "rfold step (cl(w \<mapsto> g wk s)) G
    = Inr (\<lambda>v. case map_of G v of None \<Rightarrow> (cl(w \<mapsto> g wk s)) v | Some wk' \<Rightarrow> map_option (g wk') ((cl(w \<mapsto> g wk s)) v))"
  proof (rule Cons.IH)
    show "step cl' (w', wk') = Inr (cl'(w' \<mapsto> g wk' s'))" if "(w', wk') \<in> set G" "cl' w' = Some s'" for cl' w' wk' s'
      using Cons.prems(1)[of w' wk' cl' s'] that by (simp del: fun_upd_apply)
    show "\<forall>w' \<in> fst ` set G. (cl(w \<mapsto> g wk s)) w' \<noteq> None" using Cons.prems(3) by simp
  qed (use Cons.prems(2) in simp)
  moreover have "step cl x = Inr (cl(w \<mapsto> g wk s))" using Cons.prems(1)[of w wk cl s] s x by (simp del: fun_upd_apply)
  moreover have "map_of G w = None" using w by (simp add: map_of_eq_None_iff)
  ultimately show ?case using s x by (auto simp: fun_eq_iff split: option.splits)
qed simp


section \<open>The keys, buckets and values of a request\<close>

definition requested :: "keysPerState \<Rightarrow> skey set" where
  "requested keys = set (concat (map snd keys))"

definition bucketsOf :: "(skey \<Rightarrow> int) \<Rightarrow> keysPerState \<Rightarrow> (u16, int list) gomap" where
  "bucketsOf bucketOf keys = map (\<lambda>(st, ks). (st, map bucketOf ks)) keys"

definition valuesOf :: "(skey \<Rightarrow> bytes option) \<Rightarrow> keysPerState \<Rightarrow> valsPerState" where
  "valuesOf val keys = map (\<lambda>(st, ks). (st, map val ks)) keys"

end
