(* ===== verification/Store_Contract.thy ===== *)
theory Store_Contract
  imports Request_Groups
begin

text \<open>
  What a state client relies on: the state service of its worker, with all the services it talks to, behaves
  as one map from encoded keys to bytes. An absent key and an empty value are not told apart, a read returns
  both as no bytes. The theories of the protocols show that their service keeps this contract, the theory of
  the client builds on it.
\<close>

definition request :: "keysPerState \<Rightarrow> bool" where
  "request keys \<longleftrightarrow> keys \<noteq> [] \<and> distinct (map fst keys) \<and> distinct (concat (map snd keys))"

text \<open>\<open>ready\<close>: the keys can be read. \<open>held\<close>: they have been read and can be changed. \<open>removable\<close>: the key may be
  deleted.\<close>

locale key_value_service =
  fixes api :: "'c stateApi" and opID :: u16 and bucketOf :: "skey \<Rightarrow> int"
    and content :: "'c \<Rightarrow> skey \<Rightarrow> bytes"
    and ready held :: "'c \<Rightarrow> skey set \<Rightarrow> bool" and removable :: "'c \<Rightarrow> skey \<Rightarrow> bool"
  assumes get: "request keys \<Longrightarrow> ready cl (requested keys) \<Longrightarrow> \<forall>(st, ks) \<in> set keys. map bucketOf ks = bs \<Longrightarrow>
      \<exists>cl' v. apiGetMany api cl opID keys bs = Inr (cl', valuesOf v keys)
        \<and> (\<forall>k \<in> requested keys. nilToEmpty (v k) = content cl k) \<and> content cl' = content cl
        \<and> held cl' (requested keys) \<and> (\<forall>k. removable cl k \<longrightarrow> removable cl' k)"
    and set: "request keys \<Longrightarrow> held cl K \<Longrightarrow> requested keys \<subseteq> K \<Longrightarrow>
      \<exists>cl'. apiSetMany api cl keys (valuesOf (\<lambda>k. Some (v k)) keys) (bucketsOf bucketOf keys) = Inr cl'
        \<and> content cl' = (\<lambda>k. if k \<in> requested keys then v k else content cl k)
        \<and> held cl' K \<and> (\<forall>k. removable cl k \<longrightarrow> removable cl' k)"
    and merge: "request keys \<Longrightarrow> held cl K \<Longrightarrow> requested keys \<subseteq> K \<Longrightarrow>
      \<exists>cl'. apiMergeMany api cl keys (valuesOf (\<lambda>k. Some (v k)) keys) (bucketsOf bucketOf keys) = Inr cl'
        \<and> content cl' = (\<lambda>k. if k \<in> requested keys then content cl k @ v k else content cl k)
        \<and> held cl' K \<and> (\<forall>k. removable cl k \<longrightarrow> removable cl' k)"
    and delete: "request keys \<Longrightarrow> held cl K \<Longrightarrow> requested keys \<subseteq> K \<Longrightarrow> \<forall>k \<in> requested keys. removable cl k \<Longrightarrow>
      \<exists>cl'. apiDeleteMany api cl keys (bucketsOf bucketOf keys) = Inr cl'
        \<and> content cl' = (\<lambda>k. if k \<in> requested keys then [] else content cl k) \<and> held cl' K"

end
