(* ===== verification/No_Migration.thy ===== *)
theory No_Migration
  imports Store_Contract
begin

text \<open>
  The protocol \<open>no-migration\<close>: the state stays where its bucket is, and every access goes to the
  owner of the bucket. The services of all workers together behave as one key-value map.
\<close>

section \<open>Where a value is\<close>

definition valueAt :: "cluster \<Rightarrow> u16 \<Rightarrow> skey \<Rightarrow> bytes option" where
  "valueAt cl w k = (case cl w of None \<Rightarrow> None | Some s \<Rightarrow> mem_Get (Backend s) k)"

text \<open>What worker \<open>me\<close> gets for a value that is on \<open>w\<close>: nil does not survive a call.\<close>

definition seenFrom :: "u16 \<Rightarrow> cluster \<Rightarrow> u16 \<Rightarrow> skey \<Rightarrow> bytes option" where
  "seenFrom me cl w k = (if w = me then valueAt cl w k else Some (nilToEmpty (valueAt cl w k)))"

lemma readLocalState_eq:
  assumes "distinct (map fst keys)"
  shows "readLocalState s keys = Inr (map (\<lambda>(st, ks). (st, map (mem_Get (Backend s)) ks)) keys)"
  using rfold_updates[of keys "\<lambda>values (stateID, ks).
       rbind (mem_GetMany (Backend s) (Some ks)) (\<lambda>vs. Inr (AList.update stateID vs values))"
      "\<lambda>st ks. map (mem_Get (Backend s)) ks" "[]"] assms
  by (simp add: readLocalState_def mem.get_law)

lemma remoteReadFromWorker_eq:
  assumes "distinct (map fst keys)" "cl w = Some r"
  shows "remoteReadFromWorker cl w keys
    = Inr (map (\<lambda>(st, ks). (st, map (\<lambda>k. Some (nilToEmpty (mem_Get (Backend r) k))) ks)) keys)"
  using rfold_updates[of keys "\<lambda>res (stateID, ks).
       rbind (RemoteRead r ks) (\<lambda>values.
       rbind (fatal_if (length values \<noteq> length ks) ''Invalid remote read response'') (\<lambda>_.
       Inr (AList.update stateID values res)))"
      "\<lambda>st ks. map (\<lambda>k. Some (nilToEmpty (mem_Get (Backend r) k))) ks" "[]"] assms
  by (simp add: remoteReadFromWorker_def peer_def RemoteRead_def mem.get_law overWire_def comp_def)

lemma readFrom_eq:
  assumes "distinct (map fst keys)" "cl w \<noteq> None"
  shows "readFrom cl me w keys = Inr (map (\<lambda>(st, ks). (st, map (seenFrom me cl w) ks)) keys)"
  using assms readLocalState_eq[OF assms(1)] remoteReadFromWorker_eq[OF assms(1)]
  by (auto simp: readFrom_def peer_def seenFrom_def valueAt_def fun_eq_iff)


section \<open>Splitting a read by bucket owner\<close>

lemma enumerate_0: "enumerate 0 xs = map (\<lambda>i. (i, xs ! i)) [0..<length xs]"
  by (rule nth_equalityI) (auto simp: nth_enumerate_eq)

text \<open>The requests in the order of the grouping: position by position, state by state.\<close>

definition rowReqs :: "keysPerState \<Rightarrow> nat \<Rightarrow> (nat \<times> u16 \<times> skey) list" where
  "rowReqs keys i = map (\<lambda>(st, ks). (i, st, ks ! i)) keys"

definition allReqs :: "keysPerState \<Rightarrow> nat \<Rightarrow> (nat \<times> u16 \<times> skey) list" where
  "allReqs keys n = concat (map (rowReqs keys) [0..<n])"

lemma push_row:
  assumes "grouped G rs W reqState reqKey" "\<forall>(st, ks) \<in> set keys. i < length ks"
    and "\<And>st k. W (i, st, k) = w"
  shows "\<exists>G'. rfold (\<lambda>g (st, keyList). rbind (at_idx keyList i) (\<lambda>key. Inr (push2 g w st key))) G keys = Inr G'
    \<and> grouped G' (rs @ rowReqs keys i) W reqState reqKey"
  using assms(1, 2)
proof (induction keys arbitrary: G rs)
  case (Cons x keys)
  obtain st ks where x: "x = (st, ks)" by (cases x)
  have "grouped (push2 G w st (ks ! i)) (rs @ [(i, st, ks ! i)]) W reqState reqKey"
    by (rule grouped_push2[OF Cons.prems(1)]) (simp_all add: assms(3) reqState_def reqKey_def)
  from Cons.IH[OF this] show ?case using Cons.prems(2) by (simp add: x rowReqs_def slice_simps)
qed (simp add: rowReqs_def)

lemma groupForRead_ok:
  assumes own: "\<forall>b \<in> set bs. kl_BucketIdxToWorkerID t b = Inr (own b)"
    and len: "\<forall>(st, ks) \<in> set keys. length ks = length bs"
  shows "\<exists>G T. groupForRead t keys bs = Inr (G, T)
    \<and> grouped G (allReqs keys (length bs)) (\<lambda>(i, _). own (bs ! i)) reqState reqKey
    \<and> (\<forall>w. mslice T w = filter (\<lambda>i. own (bs ! i) = w) [0..<length bs])
    \<and> fst ` set G \<subseteq> own ` set bs"
proof -
  let ?W = "\<lambda>(i, _ :: u16 \<times> skey). own (bs ! i)"
  have "\<exists>G T. rfold (\<lambda>s i. groupStep t keys s (i, bs ! i)) ([], []) [0..<n] = Inr (G, T)
    \<and> grouped G (allReqs keys n) ?W reqState reqKey
    \<and> (\<forall>w. mslice T w = filter (\<lambda>i. own (bs ! i) = w) [0..<n]) \<and> fst ` set G \<subseteq> own ` set bs"
    if "n \<le> length bs" for n
    using that
  proof (induction n)
    case 0
    show ?case by (simp add: allReqs_def mslice_def)
  next
    case (Suc n)
    then obtain G T where IH: "rfold (\<lambda>s i. groupStep t keys s (i, bs ! i)) ([], []) [0..<n] = Inr (G, T)"
      "grouped G (allReqs keys n) ?W reqState reqKey"
      "\<forall>w. mslice T w = filter (\<lambda>i. own (bs ! i) = w) [0..<n]" "fst ` set G \<subseteq> own ` set bs"
      by auto
    let ?w = "own (bs ! n)"
    have n: "\<forall>(st, ks) \<in> set keys. n < length ks" using len Suc.prems by auto
    obtain G' where G': "rfold (\<lambda>g (st, keyList). rbind (at_idx keyList n) (\<lambda>key. Inr (push2 g ?w st key)))
        (ensure G ?w) keys = Inr G'"
      "grouped G' (allReqs keys n @ rowReqs keys n) ?W reqState reqKey"
      using push_row[OF grouped_ensure[OF IH(2)], of keys n ?w ?w, OF n] by auto
    have in_bs: "bs ! n \<in> set bs" using Suc.prems by simp
    have "fst ` set G' \<subseteq> own ` set bs"
    proof (rule rfold_invariant[OF G'(1)])
      show "fst ` set (ensure G ?w) \<subseteq> own ` set bs"
        using IH(4) in_bs by (simp add: ensure_def)
    next
      fix g x g' assume "fst ` set g \<subseteq> own ` set bs"
        "(case x of (st, keyList) \<Rightarrow> rbind (at_idx keyList n) (\<lambda>key. Inr (push2 g ?w st key))) = Inr g'"
      moreover then obtain st key where "g' = push2 g ?w st key" by (cases x) (auto simp: rbind_eq_Inr)
      ultimately show "fst ` set g' \<subseteq> own ` set bs" using in_bs by simp
    qed
    moreover have "kl_BucketIdxToWorkerID t (bs ! n) = Inr ?w" using own in_bs by blast
    ultimately show ?case
      using IH G' by (auto simp: rfold_append groupStep_def allReqs_def)
  qed
  from this[of "length bs"] show ?thesis by (simp add: groupForRead_def enumerate_0 rfold_map)
qed


lemma filter_state:
  "distinct (map fst keys) \<Longrightarrow> (st, ks) \<in> set keys \<Longrightarrow> filter (\<lambda>x. fst x = st) keys = [(st, ks)]"
proof (induction keys)
  case (Cons x keys)
  show ?case
  proof (cases "fst x = st")
    case True
    then have "x = (st, ks)" "st \<notin> fst ` set keys" using Cons.prems by (auto simp: image_iff)
    then show ?thesis by (auto simp: filter_empty_conv image_iff)
  qed (use Cons in auto)
qed simp

lemma filter_allReqs:
  assumes "distinct (map fst keys)" "(st, ks) \<in> set keys"
  shows "filter (\<lambda>r. P (fst r) \<and> reqState r = st) (allReqs keys n) = map (\<lambda>i. (i, st, ks ! i)) (filter P [0..<n])"
proof (induction n)
  case (Suc n)
  have "filter (\<lambda>r. P (fst r) \<and> reqState r = st) (rowReqs keys n)
    = map (\<lambda>(st, ks). (n, st, ks ! n)) (filter (\<lambda>x. P n \<and> fst x = st) keys)"
    by (simp add: rowReqs_def filter_map comp_def reqState_def split_beta)
  also have "\<dots> = (if P n then [(n, st, ks ! n)] else [])" using filter_state[OF assms] by simp
  finally show ?case using Suc by (simp add: allReqs_def)
qed (simp add: allReqs_def)

text \<open>A read split by bucket owner returns, at every position, the value on the owner.\<close>

lemma remoteRead_eq:
  assumes ord: "range_order ord" and me: "cl me = Some s" and d: "distinct (map fst keys)"
    and own: "\<forall>b \<in> set bs. kl_BucketIdxToWorkerID (StateLookupTable s) b = Inr (own b) \<and> cl (own b) \<noteq> None"
    and len: "\<forall>(st, ks) \<in> set keys. length ks = length bs"
  shows "remoteRead ord cl me keys bs = Inr (map (\<lambda>(st, ks). (st, map2 (\<lambda>k b. seenFrom me cl (own b) k) ks bs)) keys)"
proof -
  let ?W = "\<lambda>(i, _ :: u16 \<times> skey). own (bs ! i)"
  have "\<forall>b \<in> set bs. kl_BucketIdxToWorkerID (StateLookupTable s) b = Inr (own b)" using own by blast
  then obtain G T where G: "groupForRead (StateLookupTable s) keys bs = Inr (G, T)"
    "grouped G (allReqs keys (length bs)) ?W reqState reqKey"
    "\<forall>w. mslice T w = filter (\<lambda>i. own (bs ! i) = w) [0..<length bs]"
    "fst ` set G \<subseteq> own ` set bs"
    using groupForRead_ok[OF _ len] by blast
  define F where "F st i = seenFrom me cl (own (bs ! i)) (mslice keys st ! i)" for st i
  let ?res = "map (\<lambda>(w, wk). (w, map (\<lambda>(st, ks). (st, map (seenFrom me cl w) ks)) wk)) (ord G)"
  have so: "set (ord G) = set G" using range_orderD(2)[OF ord] .
  have reads: "rfold (\<lambda>acc (w, wk). rbind (readFrom cl me w wk) (\<lambda>r. Inr (acc @ [(w, r)]))) [] (ord G) = Inr ?res"
  proof (subst rfold_snoc[where g = "\<lambda>(w, wk). (w, map (\<lambda>(st, ks). (st, map (seenFrom me cl w) ks)) wk)"])
    fix acc x assume x: "x \<in> set (ord G)"
    obtain w wk where xw: "x = (w, wk)" by (cases x)
    then have mem: "(w, wk) \<in> set G" using x so by simp
    then have "distinct (map fst wk)" using G(2) unfolding grouped_def by blast
    moreover have "cl w \<noteq> None" using G(4) mem own by force
    ultimately show "(case x of (w, wk) \<Rightarrow> rbind (readFrom cl me w wk) (\<lambda>r. Inr (acc @ [(w, r)])))
      = Inr (acc @ [case x of (w, wk) \<Rightarrow> (w, map (\<lambda>(st, ks). (st, map (seenFrom me cl w) ks)) wk)])"
      by (simp add: xw readFrom_eq)
  qed simp
  have entry: "\<exists>ks'. (st, ks') \<in> set keys \<and> ks = map ((!) ks') (mslice T w)"
    if mem: "(w, wk) \<in> set G" "(st, ks) \<in> set wk" for w wk st ks
  proof -
    have ks: "ks = map reqKey (filter (\<lambda>r. ?W r = w \<and> reqState r = st) (allReqs keys (length bs)))"
      using grouped_entry[OF G(2) mem] .
    obtain r where "r \<in> set (allReqs keys (length bs))" "reqState r = st"
      using grouped_entry_req[OF G(2) mem] by blast
    then obtain ks' where "(st, ks') \<in> set keys"
      by (auto simp: allReqs_def rowReqs_def reqState_def)
    then show ?thesis
      using filter_allReqs[OF d, of st ks' "\<lambda>i. own (bs ! i) = w" "length bs"] ks G(3)
      by (intro exI[of _ ks']) (simp add: split_beta reqKey_def comp_def)
  qed
  have lookup: "mslice keys st = ks" if "(st, ks) \<in> set keys" for st ks
    using that d by (simp add: mslice_def)
  have ok: "\<forall>g \<in> set ?res. groupOk keys F (\<lambda>w st. mslice T w) g"
  proof
    fix g assume "g \<in> set ?res"
    then obtain w wk where g: "(w, wk) \<in> set G" "g = (w, map (\<lambda>(st, ks). (st, map (seenFrom me cl w) ks)) wk)"
      using so by auto
    have "map (seenFrom me cl w) ks = map (F st) (mslice T w)
        \<and> (\<exists>ks. (st, ks) \<in> set keys \<and> (\<forall>i \<in> set (mslice T w). i < length ks))" if m: "(st, ks) \<in> set wk" for st ks
    proof -
      obtain ks' where ks': "(st, ks') \<in> set keys" "ks = map ((!) ks') (mslice T w)" using entry[OF g(1) m] by blast
      have "length ks' = length bs" using len ks'(1) by auto
      moreover have "map (seenFrom me cl w) ks = map (F st) (mslice T w)"
        using ks' G(3) by (auto simp: F_def lookup)
      ultimately show ?thesis using ks'(1) G(3) by (intro conjI exI[of _ ks']) auto
    qed
    then show "groupOk keys F (\<lambda>w st. mslice T w) g" unfolding g(2) groupOk_def by auto
  qed
  have cov: "\<exists>(w, wr) \<in> set ?res. st \<in> fst ` set wr \<and> i \<in> set (mslice T w)"
    if "(st, ks) \<in> set keys" "i < length ks" for st ks i
  proof -
    have i: "i < length bs" using that len by auto
    then have "(i, st, ks ! i) \<in> set (allReqs keys (length bs))"
      using that by (force simp: allReqs_def rowReqs_def)
    then obtain wk xs where "(own (bs ! i), wk) \<in> set G" "(st, xs) \<in> set wk"
      using grouped_covers[OF G(2), of "(i, st, ks ! i)"] by (auto simp: reqState_def)
    then show ?thesis
      using so G(3) i by (intro bexI[of _ "(own (bs ! i), map (\<lambda>(st, ks). (st, map (seenFrom me cl (own (bs ! i))) ks)) wk)"]) force+
  qed
  have "mergeResultsFromAllWorkers keys ?res T = Inr (map (\<lambda>(st, ks). (st, map (F st) [0..<length ks])) keys)"
    unfolding mergeResultsFromAllWorkers_def by (rule gather_all[OF d ok cov])
  moreover have "map (F st) [0..<length ks] = map2 (\<lambda>k b. seenFrom me cl (own b) k) ks bs" if "(st, ks) \<in> set keys" for st ks
    using that len by (intro nth_equalityI) (auto simp: F_def lookup)
  ultimately show ?thesis by (simp add: remoteRead_def peer_def me G(1) reads cong: map_cong) auto
qed



section \<open>Splitting a write by bucket owner\<close>

text \<open>The services as one map: the value of a key is the one on the owner of its bucket.\<close>

definition ownerMap :: "(int \<Rightarrow> u16) \<Rightarrow> (skey \<Rightarrow> int) \<Rightarrow> cluster \<Rightarrow> skey \<Rightarrow> bytes option" where
  "ownerMap own bucketOf cl k = valueAt cl (own (bucketOf k)) k"

lemma map_of_per_state:
  assumes "distinct (map fst keys)" "(st, ks) \<in> set keys"
  shows "map_of (map (\<lambda>(st, ks). (st, map f ks)) keys) st = Some (map f ks)"
proof -
  have "map fst (map (\<lambda>(st, ks). (st, map f ks)) keys) = map fst keys" by (induction keys) auto
  moreover have "(st, map f ks) \<in> set (map (\<lambda>(st, ks). (st, map f ks)) keys)" using assms(2) by force
  ultimately show ?thesis using assms(1) by (intro map_of_is_SomeI) (simp only:)
qed

lemma per_state_at:
  assumes "distinct (map fst keys)" "(i, st, k) \<in> set (stateReqs keys)"
  shows "at_idx (mslice (bucketsOf bucketOf keys) st) i = Inr (bucketOf k)"
    "map_of (valuesOf val keys) st = Some (map val (mslice keys st))"
    "at_idx (map val (mslice keys st)) i = Inr (val k)"
proof -
  obtain ks where ks: "(st, ks) \<in> set keys" "i < length ks" "k = ks ! i" using assms(2) by (auto simp: stateReqs_iff)
  have "mslice keys st = ks" using ks(1) assms(1) by (simp add: mslice_def)
  moreover have "mslice (bucketsOf bucketOf keys) st = map bucketOf ks"
    unfolding bucketsOf_def mslice_def map_of_per_state[OF assms(1) ks(1)] by simp
  ultimately show "at_idx (mslice (bucketsOf bucketOf keys) st) i = Inr (bucketOf k)"
    "map_of (valuesOf val keys) st = Some (map val (mslice keys st))"
    "at_idx (map val (mslice keys st)) i = Inr (val k)"
    using map_of_per_state[OF assms(1) ks(1)] ks(2, 3)
    by (simp_all add: valuesOf_def slice_simps)
qed

lemma order_distinct: "range_order ord \<Longrightarrow> distinct (map fst m) \<Longrightarrow> distinct (map fst (ord m))"
  using range_orderD(1)[of ord m] by (metis mset_map mset_eq_imp_distinct_iff)

lemma order_map_of: "range_order ord \<Longrightarrow> distinct (map fst m) \<Longrightarrow> map_of (ord m) = map_of m"
  using order_distinct[of ord m] range_orderD(2)[of ord m] by (intro map_of_inject_set[THEN iffD2]) auto

lemma req_keys: "reqKey ` set (stateReqs keys) = requested keys"
  by (metis list.set_map requested_def reqKeys)

lemma group_keys:
  assumes G: "grouped G (stateReqs keys) (\<lambda>r. f (reqKey r)) reqState reqKey" and w: "(w, wk) \<in> set G"
  shows "(\<Union>(st, ks) \<in> set wk. set ks) = {k \<in> requested keys. f k = w}"
proof (intro equalityI subsetI)
  fix k assume "k \<in> (\<Union>(st, ks) \<in> set wk. set ks)"
  then obtain st ks where ks: "(st, ks) \<in> set wk" "k \<in> set ks" by auto
  then obtain r where "r \<in> set (stateReqs keys)" "f (reqKey r) = w" "k = reqKey r"
    unfolding grouped_entry[OF G w ks(1)] by auto
  then show "k \<in> {k \<in> requested keys. f k = w}" using req_keys by blast
next
  fix k assume "k \<in> {k \<in> requested keys. f k = w}"
  then obtain r where r: "r \<in> set (stateReqs keys)" "reqKey r = k" "f k = w" unfolding req_keys[symmetric] by blast
  obtain wk' xs where wk': "(f k, wk') \<in> set G" "(reqState r, xs) \<in> set wk'"
    using grouped_covers[OF G r(1)] unfolding r(2) by blast
  have "wk' = wk" using grouped_inner_entry[OF G w] grouped_inner_entry[OF G wk'(1)] r(3) by simp
  moreover have "k \<in> set xs" unfolding grouped_entry[OF G wk'] using r by auto
  ultimately show "k \<in> (\<Union>(st, ks) \<in> set wk. set ks)" using wk'(2) by auto
qed

text \<open>When every worker's part of a write is applied on that worker, the write is applied to the map.\<close>

lemma split_write:
  assumes G: "grouped G (stateReqs keys) (\<lambda>r. own (bucketOf (reqKey r))) reqState reqKey"
    and fst: "fst ` set G = (\<lambda>r. own (bucketOf (reqKey r))) ` set (stateReqs keys)"
    and ord: "range_order ord"
    and con: "\<forall>k \<in> requested keys. cl (own (bucketOf k)) \<noteq> None"
    and step: "\<And>cl w wk s. (w, wk) \<in> set G \<Longrightarrow> cl w = Some s \<Longrightarrow>
        step cl (w, wk) = Inr (cl(w \<mapsto> onStore (applyTo p (\<Union>(st, ks) \<in> set wk. set ks)) s))"
  shows "\<exists>cl'. rfold step cl (ord G) = Inr cl'
    \<and> ownerMap own bucketOf cl' = applyTo p (requested keys) (ownerMap own bucketOf cl)
    \<and> (\<forall>w s. cl w = Some s \<longrightarrow> (\<exists>f. cl' w = Some (onStore f s)))"
proof -
  let ?W = "\<lambda>r. own (bucketOf (reqKey r))"
  let ?K = "\<lambda>wk :: keysPerState. \<Union>(st, ks) \<in> set wk. set ks"
  have dG: "distinct (map fst G)" using G by (simp add: grouped_def)
  note perm = range_orderD[OF ord] and dO = order_distinct[OF ord dG] and mo = order_map_of[OF ord dG]
  have con': "\<forall>w \<in> fst ` set (ord G). cl w \<noteq> None"
  proof
    fix w assume "w \<in> fst ` set (ord G)"
    then obtain r where "r \<in> set (stateReqs keys)" "w = ?W r" using fst perm(2) by auto
    then show "cl w \<noteq> None" using con req_keys by blast
  qed
  define cl' where "cl' = (\<lambda>w. case map_of G w of None \<Rightarrow> cl w | Some wk \<Rightarrow> map_option (onStore (applyTo p (?K wk))) (cl w))"
  have run: "rfold step cl (ord G) = Inr cl'"
    unfolding cl'_def mo[symmetric] by (rule apply_workers[OF _ dO con']) (use step perm(2) in auto)
  have mem: "k \<in> ?K wk \<longleftrightarrow> k \<in> requested keys \<and> own (bucketOf k) = w" if wk: "map_of G w = Some wk" for w wk k
    using group_keys[where f = "\<lambda>k. own (bucketOf k)", OF G map_of_SomeD[OF wk]] by auto
  have "ownerMap own bucketOf cl' k = applyTo p (requested keys) (ownerMap own bucketOf cl) k" for k
  proof (cases "k \<in> requested keys")
    case True
    then obtain r where r: "r \<in> set (stateReqs keys)" "reqKey r = k" unfolding req_keys[symmetric] by blast
    then have "own (bucketOf k) \<in> fst ` set G" using fst by auto
    then obtain wk where wk: "map_of G (own (bucketOf k)) = Some wk" by (metis map_of_eq_None_iff not_Some_eq)
    obtain s where "cl (own (bucketOf k)) = Some s" using con True by auto
    then show ?thesis using mem[OF wk, of k] True wk
      by (simp add: ownerMap_def valueAt_def cl'_def applyTo_def mem_look)
  next
    case False
    then show ?thesis using mem
      by (auto simp: ownerMap_def valueAt_def cl'_def applyTo_def mem_look split: option.splits)
  qed
  moreover have "\<exists>f. cl' w = Some (onStore f s)" if "cl w = Some s" for w s
  proof (cases "map_of G w")
    case None
    then show ?thesis using that by (intro exI[of _ "\<lambda>m. m"]) (simp add: cl'_def onStore_def)
  qed (use that in \<open>auto simp: cl'_def\<close>)
  ultimately show ?thesis using run by (intro exI[of _ cl'] conjI) auto
qed


lemma group_of_distinct_keys:
  assumes G: "grouped G (stateReqs keys) W reqState reqKey" and d: "distinct (concat (map snd keys))"
    and w: "(w, wk) \<in> set G"
  shows "(st, ks) \<in> set wk \<Longrightarrow> distinct ks"
    and "(\<And>s st ks. (st, ks) \<in> set wk \<Longrightarrow> step s (st, ks) = Inr (onStore (applyTo p (set ks)) s)) \<Longrightarrow>
       rfold step s wk = Inr (onStore (applyTo p (\<Union>(st, ks) \<in> set wk. set ks)) s)"
proof -
  have dr: "distinct (map reqKey (stateReqs keys))" using d by (simp only: reqKeys)
  show "distinct ks" if "(st, ks) \<in> set wk"
    unfolding grouped_entry[OF G w that] using dr by (simp add: distinct_map inj_on_def)
  assume step: "\<And>s st ks. (st, ks) \<in> set wk \<Longrightarrow> step s (st, ks) = Inr (onStore (applyTo p (set ks)) s)"
  have inj: "inj_on reqKey (set (stateReqs keys))" using dr by (simp add: distinct_map)
  show "rfold step s wk = Inr (onStore (applyTo p (\<Union>(st, ks) \<in> set wk. set ks)) s)"
  proof (rule apply_states[where sf = "\<lambda>k. reqState (inv_into (set (stateReqs keys)) reqKey k)", OF step])
    show "distinct (map fst wk)" using G w unfolding grouped_def by blast
    fix st ks k assume "(st, ks) \<in> set wk" "k \<in> set ks"
    then obtain r where "r \<in> set (stateReqs keys)" "reqState r = st" "k = reqKey r"
      using grouped_entry[OF G w] by force
    then show "reqState (inv_into (set (stateReqs keys)) reqKey k) = st" using inj by (simp add: inv_into_f_f)
  qed
qed

lemma remoteOverwriteToWorker_cases:
  "(if w = me then onLocal cl me (\<lambda>s. overwriteLocalState s wk vs) else remoteOverwriteToWorker cl w wk vs)
    = onLocal cl w (\<lambda>s. rfold (\<lambda>s (st, ks). case map_of vs st of
         Some vals \<Rightarrow> setBackend s (mem_SetMany (Backend s) (Some ks) (Some (if w = me then vals else overWire vals)))
       | None \<Rightarrow> Inl (Fatal (if w = me then ''Values for state ID not found'' else ''Missing values for state ID''))) s wk)"
  by (cases "w = me") (simp_all add: onLocal_def overwriteLocalState_def remoteOverwriteToWorker_def
      RemoteOverwrite_def cong: option.case_cong)

lemma remoteMergeToWorker_cases:
  "(if w = me then onLocal cl me (\<lambda>s. mergeLocalState s wk vs) else remoteMergeToWorker cl w wk vs)
    = onLocal cl w (\<lambda>s. rfold (\<lambda>s (st, ks). case map_of vs st of
         Some vals \<Rightarrow> setBackend s (mem_MergeMany (Backend s) (Some ks) (Some (if w = me then vals else overWire vals)))
       | None \<Rightarrow> Inl (Fatal (if w = me then ''Values for state ID not found'' else ''Missing values for state ID''))) s wk)"
  by (cases "w = me") (simp_all add: onLocal_def mergeLocalState_def remoteMergeToWorker_def
      RemoteMerge_def cong: option.case_cong)

lemma remoteDeleteFromWorker_cases:
  "(if w = me then onLocal cl me (\<lambda>s. deleteLocalState s wk) else remoteDeleteFromWorker cl w wk)
    = onLocal cl w (\<lambda>s. rfold (\<lambda>s (st, ks). setBackend s (mem_DeleteMany (Backend s) (Some ks))) s wk)"
  by (simp add: onLocal_def deleteLocalState_def remoteDeleteFromWorker_def RemoteDelete_def)

lemma setBackend_onStore: "setBackend s (Inr (f (Backend s))) = Inr (onStore f s)"
  by (simp add: setBackend_def onStore_def)

text \<open>Requests that the table of the worker can route and whose owners it is connected to.\<close>

definition routed :: "cluster \<Rightarrow> u16 \<Rightarrow> (int \<Rightarrow> u16) \<Rightarrow> (skey \<Rightarrow> int) \<Rightarrow> keysPerState \<Rightarrow> bool" where
  "routed cl me own bucketOf keys \<longleftrightarrow> distinct (map fst keys) \<and> distinct (concat (map snd keys))
     \<and> (\<exists>s. cl me = Some s
          \<and> (\<forall>k \<in> requested keys. kl_BucketIdxToWorkerID (StateLookupTable s) (bucketOf k) = Inr (own (bucketOf k))
                \<and> cl (own (bucketOf k)) \<noteq> None))"

lemma routedE:
  assumes "routed cl me own bucketOf keys"
  obtains s where "cl me = Some s" "distinct (map fst keys)" "distinct (concat (map snd keys))"
    "\<And>r. r \<in> set (stateReqs keys) \<Longrightarrow>
        kl_BucketIdxToWorkerID (StateLookupTable s) (bucketOf (reqKey r)) = Inr (own (bucketOf (reqKey r)))"
    "\<forall>k \<in> requested keys. cl (own (bucketOf k)) \<noteq> None"
proof -
  have "reqKey r \<in> requested keys" if "r \<in> set (stateReqs keys)" for r
    using that reqKeys[of keys] by (metis image_eqI list.set_map requested_def)
  then show thesis using assms that unfolding routed_def by blast
qed

lemma write_groups:
  assumes r: "routed cl me own bucketOf keys" and s: "cl me = Some s"
  shows "\<exists>G VG. groupKeysAndValuesByWorker (StateLookupTable s) keys (valuesOf val keys) (bucketsOf bucketOf keys) = Inr (G, VG)
    \<and> grouped G (stateReqs keys) (\<lambda>r. own (bucketOf (reqKey r))) reqState reqKey
    \<and> grouped VG (stateReqs keys) (\<lambda>r. own (bucketOf (reqKey r))) reqState (\<lambda>r. val (reqKey r))
    \<and> fst ` set G = (\<lambda>r. own (bucketOf (reqKey r))) ` set (stateReqs keys)"
proof -
  obtain s' where e: "cl me = Some s'" "distinct (map fst keys)" "\<And>r. r \<in> set (stateReqs keys) \<Longrightarrow>
      kl_BucketIdxToWorkerID (StateLookupTable s') (bucketOf (reqKey r)) = Inr (own (bucketOf (reqKey r)))"
    using routedE[OF r] by metis
  have "(\<lambda>(i, st, k). groupValueStep (StateLookupTable s) (valuesOf val keys) (bucketsOf bucketOf keys) st (A, B) (i, k)) q
    = Inr (push2 A (own (bucketOf (reqKey q))) (reqState q) (reqKey q),
           push2 B (own (bucketOf (reqKey q))) (reqState q) (val (reqKey q)))" if q: "q \<in> set (stateReqs keys)" for A B q
  proof -
    obtain i st k where q': "q = (i, st, k)" by (cases q)
    have "kl_BucketIdxToWorkerID (StateLookupTable s) (bucketOf k) = Inr (own (bucketOf k))"
      using e(3)[OF q] e(1) s by (simp add: reqKey_def q')
    then show ?thesis
      using per_state_at[OF e(2) q[unfolded q']] q'
      by (simp add: groupValueStep_def reqKey_def reqState_def)
  qed
  from group_fold2[where f = "\<lambda>acc (i, st, k). groupValueStep (StateLookupTable s) (valuesOf val keys) (bucketsOf bucketOf keys) st acc (i, k)",
      OF this grouped_empty grouped_empty]
  show ?thesis by (simp add: groupKeysAndValuesByWorker_def rfold_stateReqs)
qed



lemma onLocal_group:
  assumes "grouped G (stateReqs keys) W reqState reqKey" "distinct (concat (map snd keys))" "(w, wk) \<in> set G"
    and "cl w = Some s"
    and "\<And>s st ks. (st, ks) \<in> set wk \<Longrightarrow> distinct ks \<Longrightarrow> step s (st, ks) = Inr (onStore (applyTo p (set ks)) s)"
  shows "onLocal cl w (\<lambda>s. rfold step s wk) = Inr (cl(w \<mapsto> onStore (applyTo p (\<Union>(st, ks) \<in> set wk. set ks)) s))"
  using group_of_distinct_keys(2)[OF assms(1-3) assms(5)] group_of_distinct_keys(1)[OF assms(1-3)] assms(4)
  by (simp add: onLocal_def peer_def)

text \<open>A write of values, whichever of the two writes it is.\<close>

lemma split_value_write:
  assumes ord: "range_order ord" and r: "routed cl me own bucketOf keys" and s: "cl me = Some s"
    and many: "\<And>m ks v. distinct ks \<Longrightarrow> many m (Some ks) (Some (map v ks)) = Inr (applyTo (p v) (set ks) m)"
    and wire: "p (\<lambda>k. Some (nilToEmpty (val k))) = p val"
  shows "\<exists>G VG cl'. groupKeysAndValuesByWorker (StateLookupTable s) keys (valuesOf val keys) (bucketsOf bucketOf keys) = Inr (G, VG)
    \<and> rfold (\<lambda>cl (w, wk). onLocal cl w (\<lambda>s. rfold (\<lambda>s (st, ks). case map_of (inner VG w) st of
         Some vals \<Rightarrow> setBackend s (many (Backend s) (Some ks) (Some (if w = me then vals else overWire vals)))
       | None \<Rightarrow> Inl (Fatal (if w = me then ''Values for state ID not found'' else ''Missing values for state ID''))) s wk))
       cl (ord G) = Inr cl'
    \<and> ownerMap own bucketOf cl' = applyTo (p val) (requested keys) (ownerMap own bucketOf cl)
    \<and> (\<forall>w s. cl w = Some s \<longrightarrow> (\<exists>f. cl' w = Some (onStore f s)))"
proof -
  obtain s' where d: "distinct (concat (map snd keys))" and con: "\<forall>k \<in> requested keys. cl (own (bucketOf k)) \<noteq> None"
    using routedE[OF r] by metis
  obtain G VG where G: "groupKeysAndValuesByWorker (StateLookupTable s) keys (valuesOf val keys) (bucketsOf bucketOf keys) = Inr (G, VG)"
    "grouped G (stateReqs keys) (\<lambda>r. own (bucketOf (reqKey r))) reqState reqKey"
    "grouped VG (stateReqs keys) (\<lambda>r. own (bucketOf (reqKey r))) reqState (\<lambda>r. val (reqKey r))"
    "fst ` set G = (\<lambda>r. own (bucketOf (reqKey r))) ` set (stateReqs keys)"
    using write_groups[OF r s] by blast
  let ?step = "\<lambda>cl (w, wk). onLocal cl w (\<lambda>s. rfold (\<lambda>s (st, ks). case map_of (inner VG w) st of
         Some vals \<Rightarrow> setBackend s (many (Backend s) (Some ks) (Some (if w = me then vals else overWire vals)))
       | None \<Rightarrow> Inl (Fatal (if w = me then ''Values for state ID not found'' else ''Missing values for state ID''))) s wk)"
  have "?step cl (w, wk) = Inr (cl(w \<mapsto> onStore (applyTo (p val) (\<Union>(st, ks) \<in> set wk. set ks)) s))"
    if w: "(w, wk) \<in> set G" "cl w = Some s" for cl w wk s
    unfolding prod.case
  proof (rule onLocal_group[where cl = cl and w = w and s = s, OF G(2) d w])
    fix s st ks assume ks: "(st, ks) \<in> set wk" "distinct ks"
    then have "map_of (inner VG w) st = Some (map val ks)" using grouped_pair[OF G(2, 3) w(1)] by simp
    then show "(case (st, ks) of (st, ks) \<Rightarrow> case map_of (inner VG w) st of
         Some vals \<Rightarrow> setBackend s (many (Backend s) (Some ks) (Some (if w = me then vals else overWire vals)))
       | None \<Rightarrow> Inl (Fatal (if w = me then ''Values for state ID not found'' else ''Missing values for state ID'')))
       = Inr (onStore (applyTo (p val) (set ks)) s)"
      using many[OF ks(2)] by (simp add: overWire_map setBackend_onStore wire)
  qed
  from split_write[OF G(2, 4) ord con this] show ?thesis using G(1) by blast
qed

lemma remoteOverwrite_ok:
  assumes "range_order ord" "routed cl me own bucketOf keys"
  shows "\<exists>cl'. remoteOverwrite ord cl me keys (valuesOf val keys) (bucketsOf bucketOf keys) = Inr cl'
    \<and> ownerMap own bucketOf cl' = applyTo (setTo val) (requested keys) (ownerMap own bucketOf cl)
    \<and> (\<forall>w s. cl w = Some s \<longrightarrow> (\<exists>f. cl' w = Some (onStore f s)))"
proof -
  obtain s where s: "cl me = Some s" using routedE[OF assms(2)] by metis
  show ?thesis
    using split_value_write[OF assms s, where many = mem_SetMany and p = setTo and val = val, OF SetMany_map setTo_wire(1)]
    by (fastforce simp: remoteOverwrite_def s peer_def remoteOverwriteToWorker_cases)
qed

lemma remoteMerge_ok:
  assumes "range_order ord" "routed cl me own bucketOf keys"
  shows "\<exists>cl'. remoteMerge ord cl me keys (valuesOf val keys) (bucketsOf bucketOf keys) = Inr cl'
    \<and> ownerMap own bucketOf cl' = applyTo (appendTo val) (requested keys) (ownerMap own bucketOf cl)
    \<and> (\<forall>w s. cl w = Some s \<longrightarrow> (\<exists>f. cl' w = Some (onStore f s)))"
proof -
  obtain s where s: "cl me = Some s" using routedE[OF assms(2)] by metis
  show ?thesis
    using split_value_write[OF assms s, where many = mem_MergeMany and p = appendTo and val = val, OF MergeMany_map setTo_wire(2)]
    by (fastforce simp: remoteMerge_def s peer_def remoteMergeToWorker_cases)
qed

lemma remoteDelete_ok:
  assumes ord: "range_order ord" and r: "routed cl me own bucketOf keys"
  shows "\<exists>cl'. remoteDelete ord cl me keys (bucketsOf bucketOf keys) = Inr cl'
    \<and> ownerMap own bucketOf cl' = applyTo cleared (requested keys) (ownerMap own bucketOf cl)
    \<and> (\<forall>w s. cl w = Some s \<longrightarrow> (\<exists>f. cl' w = Some (onStore f s)))"
proof -
  obtain s where s: "cl me = Some s" "distinct (map fst keys)" "distinct (concat (map snd keys))"
    "\<And>r. r \<in> set (stateReqs keys) \<Longrightarrow>
        kl_BucketIdxToWorkerID (StateLookupTable s) (bucketOf (reqKey r)) = Inr (own (bucketOf (reqKey r)))"
    "\<forall>k \<in> requested keys. cl (own (bucketOf k)) \<noteq> None"
    using routedE[OF r] by metis
  have step: "(\<lambda>(i, st, k). rbind (at_idx (mslice (bucketsOf bucketOf keys) st) i) (\<lambda>bucketID.
         rbind (kl_BucketIdxToWorkerID (StateLookupTable s) bucketID) (\<lambda>workerID. Inr (push2 A workerID st k)))) q
      = Inr (push2 A (own (bucketOf (reqKey q))) (reqState q) (reqKey q))" if q: "q \<in> set (stateReqs keys)" for A q
  proof -
    obtain i st k where q': "q = (i, st, k)" by (cases q)
    show ?thesis using per_state_at(1)[OF s(2) q[unfolded q']] s(4)[OF q] q' by (simp add: reqKey_def reqState_def)
  qed
  obtain G where G: "groupForDelete (StateLookupTable s) keys (bucketsOf bucketOf keys) = Inr G"
    "grouped G (stateReqs keys) (\<lambda>r. own (bucketOf (reqKey r))) reqState reqKey"
    "fst ` set G = (\<lambda>r. own (bucketOf (reqKey r))) ` set (stateReqs keys)"
    using group_fold[where rs = "stateReqs keys" and W = "\<lambda>r. own (bucketOf (reqKey r))" and S = reqState and X = reqKey,
        OF step grouped_empty]
    by (auto simp: groupForDelete_def rfold_stateReqs)
  have "(\<lambda>cl (w, wk). onLocal cl w (\<lambda>s. rfold (\<lambda>s (st, ks). setBackend s (mem_DeleteMany (Backend s) (Some ks))) s wk)) cl (w, wk)
      = Inr (cl(w \<mapsto> onStore (applyTo cleared (\<Union>(st, ks) \<in> set wk. set ks)) s))"
    if w: "(w, wk) \<in> set G" "cl w = Some s" for cl w wk s
    unfolding prod.case by (rule onLocal_group[where cl = cl and w = w and s = s, OF G(2) s(3) w]) (simp add: DeleteMany_eq setBackend_onStore)
  from split_write[OF G(2, 3) ord s(5) this] show ?thesis
    by (simp add: remoteDelete_def s(1) peer_def G(1) remoteDeleteFromWorker_cases)
qed



section \<open>The cluster as one map\<close>

definition noMigration :: "svcEnv \<Rightarrow> bool" where
  "noMigration e \<longleftrightarrow> ReconfigProtocol e = ''lazy'' \<and> LazyProtocolVersion e = ''no-migration'' \<and> range_order (ordW e)"

lemma noMigration_get:
  assumes e: "noMigration e" and r: "routed cl me own bucketOf keys" and ne: "keys \<noteq> []"
    and bs: "\<forall>(st, ks) \<in> set keys. map bucketOf ks = bs"
  shows "GetManyMultiState e cl me opID keys bs = Inr (cl, map (\<lambda>(st, ks). (st, map (\<lambda>k.
          if own (bucketOf k) = me then ownerMap own bucketOf cl k
          else Some (nilToEmpty (ownerMap own bucketOf cl k))) ks)) keys)"
proof -
  obtain s where s: "cl me = Some s" "distinct (map fst keys)" "\<forall>k \<in> requested keys.
      kl_BucketIdxToWorkerID (StateLookupTable s) (bucketOf k) = Inr (own (bucketOf k)) \<and> cl (own (bucketOf k)) \<noteq> None"
    using r unfolding routed_def by blast
  obtain st ks where "(st, ks) \<in> set keys" using ne by (cases keys) auto
  then have "bs = map bucketOf ks" "set ks \<subseteq> requested keys" using bs by (auto simp: requested_def)
  then have own: "\<forall>b \<in> set bs. kl_BucketIdxToWorkerID (StateLookupTable s) b = Inr (own b) \<and> cl (own b) \<noteq> None"
    using s(3) by auto
  have len: "\<forall>(st, ks) \<in> set keys. length ks = length bs" using bs by force
  have "map2 (\<lambda>k b. seenFrom me cl (own b) k) ks bs
    = map (\<lambda>k. if own (bucketOf k) = me then ownerMap own bucketOf cl k else Some (nilToEmpty (ownerMap own bucketOf cl k))) ks"
    if "(st, ks) \<in> set keys" for st ks
  proof -
    have "bs = map bucketOf ks" using bs that by auto
    then show ?thesis by (auto simp: seenFrom_def ownerMap_def zip_map2 map_zip_map2 intro!: nth_equalityI)
  qed
  then show ?thesis
    using remoteRead_eq[OF _ s(1, 2) own len, of "ordW e"] e by (auto simp: GetManyMultiState_def noMigration_def)
qed

text \<open>The service of \<open>no-migration\<close> keeps the contract of a key-value service, for the requests that the
  table of the worker can route.\<close>

definition served :: "u16 \<Rightarrow> (int \<Rightarrow> u16) \<Rightarrow> (skey \<Rightarrow> int) \<Rightarrow> cluster \<Rightarrow> skey set \<Rightarrow> bool" where
  "served me own bucketOf cl K \<longleftrightarrow> (\<exists>s. cl me = Some s
     \<and> (\<forall>k \<in> K. kl_BucketIdxToWorkerID (StateLookupTable s) (bucketOf k) = Inr (own (bucketOf k)) \<and> cl (own (bucketOf k)) \<noteq> None))"

lemma served_routed: "served me own bucketOf cl K \<Longrightarrow> request keys \<Longrightarrow> requested keys \<subseteq> K \<Longrightarrow> routed cl me own bucketOf keys"
  unfolding served_def routed_def request_def by blast

lemma served_kept:
  assumes "served me own bucketOf cl K" "\<forall>w s. cl w = Some s \<longrightarrow> (\<exists>f. cl' w = Some (onStore f s))"
  shows "served me own bucketOf cl' K"
proof -
  obtain s where s: "cl me = Some s" "\<forall>k \<in> K. kl_BucketIdxToWorkerID (StateLookupTable s) (bucketOf k) = Inr (own (bucketOf k))
      \<and> cl (own (bucketOf k)) \<noteq> None"
    using assms(1) unfolding served_def by blast
  obtain f where f: "cl' me = Some (onStore f s)" using assms(2) s(1) by blast
  have "StateLookupTable (onStore f s) = StateLookupTable s" by (simp add: onStore_def)
  moreover have "cl' (own (bucketOf k)) \<noteq> None" if "k \<in> K" for k using s(2) that assms(2) by fastforce
  ultimately show ?thesis using s(2) f unfolding served_def by auto
qed

locale no_migration_service =
  fixes e :: svcEnv
  assumes e: "noMigration e"

sublocale no_migration_service \<subseteq> nm: key_value_service "serviceApi e me" opID bucketOf
  "\<lambda>cl k. nilToEmpty (ownerMap own bucketOf cl k)" "served me own bucketOf" "served me own bucketOf" "\<lambda>_ _. True"
  for me opID own bucketOf
proof unfold_locales
  have ord: "range_order (ordW e)" using e by (simp add: noMigration_def)
  note api = serviceApi_def SetManyMultiState_def MergeManyMultiState_def svc_DeleteMany_def noMigration_def request_def
  fix keys cl K and v :: "skey \<Rightarrow> bytes"
  assume q: "request keys"
  {
    fix bs assume h: "served me own bucketOf cl (requested keys)" and bs: "\<forall>(st, ks) \<in> set keys. map bucketOf ks = bs"
    let ?v = "\<lambda>k. if own (bucketOf k) = me then ownerMap own bucketOf cl k else Some (nilToEmpty (ownerMap own bucketOf cl k))"
    have "apiGetMany (serviceApi e me) cl opID keys bs = Inr (cl, valuesOf ?v keys)"
      using noMigration_get[OF e served_routed[OF h q] _ bs] q by (simp add: api valuesOf_def)
    moreover have "\<forall>k. nilToEmpty (?v k) = nilToEmpty (ownerMap own bucketOf cl k)" by (simp add: nilToEmpty_def)
    ultimately show "\<exists>cl' v. apiGetMany (serviceApi e me) cl opID keys bs = Inr (cl', valuesOf v keys)
        \<and> (\<forall>k \<in> requested keys. nilToEmpty (v k) = nilToEmpty (ownerMap own bucketOf cl k))
        \<and> (\<lambda>k. nilToEmpty (ownerMap own bucketOf cl' k)) = (\<lambda>k. nilToEmpty (ownerMap own bucketOf cl k))
        \<and> served me own bucketOf cl' (requested keys) \<and> (\<forall>k. True \<longrightarrow> True)"
      using h by blast
  }
  assume h: "served me own bucketOf cl K" "requested keys \<subseteq> K"
  note r = served_routed[OF h(1) q h(2)]
  show "\<exists>cl'. apiSetMany (serviceApi e me) cl keys (valuesOf (\<lambda>k. Some (v k)) keys) (bucketsOf bucketOf keys) = Inr cl'
        \<and> (\<lambda>k. nilToEmpty (ownerMap own bucketOf cl' k)) = (\<lambda>k. if k \<in> requested keys then v k else nilToEmpty (ownerMap own bucketOf cl k))
        \<and> served me own bucketOf cl' K \<and> (\<forall>k. True \<longrightarrow> True)"
  proof -
    obtain cl' where c: "remoteOverwrite (ordW e) cl me keys (valuesOf (\<lambda>k. Some (v k)) keys) (bucketsOf bucketOf keys) = Inr cl'"
      "ownerMap own bucketOf cl' = applyTo (setTo (\<lambda>k. Some (v k))) (requested keys) (ownerMap own bucketOf cl)"
      "\<forall>w s. cl w = Some s \<longrightarrow> (\<exists>f. cl' w = Some (onStore f s))"
      using remoteOverwrite_ok[OF ord r] by blast
    show ?thesis using served_kept[OF h(1) c(3)] c(1) q e
      by (intro exI[of _ cl']) (auto simp: api c(2) applyTo_def setTo_def nilToEmpty_def)
  qed
  show "\<exists>cl'. apiMergeMany (serviceApi e me) cl keys (valuesOf (\<lambda>k. Some (v k)) keys) (bucketsOf bucketOf keys) = Inr cl'
        \<and> (\<lambda>k. nilToEmpty (ownerMap own bucketOf cl' k))
            = (\<lambda>k. if k \<in> requested keys then nilToEmpty (ownerMap own bucketOf cl k) @ v k else nilToEmpty (ownerMap own bucketOf cl k))
        \<and> served me own bucketOf cl' K \<and> (\<forall>k. True \<longrightarrow> True)"
  proof -
    obtain cl' where c: "remoteMerge (ordW e) cl me keys (valuesOf (\<lambda>k. Some (v k)) keys) (bucketsOf bucketOf keys) = Inr cl'"
      "ownerMap own bucketOf cl' = applyTo (appendTo (\<lambda>k. Some (v k))) (requested keys) (ownerMap own bucketOf cl)"
      "\<forall>w s. cl w = Some s \<longrightarrow> (\<exists>f. cl' w = Some (onStore f s))"
      using remoteMerge_ok[OF ord r] by blast
    show ?thesis using served_kept[OF h(1) c(3)] c(1) q e
      by (intro exI[of _ cl']) (auto simp: api c(2) applyTo_def appendTo_def nilToEmpty_def)
  qed
  show "\<exists>cl'. apiDeleteMany (serviceApi e me) cl keys (bucketsOf bucketOf keys) = Inr cl'
        \<and> (\<lambda>k. nilToEmpty (ownerMap own bucketOf cl' k)) = (\<lambda>k. if k \<in> requested keys then [] else nilToEmpty (ownerMap own bucketOf cl k))
        \<and> served me own bucketOf cl' K"
  proof -
    obtain cl' where c: "remoteDelete (ordW e) cl me keys (bucketsOf bucketOf keys) = Inr cl'"
      "ownerMap own bucketOf cl' = applyTo cleared (requested keys) (ownerMap own bucketOf cl)"
      "\<forall>w s. cl w = Some s \<longrightarrow> (\<exists>f. cl' w = Some (onStore f s))"
      using remoteDelete_ok[OF ord r] by blast
    show ?thesis using served_kept[OF h(1) c(3)] c(1) q e
      by (intro exI[of _ cl']) (auto simp: api c(2) applyTo_def cleared_def nilToEmpty_def)
  qed
qed

context no_migration_service
begin

lemma service:
  "key_value_service (serviceApi e me) opID bucketOf (\<lambda>cl k. nilToEmpty (ownerMap own bucketOf cl k))
     (served me own bucketOf) (served me own bucketOf) (\<lambda>_ _. True)"
  by unfold_locales

end

text \<open>The service with the workers contacted in the order of the request.\<close>

interpretation in_order: no_migration_service "e\<lparr>ReconfigProtocol := ''lazy'', LazyProtocolVersion := ''no-migration'', ordW := (\<lambda>m. m)\<rparr>" for e
  by unfold_locales (simp add: noMigration_def range_order_def)

text \<open>C13. Under \<open>no-migration\<close> the state services of all workers behave as one key-value map, in which
  the value of a key is the one on the owner of the key's bucket: for a request of any worker, over any
  states and keys, a write stores the values, a merge appends to them, a delete removes the keys, and no
  other key changes; a read returns, position by position, the values of the map (a nil value of another
  worker arrives as an empty one). This holds whatever the orders in which the workers are contacted, and
  none of these calls changes a lookup table.\<close>

theorem no_migration_one_map:
  assumes e: "noMigration e" and r: "routed cl me own bucketOf keys" and ne: "keys \<noteq> []"
  shows "(\<exists>cl'. SetManyMultiState e cl me keys (valuesOf val keys) (bucketsOf bucketOf keys) = Inr cl'
        \<and> ownerMap own bucketOf cl' = (\<lambda>k. if k \<in> requested keys then Some (nilToEmpty (val k)) else ownerMap own bucketOf cl k)
        \<and> (\<forall>w s. cl w = Some s \<longrightarrow> (\<exists>s'. cl' w = Some s' \<and> StateLookupTable s' = StateLookupTable s)))
    \<and> (\<exists>cl'. MergeManyMultiState e cl me keys (valuesOf val keys) (bucketsOf bucketOf keys) = Inr cl'
        \<and> ownerMap own bucketOf cl' = (\<lambda>k. if k \<in> requested keys
             then Some (nilToEmpty (ownerMap own bucketOf cl k) @ nilToEmpty (val k)) else ownerMap own bucketOf cl k)
        \<and> (\<forall>w s. cl w = Some s \<longrightarrow> (\<exists>s'. cl' w = Some s' \<and> StateLookupTable s' = StateLookupTable s)))
    \<and> (\<exists>cl'. svc_DeleteMany e cl me keys (bucketsOf bucketOf keys) = Inr cl'
        \<and> ownerMap own bucketOf cl' = (\<lambda>k. if k \<in> requested keys then None else ownerMap own bucketOf cl k)
        \<and> (\<forall>w s. cl w = Some s \<longrightarrow> (\<exists>s'. cl' w = Some s' \<and> StateLookupTable s' = StateLookupTable s)))
    \<and> (\<forall>bs. (\<forall>(st, ks) \<in> set keys. map bucketOf ks = bs) \<longrightarrow>
        GetManyMultiState e cl me opID keys bs = Inr (cl, map (\<lambda>(st, ks). (st, map (\<lambda>k.
          if own (bucketOf k) = me then ownerMap own bucketOf cl k
          else Some (nilToEmpty (ownerMap own bucketOf cl k))) ks)) keys))"
proof (intro conjI allI impI)
  have ord: "range_order (ordW e)" using e by (simp add: noMigration_def)
  note api = SetManyMultiState_def MergeManyMultiState_def svc_DeleteMany_def
  show "\<exists>cl'. SetManyMultiState e cl me keys (valuesOf val keys) (bucketsOf bucketOf keys) = Inr cl'
        \<and> ownerMap own bucketOf cl' = (\<lambda>k. if k \<in> requested keys then Some (nilToEmpty (val k)) else ownerMap own bucketOf cl k)
        \<and> (\<forall>w s. cl w = Some s \<longrightarrow> (\<exists>s'. cl' w = Some s' \<and> StateLookupTable s' = StateLookupTable s))"
    using remoteOverwrite_ok[OF ord r, of val] e ne
    by (fastforce simp: api noMigration_def applyTo_def setTo_def)
  show "\<exists>cl'. MergeManyMultiState e cl me keys (valuesOf val keys) (bucketsOf bucketOf keys) = Inr cl'
        \<and> ownerMap own bucketOf cl' = (\<lambda>k. if k \<in> requested keys
             then Some (nilToEmpty (ownerMap own bucketOf cl k) @ nilToEmpty (val k)) else ownerMap own bucketOf cl k)
        \<and> (\<forall>w s. cl w = Some s \<longrightarrow> (\<exists>s'. cl' w = Some s' \<and> StateLookupTable s' = StateLookupTable s))"
    using remoteMerge_ok[OF ord r, of val] e ne
    by (fastforce simp: api noMigration_def applyTo_def appendTo_def)
  show "\<exists>cl'. svc_DeleteMany e cl me keys (bucketsOf bucketOf keys) = Inr cl'
        \<and> ownerMap own bucketOf cl' = (\<lambda>k. if k \<in> requested keys then None else ownerMap own bucketOf cl k)
        \<and> (\<forall>w s. cl w = Some s \<longrightarrow> (\<exists>s'. cl' w = Some s' \<and> StateLookupTable s' = StateLookupTable s))"
    using remoteDelete_ok[OF ord r] e ne by (fastforce simp: api noMigration_def applyTo_def cleared_def)
qed (rule noMigration_get[OF e r ne])


text \<open>Two workers with a bucket each; worker 1 accesses a key of its own and one of worker 2.\<close>

definition pairService :: "u16 \<Rightarrow> store \<Rightarrow> StateService" where
  "pairService w m = \<lparr>OperatorID = 7, svcWorkerID = w, Backend = m,
     StateLookupTable = \<lparr>kl_H = (\<lambda>_. 0), kl_Buckets = [Some \<lparr>b_WorkerID = 1\<rparr>, Some \<lparr>b_WorkerID = 2\<rparr>]\<rparr>,
     StateLookupTableV2 = \<lparr>k2_H = (\<lambda>_. 0), k2_Buckets = [\<lparr>WorkerID = 1, KeyMap = Some []\<rparr>, \<lparr>WorkerID = 2, KeyMap = None\<rparr>]\<rparr>\<rparr>"

definition pairCluster :: cluster where
  "pairCluster = [1 \<mapsto> pairService 1 [[0] \<mapsto> [10]], 2 \<mapsto> pairService 2 [[1] \<mapsto> [20]]]"

definition pairEnv :: "string \<Rightarrow> svcEnv" where
  "pairEnv version = \<lparr>ReconfigProtocol = ''lazy'', LazyProtocolVersion = version, ordW = rev, ordB = rev,
     rangeQ = (\<lambda>_ _ _. []), chunkSenders = (\<lambda>_. NewStateChunkSender 100)\<rparr>"

theorem no_migration_one_map_witness:
  "(\<exists>cl'. SetManyMultiState (pairEnv ''no-migration'') pairCluster 1 [(5, [[0], [1]])]
        (valuesOf Some [(5, [[0], [1]])]) (bucketsOf (\<lambda>k. if k = [0] then 0 else 1) [(5, [[0], [1]])]) = Inr cl')
    \<and> GetManyMultiState (pairEnv ''no-migration'') pairCluster 1 7 [(5, [[0], [1]])] [0, 1]
        = Inr (pairCluster, [(5, [Some [10], Some [20]])])"
proof -
  let ?b = "\<lambda>k :: skey. if k = [0] then 0 else 1 :: int" and ?own = "\<lambda>b :: int. if b = 0 then 1 else 2 :: u16"
  let ?keys = "[(5, [[0], [1]])] :: keysPerState"
  have e: "noMigration (pairEnv ''no-migration'')" by (simp add: noMigration_def pairEnv_def range_order_def)
  have r: "routed pairCluster 1 ?own ?b ?keys"
    by (simp add: routed_def requested_def pairCluster_def pairService_def kl_BucketIdxToWorkerID_def at_idx_def)
  have v: "ownerMap ?own ?b pairCluster [0] = Some [10]" "ownerMap ?own ?b pairCluster [1] = Some [20]"
    by (simp_all add: ownerMap_def valueAt_def pairCluster_def pairService_def mem_Get_def)
  note T = no_migration_one_map[OF e r, where val = Some and opID = 7]
  have "GetManyMultiState (pairEnv ''no-migration'') pairCluster 1 7 ?keys [0, 1]
        = Inr (pairCluster, [(5, [Some [10], Some [20]])])"
    using T[THEN conjunct2, THEN conjunct2, THEN conjunct2, rule_format, of "[0, 1]"] v by (simp add: nilToEmpty_def)
  then show ?thesis using T by auto
qed

end
