(* ===== verification/Bucket_Migration.thy ===== *)
theory Bucket_Migration
  imports No_Migration
begin

text \<open>
  The protocols that move whole buckets: \<open>basic\<close>, which fetches the buckets of a request before it reads
  them locally, and \<open>optimized\<close>, which fetches the needed keys first and the rest of their buckets in the
  background. The range query of the backend and the chunk senders are parameters.
\<close>

section \<open>Entries of buckets\<close>

definition inBucket :: "u16 \<Rightarrow> int \<Rightarrow> skey \<Rightarrow> bool" where
  "inBucket op b k \<longleftrightarrow> (\<exists>w rest. k = storedKey op w rest \<and> uint w = b)"

text \<open>A store from which buckets can be sent: the range query works, the keys have the stored form and
  every entry fits into a chunk.\<close>

definition sendable :: "(store \<Rightarrow> bytes \<Rightarrow> bytes \<Rightarrow> (skey \<times> bytes) list) \<Rightarrow> nat \<Rightarrow> store \<Rightarrow> bool" where
  "sendable rq n m \<longleftrightarrow> range_query_ok (rq m) m \<and> (\<forall>k \<in> dom m. \<exists>op b rest. k = storedKey op b rest)
     \<and> (\<forall>k v. m k = Some v \<longrightarrow> length k + length v \<le> n)"

definition bucketEntries :: "(store \<Rightarrow> bytes \<Rightarrow> bytes \<Rightarrow> (skey \<times> bytes) list) \<Rightarrow> store \<Rightarrow> u16 \<Rightarrow> int list \<Rightarrow> (skey \<times> bytes) list" where
  "bucketEntries rq m op bs = concat (map (\<lambda>b. ReadLocalBucketRange (rq m) op b b) bs)"

definition bucketIdx :: "int \<Rightarrow> bool" where
  "bucketIdx b \<longleftrightarrow> 0 \<le> b \<and> b < MaxSupportedBuckets"

lemma bucketEntries_mem:
  assumes "sendable rq n m" "\<forall>b \<in> set bs. bucketIdx b"
  shows "(k, v) \<in> set (bucketEntries rq m op bs) \<longleftrightarrow> m k = Some v \<and> (\<exists>b \<in> set bs. inBucket op b k)"
proof -
  have one: "(k, v) \<in> set (ReadLocalBucketRange (rq m) op b b) \<longleftrightarrow> m k = Some v \<and> inBucket op b k" if "b \<in> set bs" for b
  proof -
    have "(k, v) \<in> set (ReadLocalBucketRange (rq m) op b b)
      \<longleftrightarrow> m k = Some v \<and> (\<exists>w rest. k = storedKey op w rest \<and> b \<le> uint w \<and> uint w \<le> b)"
      by (rule bucket_range_mem) (use assms that in \<open>auto simp: sendable_def bucketIdx_def\<close>)
    then show ?thesis by (auto simp: inBucket_def)
  qed
  then show ?thesis by (auto simp: bucketEntries_def)
qed

lemma storeAll_from:
  "\<forall>(k, v) \<in> set es. src k = Some v \<Longrightarrow> storeAll m es k = (if k \<in> fst ` set es then src k else m k)"
proof (induction es arbitrary: m)
  case (Cons e es)
  obtain k0 v0 where e: "e = (k0, v0)" by (cases e)
  then have src: "src k0 = Some v0" using Cons.prems by simp
  have "storeAll m (e # es) = storeAll (m(k0 \<mapsto> v0)) es" by (simp add: storeAll_def e)
  moreover have "storeAll (m(k0 \<mapsto> v0)) es k = (if k \<in> fst ` set es then src k else (m(k0 \<mapsto> v0)) k)"
    by (rule Cons.IH) (use Cons.prems in simp)
  ultimately show ?case by (cases "k = k0") (simp_all add: e src)
qed (simp add: storeAll_def)

text \<open>The store of the receiver after buckets arrived: what the sender has there replaces the own entries.\<close>

definition received :: "u16 \<Rightarrow> int set \<Rightarrow> store \<Rightarrow> store \<Rightarrow> store" where
  "received op B src m = (\<lambda>k. if (\<exists>b \<in> B. inBucket op b k) \<and> src k \<noteq> None then src k else m k)"

lemma storeAll_bucketEntries:
  assumes "sendable rq n src" "\<forall>b \<in> set bs. bucketIdx b"
  shows "storeAll m (bucketEntries rq src op bs) = received op (set bs) src m"
proof
  fix k
  let ?es = "bucketEntries rq src op bs"
  have mem: "(k, v) \<in> set ?es \<longleftrightarrow> src k = Some v \<and> (\<exists>b \<in> set bs. inBucket op b k)" for k v
    by (rule bucketEntries_mem[OF assms])
  have "k \<in> fst ` set ?es \<longleftrightarrow> (\<exists>v. (k, v) \<in> set ?es)" by force
  also have "\<dots> \<longleftrightarrow> (\<exists>b \<in> set bs. inBucket op b k) \<and> src k \<noteq> None" unfolding mem by blast
  finally have i: "k \<in> fst ` set ?es \<longleftrightarrow> (\<exists>b \<in> set bs. inBucket op b k) \<and> src k \<noteq> None" .
  have "\<forall>(k, v) \<in> set ?es. src k = Some v" using mem by blast
  from storeAll_from[OF this, of m k] show "storeAll m ?es k = received op (set bs) src m k"
    by (simp only: i received_def)
qed


section \<open>Sending buckets\<close>

lemma sendRecord_out: "sendRecord (s, out) e = (fst (sendRecord (s, []) e), out @ snd (sendRecord (s, []) e))"
  by (simp add: sendRecord_def Let_def)

lemma sendRecords_out: "foldl sendRecord (s, out) es = (fst (foldl sendRecord (s, []) es), out @ snd (foldl sendRecord (s, []) es))"
proof (induction es arbitrary: s out)
  case (Cons e es)
  obtain t o1 where t: "sendRecord (s, []) e = (t, o1)" by (cases "sendRecord (s, []) e")
  then have "sendRecord (s, out) e = (t, out @ o1)" using sendRecord_out[of s out e] by simp
  then show ?case using t Cons.IH[of t "out @ o1"] Cons.IH[of t o1] by simp
qed simp

lemma chunkSend_append:
  "chunkSend s (xs @ ys) = (fst (chunkSend (fst (chunkSend s xs)) ys), snd (chunkSend s xs) @ snd (chunkSend (fst (chunkSend s xs)) ys))"
  using sendRecords_out[of "fst (chunkSend s xs)" "snd (chunkSend s xs)" ys] by (simp add: chunkSend_def)

text \<open>A table that says of the buckets of \<open>B\<close> that \<open>w\<close> owns them, and of the others what \<open>t0\<close> says.\<close>

definition ownedBy :: "u16 \<Rightarrow> KeyLookupTable \<Rightarrow> int set \<Rightarrow> KeyLookupTable \<Rightarrow> bool" where
  "ownedBy w t0 B t \<longleftrightarrow> (\<forall>b. kl_BucketIdxToWorkerID t b = (if b \<in> B then Inr w else kl_BucketIdxToWorkerID t0 b))"

lemma change_ok:
  assumes "kl_BucketIdxToWorkerID t b = Inr v"
  shows "\<exists>t'. kl_ChangeBucketOwner t b w = Inr t'"
  using assms by (auto simp: kl_BucketIdxToWorkerID_def kl_ChangeBucketOwner_def rbind_eq_Inr fatal_if_eq_Inr)

lemma ownedBy_change:
  assumes "ownedBy w t0 B t" "kl_BucketIdxToWorkerID t0 b = Inr v"
  shows "\<exists>t'. kl_ChangeBucketOwner t b w = Inr t' \<and> ownedBy w t0 (insert b B) t'"
proof -
  have "\<exists>v. kl_BucketIdxToWorkerID t b = Inr v" using assms by (auto simp: ownedBy_def)
  then obtain t' where "kl_ChangeBucketOwner t b w = Inr t'" using change_ok by blast
  then show ?thesis using assms(1) kl_ChangeBucketOwner_lookup by (fastforce simp: ownedBy_def)
qed

lemma changeOwners_ok:
  assumes "\<forall>b \<in> set bs. \<exists>v. kl_BucketIdxToWorkerID t0 b = Inr v" "ownedBy w t0 B t"
  shows "\<exists>t'. changeOwners t w bs = Inr t' \<and> ownedBy w t0 (B \<union> set bs) t'"
  using assms unfolding changeOwners_def
proof (induction bs arbitrary: t B)
  case (Cons b bs)
  then obtain t1 where t1: "kl_ChangeBucketOwner t b w = Inr t1" "ownedBy w t0 (insert b B) t1"
    using ownedBy_change by (metis list.set_intros(1))
  from Cons.IH[OF _ t1(2)] Cons.prems(1) t1(1) show ?case by auto
qed simp

text \<open>The entries that a server sends for one bucket, with or without leaving out the keys already sent.\<close>

lemma send_buckets:
  assumes step: "\<And>r sender out b. step (r, sender, out) b =
      rbind (kl_BucketIdxToWorkerID (StateLookupTable r) b) (\<lambda>owner.
      rbind (fatal_if (owner \<noteq> svcWorkerID r) ''Requested bucket does not belong to the local worker'') (\<lambda>_.
      let (sender, msgs) = chunkSend sender (f (ReadLocalBucketRange (rq (Backend r)) (OperatorID r) b b)) in
      rbind (kl_ChangeBucketOwner (StateLookupTable r) b me) (\<lambda>table.
      Inr (r\<lparr>StateLookupTable := table\<rparr>, sender, out @ msgs))))"
    and own: "\<forall>b \<in> set bs. kl_BucketIdxToWorkerID t0 b = Inr (svcWorkerID r)" and d: "distinct bs"
    and t: "ownedBy me t0 B (StateLookupTable r)" "B \<inter> set bs = {}"
  shows "\<exists>t'. rfold step (r, sender, out) bs = Inr (r\<lparr>StateLookupTable := t'\<rparr>,
      fst (chunkSend sender (concat (map (\<lambda>b. f (ReadLocalBucketRange (rq (Backend r)) (OperatorID r) b b)) bs))),
      out @ snd (chunkSend sender (concat (map (\<lambda>b. f (ReadLocalBucketRange (rq (Backend r)) (OperatorID r) b b)) bs))))
    \<and> ownedBy me t0 (B \<union> set bs) t'"
  using own d t
proof (induction bs arbitrary: r sender out B)
  case Nil
  then show ?case by (intro exI[of _ "StateLookupTable r"]) (simp add: chunkSend_def)
next
  case (Cons b bs)
  let ?E = "\<lambda>b. f (ReadLocalBucketRange (rq (Backend r)) (OperatorID r) b b)"
  have look: "kl_BucketIdxToWorkerID (StateLookupTable r) b = Inr (svcWorkerID r)"
    using Cons.prems by (auto simp: ownedBy_def)
  obtain t1 where t1: "kl_ChangeBucketOwner (StateLookupTable r) b me = Inr t1" "ownedBy me t0 (insert b B) t1"
    using ownedBy_change[OF Cons.prems(3)] Cons.prems(1) by (meson list.set_intros(1))
  let ?r1 = "r\<lparr>StateLookupTable := t1\<rparr>"
  obtain s1 o1 where s1: "chunkSend sender (?E b) = (s1, o1)" by (cases "chunkSend sender (?E b)")
  have one: "step (r, sender, out) b = Inr (?r1, s1, out @ o1)"
    by (simp add: step look s1 t1(1) fatal_if_def)
  obtain t' where t': "rfold step (?r1, s1, out @ o1) bs = Inr (?r1\<lparr>StateLookupTable := t'\<rparr>,
      fst (chunkSend s1 (concat (map ?E bs))), (out @ o1) @ snd (chunkSend s1 (concat (map ?E bs))))"
    "ownedBy me t0 (insert b B \<union> set bs) t'"
    using Cons.IH[of ?r1 "insert b B" s1 "out @ o1"] Cons.prems t1(2) by auto
  show ?case
    using one t' s1 chunkSend_append[of sender "?E b" "concat (map ?E bs)"]
    by (intro exI[of _ t']) auto
qed



section \<open>Basic\<close>

text \<open>The buckets to ask for: every remote bucket once, grouped by owner.\<close>

definition bucketGroups :: "(int \<Rightarrow> u16) \<Rightarrow> u16 \<Rightarrow> int set \<Rightarrow> (u16, int list) gomap \<times> int list \<Rightarrow> bool" where
  "bucketGroups own me B acc \<longleftrightarrow> (let (G, R) = acc in distinct R \<and> set R = {b \<in> B. own b \<noteq> me}
     \<and> distinct (map fst G) \<and> fst ` set G = own ` set R \<and> (\<forall>w. mslice G w = filter (\<lambda>b. own b = w) R))"

lemma bucketGroups_step:
  assumes "kl_BucketIdxToWorkerID t b = Inr (own b)" "bucketGroups own me B acc"
  shows "\<exists>acc'. requestStep t me acc b = Inr acc' \<and> bucketGroups own me (insert b B) acc'"
proof -
  obtain G R where acc: "acc = (G, R)" by (cases acc)
  show ?thesis
  proof (cases "own b = me \<or> b \<in> set R")
    case True
    then have "requestStep t me acc b = Inr (G, R)" using assms(1) by (auto simp: requestStep_def acc)
    moreover have "{b' \<in> insert b B. own b' \<noteq> me} = {b' \<in> B. own b' \<noteq> me}"
      using True assms(2) by (auto simp: bucketGroups_def acc)
    ultimately show ?thesis using assms(2) by (simp add: bucketGroups_def acc)
  next
    case False
    then have "requestStep t me acc b = Inr (AList.update (own b) (mslice G (own b) @ [b]) G, R @ [b])"
      using assms(1) by (simp add: requestStep_def acc)
    then show ?thesis using assms(2) False by (auto simp: bucketGroups_def acc)
  qed
qed

lemma bucketGroups_all:
  assumes "\<forall>b \<in> set bs. kl_BucketIdxToWorkerID t b = Inr (own b)"
  shows "\<exists>acc'. rfold (requestStep t me) ([], []) bs = Inr acc' \<and> bucketGroups own me (set bs) acc'"
proof -
  have "\<exists>acc'. rfold (requestStep t me) acc bs = Inr acc' \<and> bucketGroups own me (B \<union> set bs) acc'"
    if "bucketGroups own me B acc" for acc B
    using assms that
  proof (induction bs arbitrary: acc B)
    case (Cons b bs)
    obtain a1 where a1: "requestStep t me acc b = Inr a1" "bucketGroups own me (insert b B) a1"
      using bucketGroups_step[OF _ Cons.prems(2)] Cons.prems(1) by (meson list.set_intros(1))
    from Cons.IH[OF _ a1(2)] Cons.prems(1) a1(1) show ?case by auto
  qed simp
  from this[of "{}" "([], [])"] show ?thesis by (simp add: bucketGroups_def mslice_def)
qed

text \<open>What a worker needs for asking another for buckets: the other's table says it owns them, it serves the
  operator, its store can be sent and the sender of the connection is between two requests.\<close>

definition servable :: "svcEnv \<Rightarrow> u16 \<Rightarrow> u16 \<Rightarrow> StateService \<Rightarrow> int set \<Rightarrow> bool" where
  "servable e op w r B \<longleftrightarrow> OperatorID r = op \<and> svcWorkerID r = w
     \<and> (\<forall>b \<in> B. kl_BucketIdxToWorkerID (StateLookupTable r) b = Inr w \<and> bucketIdx b)
     \<and> sendable (rangeQ e) (maxChunkSize (chunkSenders e w)) (Backend r)
     \<and> sender_ok (chunkSenders e w) \<and> entriesOf (curChunk (chunkSenders e w)) = []"

lemma sent_stream:
  assumes "servable e op w r B" "set es \<subseteq> {(k, v). Backend r k = Some v}"
  shows "\<exists>css. snd (chunkSend (chunkSenders e w) es) @ snd (chunkFlush (fst (chunkSend (chunkSenders e w) es)))
      = map Chunk css @ [EndOfStream] \<and> concat css = es \<and> (\<forall>cs \<in> set css. cs \<noteq> [])"
proof -
  have "\<forall>x \<in> set es. entrySize x \<le> maxChunkSize (chunkSenders e w)"
    using assms by (auto simp: servable_def sendable_def entrySize_def)
  then show ?thesis
    using chunk_stream[of "chunkSenders e w" es, OF _ _ _ surjective_pairing surjective_pairing] assms(1)
    by (fastforce simp: servable_def)
qed

lemma basic_from_worker:
  assumes w: "cl w = Some r" "cl me = Some s" "w \<noteq> me" and sv: "servable e op w r (set bs)" and d: "distinct bs"
  shows "\<exists>t'. migrateRemoteBucketsFromWorker (rangeQ e) (chunkSenders e) me op cl (w, bs)
      = Inr (cl(w \<mapsto> r\<lparr>StateLookupTable := t'\<rparr>, me \<mapsto> s\<lparr>Backend := received op (set bs) (Backend r) (Backend s)\<rparr>))
    \<and> ownedBy me (StateLookupTable r) (set bs) t'"
proof -
  let ?es = "bucketEntries (rangeQ e) (Backend r) op bs"
  have op: "OperatorID r = op" "svcWorkerID r = w" "\<forall>b \<in> set bs. bucketIdx b"
    and sb: "sendable (rangeQ e) (maxChunkSize (chunkSenders e w)) (Backend r)"
    using sv by (auto simp: servable_def)
  have own: "\<forall>b \<in> set bs. kl_BucketIdxToWorkerID (StateLookupTable r) b = Inr (svcWorkerID r)"
    using sv by (auto simp: servable_def)
  have "ownedBy me (StateLookupTable r) {} (StateLookupTable r)" by (simp add: ownedBy_def)
  from send_buckets[where f = "\<lambda>es. es" and rq = "rangeQ e" and step = "migrateBucketStep (rangeQ e) me"
      and sender = "chunkSenders e w" and out = "[]", OF _ own d this]
  obtain t' where t': "rfold (migrateBucketStep (rangeQ e) me) (r, chunkSenders e w, []) bs
      = Inr (r\<lparr>StateLookupTable := t'\<rparr>, fst (chunkSend (chunkSenders e w) ?es), snd (chunkSend (chunkSenders e w) ?es))"
    "ownedBy me (StateLookupTable r) (set bs) t'"
    by (auto simp: migrateBucketStep_def bucketEntries_def op)
  have "set ?es \<subseteq> {(k, v). Backend r k = Some v}" using bucketEntries_mem[OF sb op(3)] by auto
  from sent_stream[OF sv this] obtain css where
    css: "snd (chunkSend (chunkSenders e w) ?es) @ snd (chunkFlush (fst (chunkSend (chunkSenders e w) ?es)))
      = map Chunk css @ [EndOfStream]" "concat css = ?es" "\<forall>cs \<in> set css. cs \<noteq> []" by blast
  have recv: "receiveChunks (Backend s) (map Chunk css @ [EndOfStream]) = Inr (received op (set bs) (Backend r) (Backend s), [])"
    using receive_chunks[OF css(3), of "Backend s" "[]"] css(2) storeAll_bucketEntries[OF sb op(3)] by simp
  have "RemoteBucketMigration (rangeQ e) r (chunkSenders e w) op me bs
    = Inr (r\<lparr>StateLookupTable := t'\<rparr>, fst (chunkFlush (fst (chunkSend (chunkSenders e w) ?es))), map Chunk css @ [EndOfStream])"
    unfolding RemoteBucketMigration_def t'(1) css(1)[symmetric] by (simp add: op split_beta)
  then show ?thesis
    using t'(2) w recv by (intro exI[of _ t']) (simp add: migrateRemoteBucketsFromWorker_def peer_def onLocal_def)
qed


text \<open>The cluster after the buckets of \<open>D\<close> have moved to \<open>me\<close>.\<close>

definition fetched :: "u16 \<Rightarrow> (int \<Rightarrow> u16) \<Rightarrow> cluster \<Rightarrow> int set \<Rightarrow> store \<Rightarrow> store" where
  "fetched op own cl D m = (\<lambda>k. if \<exists>b \<in> D. inBucket op b k \<and> valueAt cl (own b) k \<noteq> None
     then valueAt cl (own (THE b. inBucket op b k)) k else m k)"

definition movedBuckets :: "u16 \<Rightarrow> u16 \<Rightarrow> (int \<Rightarrow> u16) \<Rightarrow> cluster \<Rightarrow> StateService \<Rightarrow> int set \<Rightarrow> cluster \<Rightarrow> bool" where
  "movedBuckets op me own cl s D cl' \<longleftrightarrow> cl' me = Some (s\<lparr>Backend := fetched op own cl D (Backend s)\<rparr>)
     \<and> (\<forall>w r. w \<noteq> me \<longrightarrow> cl w = Some r \<longrightarrow>
          (\<exists>t'. cl' w = Some (r\<lparr>StateLookupTable := t'\<rparr>) \<and> ownedBy me (StateLookupTable r) {b \<in> D. own b = w} t'
             \<and> (w \<notin> own ` D \<longrightarrow> t' = StateLookupTable r)))"

lemma inBucket_unique: "inBucket op b k \<Longrightarrow> inBucket op b' k \<Longrightarrow> b = b'"
  by (auto simp: inBucket_def storedKey_inject)

lemma inBucket_the: "inBucket op b k \<Longrightarrow> (THE b. inBucket op b k) = b"
  using inBucket_unique by blast

lemma fetched_union:
  assumes "set l \<subseteq> {b. own b = w}" "cl w = Some r"
  shows "received op (set l) (Backend r) (fetched op own cl D m) = fetched op own cl (D \<union> set l) m"
proof
  fix k
  show "received op (set l) (Backend r) (fetched op own cl D m) k = fetched op own cl (D \<union> set l) m k"
  proof (cases "\<exists>b. inBucket op b k")
    case True
    then obtain b where b: "inBucket op b k" by blast
    have u: "(\<exists>b' \<in> X. inBucket op b' k \<and> P b') \<longleftrightarrow> b \<in> X \<and> P b" for X P using b inBucket_unique by blast
    have u': "(\<exists>b' \<in> X. inBucket op b' k) \<longleftrightarrow> b \<in> X" for X using b inBucket_unique by blast
    have "b \<in> set l \<Longrightarrow> own b = w" using assms(1) by blast
    then show ?thesis
      using assms(2) by (auto simp: received_def fetched_def u u' inBucket_the[OF b] valueAt_def mem_look)
  qed (auto simp: received_def fetched_def)
qed

lemma basic_workers:
  assumes "distinct (map fst G)" "\<forall>w \<in> fst ` set G. w \<notin> own ` D" "movedBuckets op me own cl0 s D cl"
    and "\<forall>(w, l) \<in> set G. w \<noteq> me \<and> distinct l \<and> l \<noteq> [] \<and> set l \<subseteq> {b. own b = w} \<and> (\<exists>r. cl0 w = Some r \<and> servable e op w r (set l))"
  shows "\<exists>cl'. rfold (migrateRemoteBucketsFromWorker (rangeQ e) (chunkSenders e) me op) cl G = Inr cl'
    \<and> movedBuckets op me own cl0 s (D \<union> (\<Union>(w, l) \<in> set G. set l)) cl'"
  using assms
proof (induction G arbitrary: cl D)
  case (Cons x G)
  obtain w l where x: "x = (w, l)" by (cases x)
  obtain r where r: "w \<noteq> me" "distinct l" "l \<noteq> []" "set l \<subseteq> {b. own b = w}" "cl0 w = Some r" "servable e op w r (set l)"
    using Cons.prems(4) x by auto
  let ?s = "s\<lparr>Backend := fetched op own cl0 D (Backend s)\<rparr>"
  have me: "cl me = Some ?s" using Cons.prems(3) by (simp add: movedBuckets_def)
  have "w \<notin> own ` D" using Cons.prems(2) x by simp
  then have w: "cl w = Some r" using Cons.prems(3) r(1, 5) by (fastforce simp: movedBuckets_def)
  obtain t' where t': "migrateRemoteBucketsFromWorker (rangeQ e) (chunkSenders e) me op cl (w, l)
      = Inr (cl(w \<mapsto> r\<lparr>StateLookupTable := t'\<rparr>, me \<mapsto> ?s\<lparr>Backend := received op (set l) (Backend r) (Backend ?s)\<rparr>))"
    "ownedBy me (StateLookupTable r) (set l) t'"
    using basic_from_worker[OF w me r(1, 6, 2)] by blast
  let ?cl1 = "cl(w \<mapsto> r\<lparr>StateLookupTable := t'\<rparr>, me \<mapsto> ?s\<lparr>Backend := received op (set l) (Backend r) (Backend ?s)\<rparr>)"
  have bk: "{b \<in> D \<union> set l. own b = w} = set l" using r(4) \<open>w \<notin> own ` D\<close> by auto
  have mv: "movedBuckets op me own cl0 s (D \<union> set l) ?cl1"
    unfolding movedBuckets_def
  proof (intro conjI allI impI)
    show "?cl1 me = Some (s\<lparr>Backend := fetched op own cl0 (D \<union> set l) (Backend s)\<rparr>)"
      by (simp add: fetched_union[where own = own and w = w and cl = cl0, OF r(4, 5)])
    fix v rv assume v: "v \<noteq> me" "cl0 v = Some rv"
    show "\<exists>t'. ?cl1 v = Some (rv\<lparr>StateLookupTable := t'\<rparr>) \<and> ownedBy me (StateLookupTable rv) {b \<in> D \<union> set l. own b = v} t'
      \<and> (v \<notin> own ` (D \<union> set l) \<longrightarrow> t' = StateLookupTable rv)"
    proof (cases "v = w")
      case True
      have "w \<in> own ` (D \<union> set l)" using r(3, 4) by (cases l) auto
      then show ?thesis using True v r(1, 5) t'(2) bk by (intro exI[of _ t']) simp
    next
      case False
      obtain u where u: "cl v = Some (rv\<lparr>StateLookupTable := u\<rparr>)" "ownedBy me (StateLookupTable rv) {b \<in> D. own b = v} u"
        "v \<notin> own ` D \<longrightarrow> u = StateLookupTable rv"
        using Cons.prems(3) v unfolding movedBuckets_def by blast
      have "{b \<in> D \<union> set l. own b = v} = {b \<in> D. own b = v}" using r(4) False by auto
      then show ?thesis using u False v(1) by (intro exI[of _ u]) (simp add: image_Un)
    qed
  qed
  have nd: "\<forall>v \<in> fst ` set G. v \<notin> own ` (D \<union> set l)"
  proof
    fix v assume v: "v \<in> fst ` set G"
    then have "v \<noteq> w" using Cons.prems(1) x by auto
    then show "v \<notin> own ` (D \<union> set l)" using Cons.prems(2) v x r(4) by auto
  qed
  have "distinct (map fst G)" using Cons.prems(1) by simp
  moreover have "\<forall>(w, l) \<in> set G. w \<noteq> me \<and> distinct l \<and> l \<noteq> [] \<and> set l \<subseteq> {b. own b = w} \<and> (\<exists>r. cl0 w = Some r \<and> servable e op w r (set l))"
    using Cons.prems(4) by simp
  ultimately obtain cl' where "rfold (migrateRemoteBucketsFromWorker (rangeQ e) (chunkSenders e) me op) ?cl1 G = Inr cl'"
    "movedBuckets op me own cl0 s (D \<union> set l \<union> (\<Union>(w, l) \<in> set G. set l)) cl'"
    using Cons.IH[OF _ nd mv] by blast
  then show ?case using t'(1) x by (intro exI[of _ cl']) (simp add: Un_assoc)
qed simp


text \<open>A request for keys whose buckets \<open>own\<close> locates, with owners that can serve it.\<close>

definition bucketRequest :: "svcEnv \<Rightarrow> cluster \<Rightarrow> u16 \<Rightarrow> u16 \<Rightarrow> (int \<Rightarrow> u16) \<Rightarrow> keysPerState \<Rightarrow> int list \<Rightarrow> StateService \<Rightarrow> bool" where
  "bucketRequest e cl me op own keys bs s \<longleftrightarrow> cl me = Some s \<and> distinct (map fst keys)
     \<and> (\<forall>b \<in> set bs. kl_BucketIdxToWorkerID (StateLookupTable s) b = Inr (own b))
     \<and> (\<forall>b \<in> set bs. own b \<noteq> me \<longrightarrow> (\<exists>r. cl (own b) = Some r \<and> servable e op (own b) r {b' \<in> set bs. own b' = own b}))
     \<and> (\<forall>(st, ks) \<in> set keys. list_all2 (inBucket op) bs ks)"

lemma fetched_value:
  assumes "inBucket op b k" "b \<in> D"
  shows "fetched op own cl D m k = (case valueAt cl (own b) k of Some v \<Rightarrow> Some v | None \<Rightarrow> m k)"
proof -
  have "(\<exists>b' \<in> D. inBucket op b' k \<and> valueAt cl (own b') k \<noteq> None) \<longleftrightarrow> valueAt cl (own b) k \<noteq> None"
    using assms inBucket_unique by blast
  then show ?thesis by (simp add: fetched_def inBucket_the[OF assms(1)] split: option.splits)
qed

lemma fetched_other:
  assumes "inBucket op b k" "b \<notin> D"
  shows "fetched op own cl D m k = m k"
proof -
  have "\<not> (\<exists>b' \<in> D. inBucket op b' k \<and> valueAt cl (own b') k \<noteq> None)" using assms inBucket_unique by blast
  then show ?thesis unfolding fetched_def by (rule if_not_P)
qed

lemma basic_migrates:
  assumes r: "bucketRequest e cl me op own keys bs s"
  shows "\<exists>cl' s'. migrateRemoteBuckets (rangeQ e) (chunkSenders e) cl me op bs = Inr cl' \<and> cl' me = Some s'
    \<and> Backend s' = fetched op own cl {b \<in> set bs. own b \<noteq> me} (Backend s)
    \<and> ownedBy me (StateLookupTable s) {b \<in> set bs. own b \<noteq> me} (StateLookupTable s')
    \<and> (\<forall>w r. w \<noteq> me \<longrightarrow> cl w = Some r \<longrightarrow> (\<exists>r'. cl' w = Some r' \<and> Backend r' = Backend r
         \<and> ownedBy me (StateLookupTable r) {b \<in> set bs. own b = w} (StateLookupTable r')))"
proof -
  let ?D = "{b \<in> set bs. own b \<noteq> me}"
  have me: "cl me = Some s" and own: "\<forall>b \<in> set bs. kl_BucketIdxToWorkerID (StateLookupTable s) b = Inr (own b)"
    and sv: "\<forall>b \<in> set bs. own b \<noteq> me \<longrightarrow> (\<exists>r. cl (own b) = Some r \<and> servable e op (own b) r {b' \<in> set bs. own b' = own b})"
    using r by (auto simp: bucketRequest_def)
  obtain G R where G: "rfold (requestStep (StateLookupTable s) me) ([], []) bs = Inr (G, R)" "bucketGroups own me (set bs) (G, R)"
    using bucketGroups_all[OF own] by (metis surj_pair)
  have R: "distinct R" "set R = ?D" "distinct (map fst G)" "fst ` set G = own ` set R"
    "\<And>w. mslice G w = filter (\<lambda>b. own b = w) R" using G(2) by (auto simp: bucketGroups_def)
  have l: "l = filter (\<lambda>b. own b = w) R" if "(w, l) \<in> set G" for w l
  proof -
    have "map_of G w = Some l" using R(3) that by simp
    then have "mslice G w = l" by (simp add: mslice_def)
    then show ?thesis using R(5) by simp
  qed
  have setl: "set l = {b \<in> set R. own b = w}" if "(w, l) \<in> set G" for w l
    unfolding l[OF that] set_filter by (rule refl)
  have grp: "\<forall>(w, l) \<in> set G. w \<noteq> me \<and> distinct l \<and> l \<noteq> [] \<and> set l \<subseteq> {b. own b = w} \<and> (\<exists>r. cl w = Some r \<and> servable e op w r (set l))"
  proof (intro ballI, clarify)
    fix w l assume m: "(w, l) \<in> set G"
    then have "w \<in> own ` set R" using R(4) by force
    then obtain b where b: "b \<in> set R" "own b = w" by blast
    then obtain r where "cl w = Some r" "servable e op w r {b' \<in> set bs. own b' = w}" using sv R(2) by blast
    moreover have wme: "w \<noteq> me" using b R(2) by blast
    moreover have "set l = {b' \<in> set bs. own b' = w}" unfolding l[OF m] set_filter R(2) using wme by blast
    moreover have "l \<noteq> []" unfolding l[OF m] filter_empty_conv using b by blast
    moreover have "distinct l" unfolding l[OF m] using R(1) by simp
    ultimately show "w \<noteq> me \<and> distinct l \<and> l \<noteq> [] \<and> set l \<subseteq> {b. own b = w} \<and> (\<exists>r. cl w = Some r \<and> servable e op w r (set l))"
      by auto
  qed
  have all: "(\<Union>(w, l) \<in> set G. set l) = ?D"
  proof -
    have "(\<Union>(w, l) \<in> set G. set l) = (\<Union>(w, l) \<in> set G. {b \<in> set R. own b = w})"
      by (rule SUP_cong[OF refl]) (clarsimp simp only: setl prod.case)
    also have "\<dots> = (\<Union>w \<in> fst ` set G. {b \<in> set R. own b = w})" by force
    also have "\<dots> = set R" unfolding R(4) by auto
    finally show ?thesis using R(2) by simp
  qed
  have "movedBuckets op me own cl s {} cl"
    using me by (auto simp: movedBuckets_def fetched_def ownedBy_def intro!: exI)
  from basic_workers[OF R(3) _ this grp] obtain cl1 where cl1:
    "rfold (migrateRemoteBucketsFromWorker (rangeQ e) (chunkSenders e) me op) cl G = Inr cl1"
    "movedBuckets op me own cl s ?D cl1" unfolding all by auto
  let ?s1 = "s\<lparr>Backend := fetched op own cl ?D (Backend s)\<rparr>"
  have me1: "cl1 me = Some ?s1" using cl1(2) by (simp add: movedBuckets_def)
  obtain t' where t': "changeOwners (StateLookupTable s) me R = Inr t'" "ownedBy me (StateLookupTable s) ?D t'"
    using changeOwners_ok[of R "StateLookupTable s" me "{}" "StateLookupTable s"] own R(2) by (auto simp: ownedBy_def)
  have others: "\<exists>r'. (cl1(me \<mapsto> ?s1\<lparr>StateLookupTable := t'\<rparr>)) w = Some r' \<and> Backend r' = Backend r
         \<and> ownedBy me (StateLookupTable r) {b \<in> set bs. own b = w} (StateLookupTable r')" if "w \<noteq> me" "cl w = Some r" for w r
  proof -
    have "{b \<in> ?D. own b = w} = {b \<in> set bs. own b = w}" using that(1) by auto
    then show ?thesis using cl1(2) that by (fastforce simp: movedBuckets_def)
  qed
  show ?thesis
  proof (cases "G = []")
    case True
    then have D: "?D = {}" using all by simp
    have fe: "fetched op own cl ?D (Backend s) = Backend s" unfolding D by (simp add: fetched_def)
    have "ownedBy me (StateLookupTable s) ?D (StateLookupTable s)" unfolding D by (simp add: ownedBy_def)
    moreover have "cl1 = cl" using cl1(1) True by simp
    ultimately show ?thesis
      using me True G(1) others fe unfolding migrateRemoteBuckets_def
      by (intro exI[of _ cl] exI[of _ s]) (auto simp: peer_def)
  next
    case False
    then show ?thesis
      using me me1 cl1(1) t' G(1) others unfolding migrateRemoteBuckets_def
      by (intro exI[of _ "cl1(me \<mapsto> ?s1\<lparr>StateLookupTable := t'\<rparr>)"] exI[of _ "?s1\<lparr>StateLookupTable := t'\<rparr>"])
        (auto simp: peer_def onLocal_def)
  qed
qed



text \<open>Worker 1 reads a key of bucket 1, which worker 2 owns.\<close>

definition bucketKey :: skey where "bucketKey = storedKey 7 1 [9]"

definition bucketCluster :: cluster where
  "bucketCluster = [1 \<mapsto> pairService 1 Map.empty, 2 \<mapsto> pairService 2 [bucketKey \<mapsto> [20]]]"

definition bucketEnv :: "string \<Rightarrow> svcEnv" where
  "bucketEnv version = pairEnv version\<lparr>rangeQ := (\<lambda>m lo hi. case m bucketKey of None \<Rightarrow> []
     | Some v \<Rightarrow> if \<not> bytesLess bucketKey lo \<and> bytesLess bucketKey hi then [(bucketKey, v)] else [])\<rparr>"

lemma bucket_request:
  "bucketRequest (bucketEnv version) bucketCluster 1 7 (\<lambda>b. if b = 0 then 1 else 2) [(5, [bucketKey])] [1] (pairService 1 Map.empty)"
proof -
  have k: "inBucket 7 1 bucketKey" by (auto simp: inBucket_def bucketKey_def)
  have "range_query_ok (rangeQ (bucketEnv version) [bucketKey \<mapsto> [20]]) [bucketKey \<mapsto> [20]]"
    by (auto simp: range_query_ok_def bucketEnv_def pairEnv_def split: if_splits)
  then have "sendable (rangeQ (bucketEnv version)) 100 [bucketKey \<mapsto> [20]]"
    unfolding sendable_def
  proof (intro conjI ballI allI impI)
    show "\<exists>op b rest. k = storedKey op b rest" if "k \<in> dom [bucketKey \<mapsto> [20]]" for k
      using that by (auto simp: bucketKey_def split: if_splits)
    show "length k + length v \<le> 100" if "[bucketKey \<mapsto> [20 :: byte]] k = Some v" for k v
      using that by (auto simp: bucketKey_def storedKey_def split: if_splits)
  qed
  then have "servable (bucketEnv version) 7 2 (pairService 2 [bucketKey \<mapsto> [20]]) {1}"
    by (simp add: servable_def pairService_def bucketEnv_def pairEnv_def kl_BucketIdxToWorkerID_def at_idx_def bucketIdx_def
        MaxSupportedBuckets_def NewStateChunkSender_def sender_ok_def entriesOf_def)
  moreover have "{b'. b' \<noteq> 0 \<and> (b' \<noteq> 0 \<longrightarrow> b' = 1)} = {1 :: int}" by auto
  ultimately show ?thesis using k
    by (simp add: bucketRequest_def bucketCluster_def kl_BucketIdxToWorkerID_def at_idx_def) (simp add: pairService_def at_idx_def)
qed


end
