(* ===== verification/Tuple_Codec.thy ===== *)
theory Tuple_Codec
  imports Koala_Prelude
begin

text \<open>
  The tuple codec (\<^verbatim>\<open>internal/network/codec.go\<close>): encoder, decoder and sizer that are put together from
  one function per field, and the timestamp at the end. The functions of the mus-go library that write
  and read one number or string are parameters (the record \<open>mus\<close>); \<open>mus_ok\<close> states what its documentation
  promises: a value is read back from its encoding, whatever follows, and its size is the number of bytes.
\<close>

section \<open>Kinds and values\<close>

datatype kind = KindBool | KindInt | KindInt8 | KindInt16 | KindInt32 | KindInt64 | KindUint | KindUint8 | KindUint16 | KindUint32 | KindUint64
  | KindFloat32 | KindFloat64 | KindString | OtherKind

definition SupportedKind :: "kind \<Rightarrow> bool" where
  "SupportedKind k \<longleftrightarrow> k = KindBool \<or> k = KindInt \<or> k = KindInt8 \<or> k = KindInt16 \<or> k = KindInt32 \<or> k = KindInt64 \<or> k = KindUint
     \<or> k = KindUint8 \<or> k = KindUint16 \<or> k = KindUint32 \<or> k = KindUint64 \<or> k = KindFloat32 \<or> k = KindFloat64 \<or> k = KindString"

text \<open>A field: a floating point number is given by its bits.\<close>

datatype fieldVal = BoolV bool | NumV int | StrV "byte list"

record tupleVal =
  tupFields :: "fieldVal list"
  timestamp :: int

text \<open>The functions of the library, for every kind of number, and for strings. Reading returns the
  value, the number of bytes used, and whether there was an error.\<close>

record mus =
  MarshalNum :: "kind \<Rightarrow> int \<Rightarrow> byte list"
  UnmarshalNum :: "kind \<Rightarrow> byte list \<Rightarrow> int \<times> nat \<times> bool"
  SizeNum :: "kind \<Rightarrow> int \<Rightarrow> nat"
  MarshalString :: "byte list \<Rightarrow> byte list"
  UnmarshalString :: "byte list \<Rightarrow> byte list \<times> nat \<times> bool"
  SizeStr :: "byte list \<Rightarrow> nat"


section \<open>Codec of one field\<close>

definition EncodeFuncFromKind :: "mus \<Rightarrow> kind \<Rightarrow> fieldVal \<Rightarrow> byte list res" where
  "EncodeFuncFromKind mu k v = (case (k, v) of
       (KindBool, BoolV b) \<Rightarrow> Inr (MarshalNum mu KindUint8 (if b then 1 else 0))
     | (KindString, StrV s) \<Rightarrow> Inr (MarshalString mu s)
     | (_, NumV i) \<Rightarrow> if SupportedKind k \<and> k \<noteq> KindBool \<and> k \<noteq> KindString then Inr (MarshalNum mu k i) else Inl (Panic ''unknown kind'')
     | _ \<Rightarrow> Inl (Panic ''unknown kind''))"

definition DecodeFuncFromKind :: "mus \<Rightarrow> kind \<Rightarrow> byte list \<Rightarrow> (fieldVal \<times> nat \<times> bool) res" where
  "DecodeFuncFromKind mu k buf = (case k of
       KindBool \<Rightarrow> (let (v, n, err) = UnmarshalNum mu KindUint8 buf in Inr (BoolV (v = 1), n, err))
     | KindString \<Rightarrow> (let (s, n, err) = UnmarshalString mu buf in Inr (StrV s, n, err))
     | OtherKind \<Rightarrow> Inl (Panic ''unknown kind'')
     | _ \<Rightarrow> (let (v, n, err) = UnmarshalNum mu k buf in Inr (NumV v, n, err)))"

definition TupleSizeFuncFromKind :: "mus \<Rightarrow> kind \<Rightarrow> fieldVal \<Rightarrow> nat res" where
  "TupleSizeFuncFromKind mu k v = (case (k, v) of
       (KindBool, BoolV b) \<Rightarrow> Inr (SizeNum mu KindUint8 (if b then 1 else 0))
     | (KindString, StrV s) \<Rightarrow> Inr (SizeStr mu s)
     | (_, NumV i) \<Rightarrow> if SupportedKind k \<and> k \<noteq> KindBool \<and> k \<noteq> KindString then Inr (SizeNum mu k i) else Inl (Panic ''unknown kind'')
     | _ \<Rightarrow> Inl (Panic ''unknown kind''))"


section \<open>Codec of a tuple\<close>

definition checkKinds :: "kind list \<Rightarrow> unit res" where
  "checkKinds kinds = rfold (\<lambda>_ k. fatal_if (\<not> SupportedKind k) ''Unsupported field type'') () kinds"

text \<open>Writing an encoding at the start of \<open>buf[offset:]\<close>: the library panics when it does not fit.\<close>

definition writeAt :: "byte list \<times> nat \<Rightarrow> byte list \<Rightarrow> (byte list \<times> nat) res" where
  "writeAt acc bs =
     (let (buf, offset) = acc in
      if offset + length bs \<le> length buf
      then Inr (take offset buf @ bs @ drop (offset + length bs) buf, offset + length bs)
      else Inl (Panic ''index out of range''))"

definition CreateEncoder :: "mus \<Rightarrow> kind list \<Rightarrow> (tupleVal \<Rightarrow> byte list \<Rightarrow> (byte list \<times> nat) res) res" where
  "CreateEncoder mu kinds =
     rbind (checkKinds kinds) (\<lambda>_. Inr (\<lambda>t buf.
       rbind (rfold (\<lambda>acc (i, k). rbind (at_idx (tupFields t) i) (\<lambda>v. rbind (EncodeFuncFromKind mu k v) (writeAt acc)))
                (buf, 0) (enumerate 0 kinds)) (\<lambda>acc.
       writeAt acc (MarshalNum mu KindInt64 (timestamp t)))))"

text \<open>The result is the tuple, or \<open>None\<close> for an error, with the bytes used.\<close>

fun decodeFields :: "mus \<Rightarrow> kind list \<Rightarrow> byte list \<Rightarrow> nat \<Rightarrow> (fieldVal list option \<times> nat) res" where
  "decodeFields mu [] buf offset = Inr (Some [], offset)"
| "decodeFields mu (k # ks) buf offset =
     (if length buf < offset then Inl (Panic ''slice bounds out of range'')
      else rbind (DecodeFuncFromKind mu k (drop offset buf)) (\<lambda>(v, n, err).
        if err then Inr (None, offset + n)
        else rbind (decodeFields mu ks buf (offset + n)) (\<lambda>(vs, offset).
          Inr (map_option (\<lambda>vs. v # vs) vs, offset))))"

definition CreateDecoder :: "mus \<Rightarrow> kind list \<Rightarrow> (byte list \<Rightarrow> (tupleVal option \<times> nat) res) res" where
  "CreateDecoder mu kinds =
     rbind (checkKinds kinds) (\<lambda>_. Inr (\<lambda>buf.
       rbind (decodeFields mu kinds buf 0) (\<lambda>(vs, offset). case vs of
         None \<Rightarrow> Inr (None, offset)
       | Some fs \<Rightarrow>
           if length buf < offset then Inl (Panic ''slice bounds out of range'')
           else (let (ts, n, err) = UnmarshalNum mu KindInt64 (drop offset buf) in
             Inr (if err then None else Some \<lparr>tupFields = fs, timestamp = ts\<rparr>, offset + n)))))"

definition CreateSizer :: "mus \<Rightarrow> kind list \<Rightarrow> (tupleVal \<Rightarrow> nat res) res" where
  "CreateSizer mu kinds =
     rbind (checkKinds kinds) (\<lambda>_. Inr (\<lambda>t.
       rbind (rfold (\<lambda>size (i, k). rbind (at_idx (tupFields t) i) (\<lambda>v.
                rbind (TupleSizeFuncFromKind mu k v) (\<lambda>n. Inr (size + n)))) 0 (enumerate 0 kinds)) (\<lambda>size.
       Inr (size + SizeNum mu KindInt64 (timestamp t)))))"


section \<open>Round trip\<close>

text \<open>The numbers that a kind can hold.\<close>

fun inKind :: "kind \<Rightarrow> int \<Rightarrow> bool" where
  "inKind KindInt8 i = (- (2 ^ 7) \<le> i \<and> i < 2 ^ 7)"
| "inKind KindInt16 i = (- (2 ^ 15) \<le> i \<and> i < 2 ^ 15)"
| "inKind KindInt32 i = (- (2 ^ 31) \<le> i \<and> i < 2 ^ 31)"
| "inKind KindInt64 i = (- (2 ^ 63) \<le> i \<and> i < 2 ^ 63)"
| "inKind KindInt i = (- (2 ^ 63) \<le> i \<and> i < 2 ^ 63)"
| "inKind KindUint8 i = (0 \<le> i \<and> i < 2 ^ 8)"
| "inKind KindUint16 i = (0 \<le> i \<and> i < 2 ^ 16)"
| "inKind KindUint32 i = (0 \<le> i \<and> i < 2 ^ 32)"
| "inKind KindFloat32 i = (0 \<le> i \<and> i < 2 ^ 32)"
| "inKind KindUint64 i = (0 \<le> i \<and> i < 2 ^ 64)"
| "inKind KindUint i = (0 \<le> i \<and> i < 2 ^ 64)"
| "inKind KindFloat64 i = (0 \<le> i \<and> i < 2 ^ 64)"
| "inKind k i = False"

fun hasKind :: "kind \<Rightarrow> fieldVal \<Rightarrow> bool" where
  "hasKind KindBool (BoolV b) = True"
| "hasKind KindString (StrV s) = True"
| "hasKind k (NumV i) = inKind k i"
| "hasKind k v = False"

definition mus_ok :: "mus \<Rightarrow> bool" where
  "mus_ok mu \<longleftrightarrow>
     (\<forall>k i rest. inKind k i \<longrightarrow> UnmarshalNum mu k (MarshalNum mu k i @ rest) = (i, length (MarshalNum mu k i), False)
        \<and> SizeNum mu k i = length (MarshalNum mu k i) \<and> MarshalNum mu k i \<noteq> [])
   \<and> (\<forall>s rest. UnmarshalString mu (MarshalString mu s @ rest) = (s, length (MarshalString mu s), False)
        \<and> SizeStr mu s = length (MarshalString mu s) \<and> MarshalString mu s \<noteq> [])"

definition tuple_ok :: "kind list \<Rightarrow> tupleVal \<Rightarrow> bool" where
  "tuple_ok kinds t \<longleftrightarrow> list_all SupportedKind kinds \<and> list_all2 hasKind kinds (tupFields t) \<and> inKind KindInt64 (timestamp t)"

text \<open>The bytes of a field and of a tuple.\<close>

definition fieldBytes :: "mus \<Rightarrow> kind \<Rightarrow> fieldVal \<Rightarrow> byte list" where
  "fieldBytes mu k v = (case v of BoolV b \<Rightarrow> MarshalNum mu KindUint8 (if b then 1 else 0)
     | StrV s \<Rightarrow> MarshalString mu s | NumV i \<Rightarrow> MarshalNum mu k i)"

definition tupleBytes :: "mus \<Rightarrow> kind list \<Rightarrow> tupleVal \<Rightarrow> byte list" where
  "tupleBytes mu kinds t = concat (map2 (fieldBytes mu) kinds (tupFields t)) @ MarshalNum mu KindInt64 (timestamp t)"

lemma field_codec:
  assumes "mus_ok mu" "hasKind k v"
  shows "EncodeFuncFromKind mu k v = Inr (fieldBytes mu k v)"
    and "DecodeFuncFromKind mu k (fieldBytes mu k v @ rest) = Inr (v, length (fieldBytes mu k v), False)"
    and "TupleSizeFuncFromKind mu k v = Inr (length (fieldBytes mu k v))"
  using assms
  by (cases k; cases v; auto simp: EncodeFuncFromKind_def DecodeFuncFromKind_def TupleSizeFuncFromKind_def
      fieldBytes_def mus_ok_def SupportedKind_def)+

lemma checkKinds_ok: "checkKinds kinds = (if list_all SupportedKind kinds then Inr () else Inl (Fatal ''Unsupported field type''))"
  unfolding checkKinds_def by (induction kinds) (auto simp: fatal_if_def)

lemma writeAt_middle:
  "length pre = offset \<Longrightarrow> length bs \<le> length rest \<Longrightarrow>
     writeAt (pre @ rest, offset) bs = Inr ((pre @ bs) @ drop (length bs) rest, length (pre @ bs))"
  by (simp add: writeAt_def)


lemma encode_fields:
  assumes "mus_ok mu" "list_all2 hasKind ks vs" "tupFields t = before @ vs"
    and "length (concat (map2 (fieldBytes mu) ks vs)) \<le> length rest"
  shows "rfold (\<lambda>acc (i, k). rbind (at_idx (tupFields t) i) (\<lambda>v. rbind (EncodeFuncFromKind mu k v) (writeAt acc)))
      (pre @ rest, length pre) (enumerate (length before) ks)
    = Inr ((pre @ concat (map2 (fieldBytes mu) ks vs)) @ drop (length (concat (map2 (fieldBytes mu) ks vs))) rest,
        length (pre @ concat (map2 (fieldBytes mu) ks vs)))"
  using assms(2-4)
proof (induction ks vs arbitrary: before pre rest rule: list_all2_induct)
  case (Cons k ks v vs)
  let ?f = "fieldBytes mu k v" and ?B = "concat (map2 (fieldBytes mu) ks vs)"
  have w: "writeAt (pre @ rest, length pre) ?f = Inr ((pre @ ?f) @ drop (length ?f) rest, length (pre @ ?f))"
    by (rule writeAt_middle) (use Cons.prems(2) in auto)
  have "at_idx (tupFields t) (length before) = Inr v" using Cons.prems(1) by (simp add: at_idx_def)
  moreover have "rfold (\<lambda>acc (i, k). rbind (at_idx (tupFields t) i) (\<lambda>v. rbind (EncodeFuncFromKind mu k v) (writeAt acc)))
      ((pre @ ?f) @ drop (length ?f) rest, length (pre @ ?f)) (enumerate (length (before @ [v])) ks)
    = Inr (((pre @ ?f) @ ?B) @ drop (length ?B) (drop (length ?f) rest), length ((pre @ ?f) @ ?B))"
    by (rule Cons.IH) (use Cons.prems in auto)
  ultimately show ?case using w field_codec(1)[OF assms(1) Cons.hyps(1)] by (simp add: add.commute)
qed simp

lemma decode_fields:
  assumes "mus_ok mu" "list_all2 hasKind ks vs"
  shows "decodeFields mu ks (pre @ concat (map2 (fieldBytes mu) ks vs) @ rest) (length pre)
    = Inr (Some vs, length (pre @ concat (map2 (fieldBytes mu) ks vs)))"
  using assms(2)
proof (induction ks vs arbitrary: pre rule: list_all2_induct)
  case (Cons k ks v vs)
  let ?f = "fieldBytes mu k v" and ?B = "concat (map2 (fieldBytes mu) ks vs)"
  show ?case
    using Cons.IH[of "pre @ ?f"] field_codec(2)[OF assms(1) Cons.hyps(1), of "?B @ rest"] by simp
qed simp

lemma size_fields:
  assumes "mus_ok mu" "list_all2 hasKind ks vs" "tupFields t = before @ vs"
  shows "rfold (\<lambda>size (i, k). rbind (at_idx (tupFields t) i) (\<lambda>v.
      rbind (TupleSizeFuncFromKind mu k v) (\<lambda>n. Inr (size + n)))) m (enumerate (length before) ks)
    = Inr (m + length (concat (map2 (fieldBytes mu) ks vs)))"
  using assms(2, 3)
proof (induction ks vs arbitrary: before m rule: list_all2_induct)
  case (Cons k ks v vs)
  have "at_idx (tupFields t) (length before) = Inr v" using Cons.prems by (simp add: at_idx_def)
  then show ?case
    using Cons.IH[of "before @ [v]" "m + length (fieldBytes mu k v)"] Cons.prems field_codec(3)[OF assms(1) Cons.hyps(1)]
    by simp
qed simp

lemma codec_functions:
  assumes "mus_ok mu" "tuple_ok kinds t"
  shows "\<exists>enc. CreateEncoder mu kinds = Inr enc
      \<and> (\<forall>buf. length (tupleBytes mu kinds t) \<le> length buf \<longrightarrow>
           enc t buf = Inr (tupleBytes mu kinds t @ drop (length (tupleBytes mu kinds t)) buf, length (tupleBytes mu kinds t)))"
    and "\<exists>dec. CreateDecoder mu kinds = Inr dec
      \<and> (\<forall>rest. dec (tupleBytes mu kinds t @ rest) = Inr (Some t, length (tupleBytes mu kinds t)))"
    and "\<exists>sizer. CreateSizer mu kinds = Inr sizer \<and> sizer t = Inr (length (tupleBytes mu kinds t))"
proof -
  let ?B = "concat (map2 (fieldBytes mu) kinds (tupFields t))" and ?ts = "MarshalNum mu KindInt64 (timestamp t)"
  have ok: "list_all SupportedKind kinds" "list_all2 hasKind kinds (tupFields t)" "inKind KindInt64 (timestamp t)"
    using assms(2) by (simp_all add: tuple_ok_def)
  have tb: "tupleBytes mu kinds t = ?B @ ?ts" by (simp add: tupleBytes_def)
  have ts: "UnmarshalNum mu KindInt64 (?ts @ rest) = (timestamp t, length ?ts, False)"
    "SizeNum mu KindInt64 (timestamp t) = length ?ts" for rest
    using assms(1) ok(3) unfolding mus_ok_def by blast+
  show "\<exists>enc. CreateEncoder mu kinds = Inr enc
      \<and> (\<forall>buf. length (tupleBytes mu kinds t) \<le> length buf \<longrightarrow>
           enc t buf = Inr (tupleBytes mu kinds t @ drop (length (tupleBytes mu kinds t)) buf, length (tupleBytes mu kinds t)))"
    using encode_fields[OF assms(1) ok(2), of t "[]" _ "[]"]
    by (auto simp: CreateEncoder_def checkKinds_ok ok(1) tb writeAt_def add.commute)
  show "\<exists>dec. CreateDecoder mu kinds = Inr dec
      \<and> (\<forall>rest. dec (tupleBytes mu kinds t @ rest) = Inr (Some t, length (tupleBytes mu kinds t)))"
    using decode_fields[OF assms(1) ok(2), of "[]"] ts(1)
    by (auto simp: CreateDecoder_def checkKinds_ok ok(1) tb)
  show "\<exists>sizer. CreateSizer mu kinds = Inr sizer \<and> sizer t = Inr (length (tupleBytes mu kinds t))"
    using size_fields[OF assms(1) ok(2), of t "[]" 0] ts(2)
    by (auto simp: CreateSizer_def checkKinds_ok ok(1) tb)
qed



text \<open>A library that keeps the promise: eight bytes per number, and strings with a mark before every byte.\<close>

definition signedKind :: "kind \<Rightarrow> bool" where
  "signedKind k \<longleftrightarrow> k \<in> {KindInt, KindInt8, KindInt16, KindInt32, KindInt64}"

fun markBytes :: "byte list \<Rightarrow> byte list" where
  "markBytes [] = [0]"
| "markBytes (c # cs) = 1 # c # markBytes cs"

fun unmarkBytes :: "byte list \<Rightarrow> byte list \<times> nat \<times> bool" where
  "unmarkBytes (m # c # cs) = (if m = 0 then ([], 1, False)
     else let (s, n, err) = unmarkBytes cs in (c # s, n + 2, err))"
| "unmarkBytes [m] = ([], 1, m \<noteq> 0)"
| "unmarkBytes [] = ([], 0, True)"

definition wideMus :: mus where
  "wideMus = \<lparr>MarshalNum = (\<lambda>k i. bePut 8 (nat (i mod 2 ^ 64))),
     UnmarshalNum = (\<lambda>k bs. let n = int (beNat (take 8 bs)) in
       (if signedKind k \<and> 2 ^ 63 \<le> n then n - 2 ^ 64 else n, 8, length bs < 8)),
     SizeNum = (\<lambda>_ _. 8), MarshalString = markBytes, UnmarshalString = unmarkBytes, SizeStr = (\<lambda>s. length (markBytes s))\<rparr>"

lemma unmark_mark: "unmarkBytes (markBytes s @ rest) = (s, length (markBytes s), False)"
proof (induction s)
  case Nil
  show ?case by (cases rest) simp_all
qed (simp add: Let_def)

lemma wide_range: "inKind k i \<Longrightarrow> - (2 ^ 63) \<le> i \<and> (if signedKind k then i < 2 ^ 63 else 0 \<le> i \<and> i < 2 ^ 64)"
  by (cases k) (auto simp: signedKind_def)

lemma wideMus_ok: "mus_ok wideMus"
proof -
  have num: "UnmarshalNum wideMus k (MarshalNum wideMus k i @ rest) = (i, length (MarshalNum wideMus k i), False)"
    if "inKind k i" for k i rest
  proof -
    let ?n = "nat (i mod 2 ^ 64)"
    have "?n < 256 ^ 8" by (simp add: nat_less_iff)
    then have "int (beNat (take 8 (bePut 8 ?n @ rest))) = i mod 2 ^ 64" by simp
    moreover have "i mod 2 ^ 64 = (if i < 0 then i + 2 ^ 64 else i)"
    proof (cases "i < 0")
      case True
      have "i mod 2 ^ 64 = (i + 2 ^ 64) mod 2 ^ 64" by simp
      also have "\<dots> = i + 2 ^ 64" by (rule mod_pos_pos_trivial) (use True wide_range[OF that] in auto)
      finally show ?thesis using True by simp
    next
      case False
      then show ?thesis using wide_range[OF that] by (auto intro!: mod_pos_pos_trivial split: if_splits)
    qed
    ultimately show ?thesis
      using wide_range[OF that] by (auto simp: wideMus_def Let_def split: if_splits)
  qed
  have ne: "bePut 8 n \<noteq> []" for n using length_bePut[of 8 n] by (intro notI) simp
  have sz: "SizeNum wideMus k i = length (MarshalNum wideMus k i)" "MarshalNum wideMus k i \<noteq> []" for k i
    by (simp_all add: wideMus_def ne)
  have "markBytes s \<noteq> []" for s by (cases s) simp_all
  then have str: "UnmarshalString wideMus (MarshalString wideMus s @ rest) = (s, length (MarshalString wideMus s), False)"
    "SizeStr wideMus s = length (MarshalString wideMus s)" "MarshalString wideMus s \<noteq> []" for s rest
    using unmark_mark by (simp_all add: wideMus_def)
  show ?thesis unfolding mus_ok_def using num sz str by blast
qed



end
