(* ===== verification/State_Types.thy ===== *)
theory State_Types
  imports Tuple_Codec
begin

text \<open>
  The states that user functions read and update (\<^verbatim>\<open>api/stateClient/stateType\<close>): one value, or a list of
  values, with the flags that decide how a state is flushed. A state that the user holds is the object of
  the cache, so an operation of the user is an update of the cached state. The encoder, decoder and sizer
  of the tuples are those of theory \<open>Tuple_Codec\<close>.
\<close>

section \<open>States and flags\<close>

record StateTypeBase =
  hasValue :: bool
  updated :: bool
  deleted :: bool

text \<open>The value of an empty state is a nil pointer.\<close>

record ValueState =
  vs_base :: StateTypeBase
  vs_state :: "tupleVal option"

record ListState =
  ls_base :: StateTypeBase
  ls_state :: "tupleVal list"
  appended :: bool
  appendStartIdx :: nat

datatype StateType = ValueSt ValueState | ListSt ListState

text \<open>The type argument of a cache: which of the two state types it holds.\<close>

datatype stateKind = ValueKind | ListKind

record tupleCodec =
  valueEncoder :: "tupleVal \<Rightarrow> byte list \<Rightarrow> (byte list \<times> nat) res"
  valueDecoder :: "byte list \<Rightarrow> (tupleVal option \<times> nat) res"
  valueSizer :: "tupleVal \<Rightarrow> nat res"

definition GetTupleCodec :: "mus \<Rightarrow> kind list \<Rightarrow> tupleCodec res" where
  "GetTupleCodec mu kinds =
     rbind (CreateEncoder mu kinds) (\<lambda>enc. rbind (CreateDecoder mu kinds) (\<lambda>dec. rbind (CreateSizer mu kinds) (\<lambda>sz.
     Inr \<lparr>valueEncoder = enc, valueDecoder = dec, valueSizer = sz\<rparr>)))"

definition emptyBase :: StateTypeBase where
  "emptyBase = \<lparr>hasValue = False, updated = False, deleted = False\<rparr>"

fun base :: "StateType \<Rightarrow> StateTypeBase" where
  "base (ValueSt v) = vs_base v"
| "base (ListSt l) = ls_base l"

fun Clear :: "StateType \<Rightarrow> StateType" where
  "Clear (ValueSt v) = ValueSt (v\<lparr>vs_base := (vs_base v)\<lparr>deleted := True\<rparr>\<rparr>)"
| "Clear (ListSt l) = ListSt (l\<lparr>ls_base := (ls_base l)\<lparr>deleted := True\<rparr>\<rparr>)"

definition IsUpdated :: "StateType \<Rightarrow> bool" where
  "IsUpdated s = updated (base s)"

definition HasValue :: "StateType \<Rightarrow> bool" where
  "HasValue s = hasValue (base s)"

definition IsDeleted :: "StateType \<Rightarrow> bool" where
  "IsDeleted s = deleted (base s)"

fun IsAppended :: "StateType \<Rightarrow> bool" where
  "IsAppended (ValueSt v) = False"
| "IsAppended (ListSt l) = appended l"


section \<open>Value states\<close>

definition NewValueState :: "tupleVal option \<Rightarrow> ValueState" where
  "NewValueState val = \<lparr>vs_base = \<lparr>hasValue = True, updated = True, deleted = False\<rparr>, vs_state = val\<rparr>"

definition vs_Get :: "ValueState \<Rightarrow> tupleVal option \<times> bool" where
  "vs_Get v = (if \<not> hasValue (vs_base v) then (None, False) else (vs_state v, True))"

definition vs_Set :: "tupleVal option \<Rightarrow> ValueState \<Rightarrow> ValueState" where
  "vs_Set t v = v\<lparr>vs_state := t, vs_base := (vs_base v)\<lparr>hasValue := True, updated := True\<rparr>\<rparr>"

definition vs_New :: ValueState where
  "vs_New = \<lparr>vs_base = emptyBase, vs_state = None\<rparr>"

definition vs_Deserialize :: "tupleCodec \<Rightarrow> byte list \<Rightarrow> ValueState \<Rightarrow> ValueState res" where
  "vs_Deserialize c stateInBytes v =
     rbind (valueDecoder c stateInBytes) (\<lambda>(t, _). case t of
       None \<Rightarrow> Inl (Fatal ''Failed to decode value'')
     | Some t \<Rightarrow> Inr (v\<lparr>vs_state := Some t, vs_base := (vs_base v)\<lparr>hasValue := True\<rparr>\<rparr>))"

definition vs_Serialize :: "tupleCodec \<Rightarrow> ValueState \<Rightarrow> byte list res" where
  "vs_Serialize c v =
     rbind (deref (vs_state v)) (\<lambda>t. rbind (valueSizer c t) (\<lambda>n.
     rbind (valueEncoder c t (replicate n 0)) (\<lambda>(buf, _). Inr buf)))"

definition vs_CopyFrom :: "StateType \<Rightarrow> ValueState \<Rightarrow> ValueState res" where
  "vs_CopyFrom other v = (case other of
       ListSt _ \<Rightarrow> Inl (Fatal ''CopyFrom: other is not ValueState'')
     | ValueSt o' \<Rightarrow> Inr (v\<lparr>vs_state := vs_state o', vs_base := vs_base o'\<rparr>))"


section \<open>List states\<close>

definition NewListState :: "tupleVal list option \<Rightarrow> ListState res" where
  "NewListState vals = (case vals of
       None \<Rightarrow> Inl (Fatal ''ListState must be initialized with non-nil list'')
     | Some ts \<Rightarrow> Inr \<lparr>ls_base = \<lparr>hasValue = True, updated = True, deleted = False\<rparr>, ls_state = ts,
         appended = False, appendStartIdx = length ts\<rparr>)"

definition ls_Get :: "ListState \<Rightarrow> tupleVal list" where
  "ls_Get l = ls_state l"

definition ls_Update :: "tupleVal list \<Rightarrow> ListState \<Rightarrow> ListState" where
  "ls_Update vals l = l\<lparr>ls_state := vals, ls_base := (ls_base l)\<lparr>hasValue := True, updated := True\<rparr>\<rparr>"

definition ls_Add :: "tupleVal \<Rightarrow> ListState \<Rightarrow> ListState" where
  "ls_Add val l = l\<lparr>ls_state := ls_state l @ [val], ls_base := (ls_base l)\<lparr>hasValue := True\<rparr>, appended := True\<rparr>"

definition ls_AddAll :: "tupleVal list \<Rightarrow> ListState \<Rightarrow> ListState" where
  "ls_AddAll vals l = l\<lparr>ls_state := ls_state l @ vals, ls_base := (ls_base l)\<lparr>hasValue := True\<rparr>, appended := True\<rparr>"

definition ls_New :: ListState where
  "ls_New = \<lparr>ls_base = emptyBase, ls_state = [], appended = False, appendStartIdx = 0\<rparr>"

text \<open>The loop ends only if every decoded tuple uses bytes: \<open>None\<close> is a loop that never returns.\<close>

partial_function (option) decodeLoop :: "tupleCodec \<Rightarrow> byte list \<Rightarrow> nat \<Rightarrow> tupleVal list \<Rightarrow> tupleVal list run" where
  "decodeLoop c stateInBytes currPos acc =
     (if currPos < length stateInBytes then
        case valueDecoder c (drop currPos stateInBytes) of
          Inl e \<Rightarrow> Some (Inl e)
        | Inr r \<Rightarrow> (case fst r of
            None \<Rightarrow> Some (Inl (Fatal ''Failed to decode ListState''))
          | Some t \<Rightarrow> decodeLoop c stateInBytes (currPos + snd r) (acc @ [t]))
      else Some (Inr acc))"

definition ls_Deserialize :: "tupleCodec \<Rightarrow> byte list \<Rightarrow> ListState \<Rightarrow> ListState run" where
  "ls_Deserialize c stateInBytes l =
     obind (decodeLoop c stateInBytes 0 (ls_state l)) (\<lambda>ts.
     Some (Inr (l\<lparr>ls_state := ts, ls_base := (ls_base l)\<lparr>hasValue := True\<rparr>, appendStartIdx := length ts\<rparr>)))"

definition serializeFromIndex :: "tupleCodec \<Rightarrow> nat \<Rightarrow> ListState \<Rightarrow> byte list res" where
  "serializeFromIndex c startIdx l =
     rbind (fatal_if (length (ls_state l) \<le> startIdx) ''startIdx >= len(state)'') (\<lambda>_.
     rbind (rfold (\<lambda>totalSize val. rbind (valueSizer c val) (\<lambda>n. Inr (totalSize + n))) 0 (drop startIdx (ls_state l))) (\<lambda>totalSize.
     rbind (rfold (\<lambda>(buf, currPos) val. if length buf < currPos then Inl (Panic ''slice bounds out of range'')
              else rbind (valueEncoder c val (drop currPos buf)) (\<lambda>(part, usedBytes).
                   Inr (take currPos buf @ part, currPos + usedBytes)))
            (replicate totalSize 0, 0) (drop startIdx (ls_state l))) (\<lambda>(buf, _). Inr buf)))"

definition ls_CopyFrom :: "StateType \<Rightarrow> ListState \<Rightarrow> ListState res" where
  "ls_CopyFrom other l = (case other of
       ValueSt _ \<Rightarrow> Inl (Fatal ''CopyFrom: other is not ListState'')
     | ListSt o' \<Rightarrow> Inr (l\<lparr>ls_state := ls_state o', ls_base := ls_base o', appended := appended o',
         appendStartIdx := appendStartIdx o'\<rparr>))"


section \<open>The common interface\<close>

definition New :: "stateKind \<Rightarrow> StateType" where
  "New k = (case k of ValueKind \<Rightarrow> ValueSt vs_New | ListKind \<Rightarrow> ListSt ls_New)"

fun Deserialize :: "tupleCodec \<Rightarrow> byte list \<Rightarrow> StateType \<Rightarrow> StateType run" where
  "Deserialize c bs (ValueSt v) = obind (Some (vs_Deserialize c bs v)) (\<lambda>v. Some (Inr (ValueSt v)))"
| "Deserialize c bs (ListSt l) = obind (ls_Deserialize c bs l) (\<lambda>l. Some (Inr (ListSt l)))"

fun Serialize :: "tupleCodec \<Rightarrow> StateType \<Rightarrow> byte list res" where
  "Serialize c (ValueSt v) = vs_Serialize c v"
| "Serialize c (ListSt l) = serializeFromIndex c 0 l"

fun SerializeInc :: "tupleCodec \<Rightarrow> StateType \<Rightarrow> byte list res" where
  "SerializeInc c (ValueSt v) = Inl (Fatal ''ValueState does not support incremental serialization'')"
| "SerializeInc c (ListSt l) = serializeFromIndex c (appendStartIdx l) l"


section \<open>Round trip of a state\<close>

text \<open>The codec writes the tuples that satisfy \<open>P\<close> as the bytes \<open>tb\<close>.\<close>

definition codecOk :: "tupleCodec \<Rightarrow> (tupleVal \<Rightarrow> bool) \<Rightarrow> (tupleVal \<Rightarrow> byte list) \<Rightarrow> bool" where
  "codecOk c P tb \<longleftrightarrow> (\<forall>t. P t \<longrightarrow> tb t \<noteq> [] \<and> valueSizer c t = Inr (length (tb t))
     \<and> (\<forall>buf. length (tb t) \<le> length buf \<longrightarrow> valueEncoder c t buf = Inr (tb t @ drop (length (tb t)) buf, length (tb t)))
     \<and> (\<forall>rest. valueDecoder c (tb t @ rest) = Inr (Some t, length (tb t))))"

lemma codecOkD:
  assumes "codecOk c P tb" "P t"
  shows "tb t \<noteq> []" "valueSizer c t = Inr (length (tb t))"
    "length (tb t) \<le> length buf \<Longrightarrow> valueEncoder c t buf = Inr (tb t @ drop (length (tb t)) buf, length (tb t))"
    "valueDecoder c (tb t @ rest) = Inr (Some t, length (tb t))"
  using assms unfolding codecOk_def by blast+

lemma GetTupleCodec_ok:
  assumes mu: "mus_ok mu" and k: "list_all SupportedKind kinds"
  shows "\<exists>c. GetTupleCodec mu kinds = Inr c \<and> codecOk c (tuple_ok kinds) (tupleBytes mu kinds)"
proof -
  obtain enc dec sz where c: "CreateEncoder mu kinds = Inr enc" "CreateDecoder mu kinds = Inr dec" "CreateSizer mu kinds = Inr sz"
    using k by (simp add: CreateEncoder_def CreateDecoder_def CreateSizer_def checkKinds_ok)
  have "codecOk \<lparr>valueEncoder = enc, valueDecoder = dec, valueSizer = sz\<rparr> (tuple_ok kinds) (tupleBytes mu kinds)"
    unfolding codecOk_def
  proof (intro allI impI)
    fix t assume t: "tuple_ok kinds t"
    have "MarshalNum mu KindInt64 (timestamp t) \<noteq> []" using mu t by (simp add: mus_ok_def tuple_ok_def)
    then have "tupleBytes mu kinds t \<noteq> []" by (simp add: tupleBytes_def)
    then show "tupleBytes mu kinds t \<noteq> []
       \<and> valueSizer \<lparr>valueEncoder = enc, valueDecoder = dec, valueSizer = sz\<rparr> t = Inr (length (tupleBytes mu kinds t))
       \<and> (\<forall>buf. length (tupleBytes mu kinds t) \<le> length buf \<longrightarrow>
            valueEncoder \<lparr>valueEncoder = enc, valueDecoder = dec, valueSizer = sz\<rparr> t buf
              = Inr (tupleBytes mu kinds t @ drop (length (tupleBytes mu kinds t)) buf, length (tupleBytes mu kinds t)))
       \<and> (\<forall>rest. valueDecoder \<lparr>valueEncoder = enc, valueDecoder = dec, valueSizer = sz\<rparr> (tupleBytes mu kinds t @ rest)
              = Inr (Some t, length (tupleBytes mu kinds t)))"
      using codec_functions[OF mu t] c by simp
  qed
  then show ?thesis by (simp add: GetTupleCodec_def c)
qed

definition listBytes :: "(tupleVal \<Rightarrow> byte list) \<Rightarrow> tupleVal list \<Rightarrow> byte list" where
  "listBytes tb ts = concat (map tb ts)"

lemma listBytes_simps [simp]:
  "listBytes tb [] = []" "listBytes tb (t # ts) = tb t @ listBytes tb ts" "listBytes tb (ts @ us) = listBytes tb ts @ listBytes tb us"
  by (simp_all add: listBytes_def)

lemma listBytes_empty: "codecOk c P tb \<Longrightarrow> list_all P ts \<Longrightarrow> listBytes tb ts = [] \<longleftrightarrow> ts = []"
  using codecOkD(1) by (cases ts) auto

lemma size_list:
  assumes "codecOk c P tb" "list_all P ts"
  shows "rfold (\<lambda>totalSize val. rbind (valueSizer c val) (\<lambda>n. Inr (totalSize + n))) m ts = Inr (m + length (listBytes tb ts))"
  using assms(2) by (induction ts arbitrary: m) (simp_all add: codecOkD(2)[OF assms(1)])

lemma encode_list:
  assumes c: "codecOk c P tb" and "list_all P ts" "length (listBytes tb ts) \<le> length rest"
  shows "rfold (\<lambda>(buf, currPos) val. if length buf < currPos then Inl (Panic ''slice bounds out of range'')
              else rbind (valueEncoder c val (drop currPos buf)) (\<lambda>(part, usedBytes).
                   Inr (take currPos buf @ part, currPos + usedBytes))) (pre @ rest, length pre) ts
    = Inr (pre @ listBytes tb ts @ drop (length (listBytes tb ts)) rest, length pre + length (listBytes tb ts))"
  using assms(2, 3)
proof (induction ts arbitrary: pre rest)
  case (Cons t ts)
  have e: "valueEncoder c t rest = Inr (tb t @ drop (length (tb t)) rest, length (tb t))"
    by (rule codecOkD(3)[OF c]) (use Cons.prems in simp_all)
  show ?case
    using Cons.IH[of "drop (length (tb t)) rest" "pre @ tb t"] Cons.prems by (simp add: e add.commute add.left_commute)
qed simp

lemma serializeFromIndex_ok:
  assumes "codecOk c P tb" "list_all P (ls_state l)" "i < length (ls_state l)"
  shows "serializeFromIndex c i l = Inr (listBytes tb (drop i (ls_state l)))"
proof -
  let ?ts = "drop i (ls_state l)"
  have P: "list_all P ?ts" using assms(2) by (auto simp: list_all_iff dest: in_set_dropD)
  show ?thesis
    using assms(3) size_list[OF assms(1) P, of 0] encode_list[OF assms(1) P, of "replicate (length (listBytes tb ?ts)) 0" "[]"]
    by (simp add: serializeFromIndex_def)
qed

lemma decodeLoop_ok:
  assumes "codecOk c P tb" "list_all P ts"
  shows "decodeLoop c (pre @ listBytes tb ts) (length pre) acc = Some (Inr (acc @ ts))"
  using assms(2)
proof (induction ts arbitrary: pre acc)
  case Nil
  show ?case by (subst decodeLoop.simps) simp
next
  case (Cons t ts)
  have "P t" using Cons.prems by simp
  note d = codecOkD[OF assms(1) this]
  have "decodeLoop c (pre @ listBytes tb (t # ts)) (length pre) acc
      = decodeLoop c ((pre @ tb t) @ listBytes tb ts) (length (pre @ tb t)) (acc @ [t])"
    using d(1, 4) by (subst decodeLoop.simps) simp
  also have "\<dots> = Some (Inr (acc @ t # ts))" using Cons.IH[of "pre @ tb t" "acc @ [t]"] Cons.prems by simp
  finally show ?case .
qed

text \<open>A decoder that uses at least one byte for every tuple: the loop always returns.\<close>

lemma decodeLoop_returns:
  assumes "\<And>bs t n. valueDecoder c bs = Inr (Some t, n) \<Longrightarrow> 0 < n"
  shows "decodeLoop c bs pos acc \<noteq> None"
proof (induction "length bs - pos" arbitrary: pos acc rule: less_induct)
  case less
  show ?case
  proof (cases "pos < length bs")
    case True
    show ?thesis
    proof (cases "valueDecoder c (drop pos bs)")
      case (Inr r)
      show ?thesis
      proof (cases "fst r")
        case (Some t)
        then have "0 < snd r" using assms[of "drop pos bs" t "snd r"] Inr by (cases r) simp
        then have "decodeLoop c bs (pos + snd r) (acc @ [t]) \<noteq> None" using True by (intro less) simp
        then show ?thesis using True Inr Some by (subst decodeLoop.simps) simp
      qed (subst decodeLoop.simps, use True Inr in simp)
    qed (subst decodeLoop.simps, use True in simp)
  qed (subst decodeLoop.simps, simp)
qed

end
