(* ===== verification/State_Cache.thy ===== *)
theory State_Cache
  imports State_Types
begin

text \<open>
  The caches of the state client (\<^verbatim>\<open>api/stateClient/stateCache\<close>): the states of the keys of one batch, for
  plain keys or for keys with a window start time, and the decision how a changed state is flushed.
\<close>

section \<open>Common part\<close>

text \<open>The codec is set up when the task is placed, and is nil before.\<close>

record StateCacheBase =
  allowIncrementalSerialization :: bool
  cacheKind :: stateKind
  cacheCodec :: "tupleCodec option"

definition newStateCacheBase :: "stateKind \<Rightarrow> StateCacheBase" where
  "newStateCacheBase k = \<lparr>allowIncrementalSerialization = False, cacheKind = k, cacheCodec = None\<rparr>"

definition setupBase :: "mus \<Rightarrow> kind list \<Rightarrow> bool \<Rightarrow> StateCacheBase \<Rightarrow> StateCacheBase res" where
  "setupBase mu kinds allowInc b =
     rbind (GetTupleCodec mu kinds) (\<lambda>c. Inr (b\<lparr>cacheCodec := Some c, allowIncrementalSerialization := allowInc\<rparr>))"

definition deserializeValue :: "StateCacheBase \<Rightarrow> byte list option \<Rightarrow> StateType run" where
  "deserializeValue b serializedValue =
     (case serializedValue of
        None \<Rightarrow> Some (Inr (New (cacheKind b)))
      | Some bs \<Rightarrow> if 0 < length bs
          then obind (Some (deref (cacheCodec b))) (\<lambda>c. Deserialize c bs (New (cacheKind b)))
          else Some (Inr (New (cacheKind b))))"

text \<open>What the flush does with a state: nothing, write all of it, append the new part, or delete it.\<close>

datatype flushAction = Keep | Overwrite "byte list" | Append "byte list" | Delete

definition flushAction :: "StateCacheBase \<Rightarrow> StateType \<Rightarrow> flushAction res" where
  "flushAction b val =
     (if \<not> HasValue val then Inr Keep
      else if IsDeleted val then Inr Delete
      else if IsUpdated val \<or> (\<not> allowIncrementalSerialization b \<and> IsAppended val)
      then rbind (deref (cacheCodec b)) (\<lambda>c. rbind (Serialize c val) (\<lambda>bs. Inr (Overwrite bs)))
      else if IsAppended val
      then rbind (deref (cacheCodec b)) (\<lambda>c. rbind (SerializeInc c val) (\<lambda>bs. Inr (Append bs)))
      else Inr Keep)"

record flushData =
  keysToWrite :: "byte list list"
  bucketsToWrite :: "int list"
  valuesToWrite :: "byte list list"
  keysToMerge :: "byte list list"
  bucketsToMerge :: "int list"
  valuesToMerge :: "byte list list"
  keysToDelete :: "byte list list"
  bucketsToDelete :: "int list"

definition noFlushData :: flushData where
  "noFlushData = \<lparr>keysToWrite = [], bucketsToWrite = [], valuesToWrite = [], keysToMerge = [], bucketsToMerge = [],
     valuesToMerge = [], keysToDelete = [], bucketsToDelete = []\<rparr>"

definition flushStep :: "StateCacheBase \<Rightarrow> byte list list \<Rightarrow> int list \<Rightarrow> flushData \<Rightarrow> nat \<Rightarrow> StateType \<Rightarrow> flushData res" where
  "flushStep b serializedKeys bucketIDs d i val =
     rbind (flushAction b val) (\<lambda>a. if a = Keep then Inr d else
     rbind (at_idx serializedKeys i) (\<lambda>k. rbind (at_idx bucketIDs i) (\<lambda>bid. Inr (case a of
         Keep \<Rightarrow> d
       | Overwrite bs \<Rightarrow> d\<lparr>keysToWrite := keysToWrite d @ [k], bucketsToWrite := bucketsToWrite d @ [bid],
           valuesToWrite := valuesToWrite d @ [bs]\<rparr>
       | Append bs \<Rightarrow> d\<lparr>keysToMerge := keysToMerge d @ [k], bucketsToMerge := bucketsToMerge d @ [bid],
           valuesToMerge := valuesToMerge d @ [bs]\<rparr>
       | Delete \<Rightarrow> d\<lparr>keysToDelete := keysToDelete d @ [k], bucketsToDelete := bucketsToDelete d @ [bid]\<rparr>))))"


section \<open>Caches\<close>

text \<open>\<open>None\<close> is an unset (nil) map. The cached states are objects that the user updates in place.\<close>

record 'k SimpleStateCache =
  s_base :: StateCacheBase
  s_cache :: "('k \<rightharpoonup> StateType) option"

record 'k WindowStateCache =
  w_base :: StateCacheBase
  w_cache :: "('k \<rightharpoonup> (int \<rightharpoonup> StateType)) option"

datatype 'k StateCache = SimpleCache "'k SimpleStateCache" | WindowCache "'k WindowStateCache"

definition NewSimpleStateCache :: "stateKind \<Rightarrow> 'k StateCache" where
  "NewSimpleStateCache k = SimpleCache \<lparr>s_base = newStateCacheBase k, s_cache = None\<rparr>"

definition NewWindowStateCache :: "stateKind \<Rightarrow> 'k StateCache" where
  "NewWindowStateCache k = WindowCache \<lparr>w_base = newStateCacheBase k, w_cache = None\<rparr>"

fun cacheBase :: "'k StateCache \<Rightarrow> StateCacheBase" where
  "cacheBase (SimpleCache c) = s_base c"
| "cacheBase (WindowCache c) = w_base c"

fun cache_Setup :: "mus \<Rightarrow> kind list \<Rightarrow> bool \<Rightarrow> 'k StateCache \<Rightarrow> 'k StateCache res" where
  "cache_Setup mu kinds allowInc (SimpleCache c) =
     rbind (setupBase mu kinds allowInc (s_base c)) (\<lambda>b. Inr (SimpleCache (c\<lparr>s_base := b\<rparr>)))"
| "cache_Setup mu kinds allowInc (WindowCache c) =
     rbind (setupBase mu kinds allowInc (w_base c)) (\<lambda>b. Inr (WindowCache (c\<lparr>w_base := b\<rparr>)))"

fun CleanUp :: "'k StateCache \<Rightarrow> 'k StateCache" where
  "CleanUp (SimpleCache c) = SimpleCache (c\<lparr>s_cache := None\<rparr>)"
| "CleanUp (WindowCache c) = WindowCache (c\<lparr>w_cache := None\<rparr>)"

fun IsUnset :: "'k StateCache \<Rightarrow> bool" where
  "IsUnset (SimpleCache c) = (s_cache c = None)"
| "IsUnset (WindowCache c) = (w_cache c = None)"

fun SetSimpleStateCache :: "'k list \<Rightarrow> byte list option list \<Rightarrow> 'k StateCache \<Rightarrow> 'k StateCache run" where
  "SetSimpleStateCache keys values (SimpleCache c) =
     obind (ofold (\<lambda>m (i, key).
         obind (Some (at_idx values i)) (\<lambda>v. obind (deserializeValue (s_base c) v) (\<lambda>st. Some (Inr (m(key \<mapsto> st))))))
       (Map.empty) (enumerate 0 keys)) (\<lambda>m.
     Some (Inr (SimpleCache (c\<lparr>s_cache := Some m\<rparr>))))"
| "SetSimpleStateCache keys values (WindowCache c) = Some (Inl (Fatal ''SetSimpleStateCache not implemented''))"

definition setWindow :: "('k \<rightharpoonup> (int \<rightharpoonup> StateType)) \<Rightarrow> 'k \<Rightarrow> int \<Rightarrow> StateType \<Rightarrow> ('k \<rightharpoonup> (int \<rightharpoonup> StateType))" where
  "setWindow m key t st = (case m key of
       Some windows \<Rightarrow> m(key \<mapsto> windows(t \<mapsto> st))
     | None \<Rightarrow> m(key \<mapsto> [t \<mapsto> st]))"

fun SetWindowStateCache :: "'k list \<Rightarrow> int list \<Rightarrow> byte list option list \<Rightarrow> 'k StateCache \<Rightarrow> 'k StateCache run" where
  "SetWindowStateCache keys timestamps values (WindowCache c) =
     obind (ofold (\<lambda>m (i, key).
         obind (Some (at_idx values i)) (\<lambda>v. obind (deserializeValue (w_base c) v) (\<lambda>st.
         obind (Some (at_idx timestamps i)) (\<lambda>t. Some (Inr (setWindow m key t st))))))
       (Map.empty) (enumerate 0 keys)) (\<lambda>m.
     Some (Inr (WindowCache (c\<lparr>w_cache := Some m\<rparr>))))"
| "SetWindowStateCache keys timestamps values (SimpleCache c) = Some (Inl (Fatal ''SetWindowStateCache not implemented''))"

text \<open>Reading a missing key of a cache gives a nil pointer, reading a nil cache too.\<close>

definition simpleEntry :: "'k SimpleStateCache \<Rightarrow> 'k \<Rightarrow> StateType option" where
  "simpleEntry c key = (case s_cache c of None \<Rightarrow> None | Some m \<Rightarrow> m key)"

definition windowEntry :: "'k WindowStateCache \<Rightarrow> 'k \<Rightarrow> int \<Rightarrow> StateType option" where
  "windowEntry c key t = (case w_cache c of None \<Rightarrow> None | Some m \<Rightarrow>
     (case m key of None \<Rightarrow> None | Some windows \<Rightarrow> windows t))"

fun GetSimpleStateFlushData :: "'k list \<Rightarrow> byte list list \<Rightarrow> int list \<Rightarrow> 'k StateCache \<Rightarrow> flushData res" where
  "GetSimpleStateFlushData keys serializedKeys bucketIDs (SimpleCache c) =
     rbind (fatal_if (length keys \<noteq> length serializedKeys) ''keys and serializedKeys must have the same length'') (\<lambda>_.
     rfold (\<lambda>d (i, key). rbind (deref (simpleEntry c key)) (flushStep (s_base c) serializedKeys bucketIDs d i))
       noFlushData (enumerate 0 keys))"
| "GetSimpleStateFlushData keys serializedKeys bucketIDs (WindowCache c) = Inl (Fatal ''GetSimpleStateFlushData not implemented'')"

fun GetWindowStateFlushData :: "'k list \<Rightarrow> int list \<Rightarrow> byte list list \<Rightarrow> int list \<Rightarrow> 'k StateCache \<Rightarrow> flushData res" where
  "GetWindowStateFlushData keys timestamps serializedKeys bucketIDs (WindowCache c) =
     rbind (fatal_if (length keys \<noteq> length timestamps \<or> length timestamps \<noteq> length serializedKeys)
              ''keys, timestamps, and serializedKeys must have the same length'') (\<lambda>_.
     rfold (\<lambda>d (i, key). rbind (at_idx timestamps i) (\<lambda>t.
         rbind (deref (windowEntry c key t)) (flushStep (w_base c) serializedKeys bucketIDs d i)))
       noFlushData (enumerate 0 keys))"
| "GetWindowStateFlushData keys timestamps serializedKeys bucketIDs (SimpleCache c) = Inl (Fatal ''GetWindowStateFlushData not implemented'')"

fun cache_GetSimpleState :: "'k \<Rightarrow> 'k StateCache \<Rightarrow> StateType res" where
  "cache_GetSimpleState key (SimpleCache c) = (case simpleEntry c key of
       Some st \<Rightarrow> Inr st | None \<Rightarrow> Inl (Fatal ''All requested key must exist in cache''))"
| "cache_GetSimpleState key (WindowCache c) = Inl (Fatal ''GetSimpleState not implemented'')"

fun cache_GetWindowState :: "'k \<Rightarrow> int \<Rightarrow> 'k StateCache \<Rightarrow> StateType res" where
  "cache_GetWindowState key t (WindowCache c) = (case windowEntry c key t of
       Some st \<Rightarrow> Inr st | None \<Rightarrow> Inl (Fatal ''All requested key must exist in cache''))"
| "cache_GetWindowState key t (SimpleCache c) = Inl (Fatal ''GetWindowState not implemented'')"

end
