(* ===== verification/State_Client.thy ===== *)
theory State_Client
  imports State_Cache State_Service
begin

text \<open>
  The state client (\<^verbatim>\<open>api/stateClient/stateClient.go\<close>, \<^verbatim>\<open>stateClientUtils.go\<close>): it encodes the keys of a batch,
  fetches their states into the caches, and flushes what the user functions changed. The state service it
  calls is a record of its four operations, \<open>serviceApi\<close> is the service of theory \<open>State_Service\<close>.
  A key is a field value, and two keys are equal when their encodings are: this holds for all kinds but the
  floating point ones, which Go compares by value.
\<close>

section \<open>State\<close>

datatype StateClientType = SimpleStateClient | WindowStateClient

record StateClient =
  sc_operatorID :: u16
  curStateIdCounter :: u16
  stateClientType :: StateClientType
  keyHashFunc :: "bytes \<Rightarrow> u64"
  sc_numBuckets :: int
  keyEncoder :: "fieldVal \<Rightarrow> bytes res"
  keySizer :: "fieldVal \<Rightarrow> nat res"
  sc_cache :: "(u16, fieldVal StateCache) gomap"
  dedupedKeys :: "fieldVal list"
  sc_bucketIDs :: "int list"
  serializedKeys :: keysPerState
  dedupedWindowStartTimes :: "int list"


section \<open>Set up\<close>

definition NewStateClient :: "StateClientType \<Rightarrow> StateClient" where
  "NewStateClient ty = \<lparr>sc_operatorID = 0, curStateIdCounter = 0, stateClientType = ty,
     keyHashFunc = (\<lambda>_. 0), sc_numBuckets = 0, keyEncoder = (\<lambda>_. Inl (Panic ''nil pointer dereference'')),
     keySizer = (\<lambda>_. Inl (Panic ''nil pointer dereference'')), sc_cache = [], dedupedKeys = [], sc_bucketIDs = [],
     serializedKeys = [], dedupedWindowStartTimes = []\<rparr>"

definition RegisterState :: "stateKind \<Rightarrow> StateClient \<Rightarrow> StateClient \<times> u16" where
  "RegisterState k sc =
     (let curStateID = curStateIdCounter sc;
          cache = (case stateClientType sc of SimpleStateClient \<Rightarrow> NewSimpleStateCache k | WindowStateClient \<Rightarrow> NewWindowStateCache k) in
      (sc\<lparr>curStateIdCounter := curStateIdCounter sc + 1, sc_cache := AList.update curStateID cache (sc_cache sc)\<rparr>, curStateID))"

record clientConfig =
  cfgHash :: "bytes \<Rightarrow> u64"
  cfgNumBuckets :: int
  StateBackendType :: string

text \<open>\<open>keyKind\<close> is the type of the keys and \<open>tupleKinds\<close> gives the field types of the tuples of every state.\<close>

definition sc_Setup :: "mus \<Rightarrow> kind \<Rightarrow> (u16 \<Rightarrow> kind list) \<Rightarrow> u16 \<Rightarrow> clientConfig \<Rightarrow> StateClient \<Rightarrow> StateClient res" where
  "sc_Setup mu keyKind tupleKinds operatorID config sc =
     (if \<not> SupportedKind keyKind then Inl (Panic ''unknown kind'') else
      let sc = sc\<lparr>sc_operatorID := operatorID, keyHashFunc := cfgHash config, sc_numBuckets := cfgNumBuckets config,
                  keyEncoder := EncodeFuncFromKind mu keyKind, keySizer := TupleSizeFuncFromKind mu keyKind\<rparr> in
      rbind (fatal_if (length (sc_cache sc) \<le> 0) ''no state registered in state client'') (\<lambda>_.
      let allowIncrementalSerialization = (StateBackendType config \<noteq> ''tikv'' \<and> StateBackendType config \<noteq> ''memory''
                                            \<and> StateBackendType config \<noteq> ''remote-pebble'') in
      rbind (rfold (\<lambda>cs (stateID, cache).
               rbind (cache_Setup mu (tupleKinds stateID) allowIncrementalSerialization cache) (\<lambda>cache. Inr (cs @ [(stateID, cache)])))
               [] (sc_cache sc)) (\<lambda>cs.
      Inr (sc\<lparr>sc_cache := cs\<rparr>))))"


section \<open>Keys\<close>

definition encodeStateID :: "bytes \<Rightarrow> u16 \<Rightarrow> bytes res" where
  "encodeStateID buf stateID = rbind (writeAt (buf, 6) (bePut 2 (unat stateID))) (\<lambda>(buf, _). Inr buf)"

definition bucketOfBytes :: "StateClient \<Rightarrow> bytes \<Rightarrow> u64 res" where
  "bucketOfBytes sc key =
     (if (word_of_int (sc_numBuckets sc) :: u64) = 0 then Inl (Panic ''integer divide by zero'')
      else Inr (keyHashFunc sc key mod word_of_int (sc_numBuckets sc)))"

definition encodeKeyPrefix :: "StateClient \<Rightarrow> bytes \<Rightarrow> bytes \<Rightarrow> u16 \<Rightarrow> (bytes \<times> int) res" where
  "encodeKeyPrefix sc buf key stateID =
     rbind (writeAt (buf, 0) (bePut 2 (unat (sc_operatorID sc)))) (\<lambda>(buf, _).
     rbind (bucketOfBytes sc key) (\<lambda>bucketIdx.
     rbind (writeAt (buf, 2) (bePut 4 (unat (ucast bucketIdx :: u32)))) (\<lambda>(buf, _).
     rbind (encodeStateID buf stateID) (\<lambda>buf. Inr (buf, sint bucketIdx)))))"

definition encodeSimpleKey :: "StateClient \<Rightarrow> fieldVal \<Rightarrow> u16 \<Rightarrow> (bytes \<times> int) res" where
  "encodeSimpleKey sc key stateID =
     rbind (keySizer sc key) (\<lambda>n.
     rbind (keyEncoder sc key) (\<lambda>bs.
     rbind (writeAt (replicate (8 + n) 0, 8) bs) (\<lambda>(buf, _).
     encodeKeyPrefix sc buf (drop 8 buf) stateID)))"

definition encodeWindowKey :: "mus \<Rightarrow> StateClient \<Rightarrow> fieldVal \<Rightarrow> int \<Rightarrow> u16 \<Rightarrow> (bytes \<times> int) res" where
  "encodeWindowKey mu sc key windowStartTime stateID =
     rbind (keySizer sc key) (\<lambda>n.
     rbind (keyEncoder sc key) (\<lambda>bs.
     rbind (writeAt (replicate (8 + n + SizeNum mu KindInt64 windowStartTime) 0, 8) bs) (\<lambda>(buf, windowStartTimeOffset).
     rbind (writeAt (buf, windowStartTimeOffset) (MarshalNum mu KindInt64 windowStartTime)) (\<lambda>(buf, _).
     rbind (gslice buf 8 windowStartTimeOffset) (\<lambda>keyPart.
     encodeKeyPrefix sc buf keyPart stateID)))))"

definition validateStateIDs :: "StateClient \<Rightarrow> u16 list \<Rightarrow> unit res" where
  "validateStateIDs sc stateIDs =
     rbind (fatal_if (length stateIDs = 0) ''Empty state IDs to fetch'') (\<lambda>_.
     rfold (\<lambda>_ stateID. fatal_if (map_of (sc_cache sc) stateID = None) ''requested State ID not registered in state client'') () stateIDs)"

definition pushKey :: "keysPerState \<Rightarrow> u16 \<Rightarrow> bytes \<Rightarrow> keysPerState" where
  "pushKey m stateID key = AList.update stateID (mslice m stateID @ [key]) m"

definition serializeMultiStateKeys :: "bytes \<Rightarrow> u16 list \<Rightarrow> keysPerState \<Rightarrow> keysPerState res" where
  "serializeMultiStateKeys template stateIDs m =
     rfold (\<lambda>m stateID. rbind (encodeStateID template stateID) (\<lambda>key. Inr (pushKey m stateID key))) m stateIDs"

text \<open>Serializing all keys: \<open>enc\<close> encodes one of them for a state.\<close>

definition serializeStepFor :: "('k \<Rightarrow> u16 \<Rightarrow> (bytes \<times> int) res) \<Rightarrow> u16 list \<Rightarrow> keysPerState \<times> int list \<Rightarrow> 'k \<Rightarrow>
    (keysPerState \<times> int list) res" where
  "serializeStepFor enc stateIDs acc key =
     rbind (at_idx stateIDs 0) (\<lambda>stateID.
     rbind (enc key stateID) (\<lambda>(serializedKey, bucketId).
     rbind (serializeMultiStateKeys serializedKey (drop 1 stateIDs) (pushKey (fst acc) stateID serializedKey)) (\<lambda>m.
     Inr (m, snd acc @ [bucketId]))))"

definition serializeAll :: "('k \<Rightarrow> u16 \<Rightarrow> (bytes \<times> int) res) \<Rightarrow> u16 list \<Rightarrow> 'k list \<Rightarrow> (keysPerState \<times> int list) res" where
  "serializeAll enc stateIDs keys =
     rfold (serializeStepFor enc stateIDs) (foldl (\<lambda>m stateID. AList.update stateID [] m) [] stateIDs, []) keys"


section \<open>Fetch\<close>

definition dedup :: "'k list \<Rightarrow> 'k list" where
  "dedup keys = foldl (\<lambda>acc key. if key \<in> set acc then acc else acc @ [key]) [] keys"

text \<open>Every requested state is put into its cache, the other caches are cleaned.\<close>

definition refreshCaches :: "(bytes option list \<Rightarrow> fieldVal StateCache \<Rightarrow> fieldVal StateCache run) \<Rightarrow> valsPerState \<Rightarrow>
    (u16, fieldVal StateCache) gomap \<Rightarrow> (u16, fieldVal StateCache) gomap run" where
  "refreshCaches put serializedValues caches =
     ofold (\<lambda>cs (stateID, cache). obind (case map_of serializedValues stateID of
           Some values \<Rightarrow> put values cache | None \<Rightarrow> Some (Inr (CleanUp cache))) (\<lambda>cache.
         Some (Inr (cs @ [(stateID, cache)])))) [] caches"

definition FetchSimpleState :: "'c stateApi \<Rightarrow> StateClient \<Rightarrow> 'c \<Rightarrow> fieldVal list \<Rightarrow> u16 list \<Rightarrow> (StateClient \<times> 'c \<times> nat) run" where
  "FetchSimpleState api sc cl keys stateIDs =
     obind (Some (
       rbind (fatal_if (stateClientType sc = WindowStateClient) ''For window state client, use FetchWindowState()'') (\<lambda>_.
       rbind (fatal_if (length keys = 0) ''Empty keys to fetch'') (\<lambda>_.
       rbind (validateStateIDs sc stateIDs) (\<lambda>_.
       rbind (serializeAll (encodeSimpleKey sc) stateIDs (dedup keys)) (\<lambda>(sks, bids).
       let sc = sc\<lparr>dedupedKeys := dedup keys, serializedKeys := sks, sc_bucketIDs := bids\<rparr> in
       rbind (apiGetMany api cl (sc_operatorID sc) sks bids) (\<lambda>(cl, values). Inr (sc, cl, values))))))))
     (\<lambda>(sc, cl, values).
     obind (refreshCaches (SetSimpleStateCache (dedupedKeys sc)) values (sc_cache sc)) (\<lambda>cs.
     Some (Inr (sc\<lparr>sc_cache := cs\<rparr>, cl, sum_list (map (\<lambda>(_, vs). length vs) values)))))"

definition FetchWindowState :: "mus \<Rightarrow> 'c stateApi \<Rightarrow> StateClient \<Rightarrow> 'c \<Rightarrow> fieldVal list \<Rightarrow> int list \<Rightarrow> u16 list \<Rightarrow>
    (StateClient \<times> 'c \<times> nat) run" where
  "FetchWindowState mu api sc cl keys timestamps stateIDs =
     obind (Some (
       rbind (fatal_if (stateClientType sc = SimpleStateClient) ''For Simple state client, use FetchSimpleState()'') (\<lambda>_.
       rbind (fatal_if (length keys = 0) ''Empty keys to fetch'') (\<lambda>_.
       rbind (fatal_if (length keys \<noteq> length timestamps) ''Keys and timestamps must have the same length'') (\<lambda>_.
       rbind (validateStateIDs sc stateIDs) (\<lambda>_.
       let pairs = dedup (zip keys timestamps) in
       rbind (serializeAll (\<lambda>(key, t). encodeWindowKey mu sc key t) stateIDs pairs) (\<lambda>(sks, bids).
       let sc = sc\<lparr>dedupedKeys := map fst pairs, dedupedWindowStartTimes := map snd pairs, serializedKeys := sks, sc_bucketIDs := bids\<rparr> in
       rbind (apiGetMany api cl (sc_operatorID sc) sks bids) (\<lambda>(cl, values). Inr (sc, cl, values)))))))))
     (\<lambda>(sc, cl, values).
     obind (refreshCaches (SetWindowStateCache (dedupedKeys sc) (dedupedWindowStartTimes sc)) values (sc_cache sc)) (\<lambda>cs.
     Some (Inr (sc\<lparr>sc_cache := cs\<rparr>, cl, sum_list (map (\<lambda>(_, vs). length vs) values)))))"


section \<open>Flush\<close>

text \<open>The requests of the states that have any: \<open>nonempty\<close> is the part whose length is tested.\<close>

definition collect :: "(flushData \<Rightarrow> bytes list) \<Rightarrow> (flushData \<Rightarrow> 'a list) \<Rightarrow> (u16, flushData) gomap \<Rightarrow> (u16, 'a list) gomap" where
  "collect nonempty part ds = map (\<lambda>(stateID, d). (stateID, part d)) (filter (\<lambda>(_, d). 0 < length (nonempty d)) ds)"

definition flushRequests :: "'c stateApi \<Rightarrow> 'c \<Rightarrow> (u16, flushData) gomap \<Rightarrow> ('c \<times> nat \<times> nat \<times> nat) res" where
  "flushRequests api cl ds =
     (let ws = collect keysToWrite keysToWrite ds; ms = collect keysToMerge keysToMerge ds; xs = collect keysToDelete keysToDelete ds;
          count = (\<lambda>m :: keysPerState. sum_list (map (\<lambda>(_, ks). length ks) m)) in
      rbind (if 0 < length ws then apiSetMany api cl ws (collect keysToWrite (map Some \<circ> valuesToWrite) ds)
                (collect keysToWrite bucketsToWrite ds) else Inr cl) (\<lambda>cl.
      rbind (if 0 < length ms then apiMergeMany api cl ms (collect keysToMerge (map Some \<circ> valuesToMerge) ds)
                (collect keysToMerge bucketsToMerge ds) else Inr cl) (\<lambda>cl.
      rbind (if 0 < length xs then apiDeleteMany api cl xs (collect keysToDelete bucketsToDelete ds) else Inr cl) (\<lambda>cl.
      Inr (cl, count ws, count ms, count xs)))))"

text \<open>\<open>ord\<close> is the order in which \<open>range\<close> visits the serialized keys.\<close>

definition gatherFlush :: "(bytes list \<Rightarrow> fieldVal StateCache \<Rightarrow> flushData res) \<Rightarrow> (u16, fieldVal StateCache) gomap \<Rightarrow>
    keysPerState \<Rightarrow> (u16, flushData) gomap res" where
  "gatherFlush get caches sks =
     rfold (\<lambda>ds (stateID, keysPer). rbind (deref (map_of caches stateID)) (\<lambda>cache.
         rbind (get keysPer cache) (\<lambda>d. Inr (ds @ [(stateID, d)])))) [] sks"

definition FlushSimpleState :: "((u16 \<times> bytes list) list \<Rightarrow> (u16 \<times> bytes list) list) \<Rightarrow> 'c stateApi \<Rightarrow> StateClient \<Rightarrow> 'c \<Rightarrow>
    ('c \<times> nat \<times> nat \<times> nat) res" where
  "FlushSimpleState ord api sc cl =
     rbind (fatal_if (stateClientType sc = WindowStateClient) ''For window state client, use FlushWindowState()'') (\<lambda>_.
     rbind (gatherFlush (\<lambda>sks. GetSimpleStateFlushData (dedupedKeys sc) sks (sc_bucketIDs sc)) (sc_cache sc) (ord (serializedKeys sc)))
       (flushRequests api cl))"

definition FlushWindowState :: "((u16 \<times> bytes list) list \<Rightarrow> (u16 \<times> bytes list) list) \<Rightarrow> 'c stateApi \<Rightarrow> StateClient \<Rightarrow> 'c \<Rightarrow>
    ('c \<times> nat \<times> nat \<times> nat) res" where
  "FlushWindowState ord api sc cl =
     rbind (fatal_if (stateClientType sc = SimpleStateClient) ''For Simple state client, use FlushSimpleState()'') (\<lambda>_.
     rbind (gatherFlush (\<lambda>sks. GetWindowStateFlushData (dedupedKeys sc) (dedupedWindowStartTimes sc) sks (sc_bucketIDs sc))
              (sc_cache sc) (ord (serializedKeys sc)))
       (flushRequests api cl))"

definition DeleteAllAndFlush :: "'c stateApi \<Rightarrow> StateClient \<Rightarrow> 'c \<Rightarrow> 'c res" where
  "DeleteAllAndFlush api sc cl =
     apiDeleteMany api cl (serializedKeys sc) (map (\<lambda>(stateID, _). (stateID, sc_bucketIDs sc)) (serializedKeys sc))"

definition deleteStep :: "((u16 \<times> bytes list) list \<Rightarrow> (u16 \<times> bytes list) list) \<Rightarrow> StateClient \<Rightarrow>
    keysPerState \<times> (u16, int list) gomap \<times> (fieldVal \<times> int) list \<Rightarrow> nat \<times> fieldVal \<Rightarrow>
    (keysPerState \<times> (u16, int list) gomap \<times> (fieldVal \<times> int) list) res" where
  "deleteStep ord sc = (\<lambda>(toDelete, buckets, pairs) (i, key).
     rbind (at_idx (dedupedWindowStartTimes sc) i) (\<lambda>startTime.
     if (key, startTime) \<in> set pairs
     then rbind (rfold (\<lambda>(toDelete, buckets) (stateID, keysPer).
              rbind (at_idx keysPer i) (\<lambda>k. rbind (at_idx (sc_bucketIDs sc) i) (\<lambda>b.
              Inr (pushKey toDelete stateID k, AList.update stateID (mslice buckets stateID @ [b]) buckets))))
            (toDelete, buckets) (ord (serializedKeys sc))) (\<lambda>(toDelete, buckets).
          Inr (toDelete, buckets, removeAll (key, startTime) pairs))
     else Inr (toDelete, buckets, pairs)))"

definition DeleteManyAndFlush :: "((u16 \<times> bytes list) list \<Rightarrow> (u16 \<times> bytes list) list) \<Rightarrow> 'c stateApi \<Rightarrow> StateClient \<Rightarrow>
    (fieldVal \<times> int) list \<Rightarrow> 'c \<Rightarrow> 'c res" where
  "DeleteManyAndFlush ord api sc pairs cl =
     rbind (rfold (deleteStep ord sc) ([], [], pairs) (enumerate 0 (dedupedKeys sc))) (\<lambda>(toDelete, buckets, pairs).
     rbind (fatal_if (length pairs \<noteq> 0) ''Not all pairs to be deleted exists from the previous Fetch().'') (\<lambda>_.
     apiDeleteMany api cl toDelete buckets))"


section \<open>Access by the user\<close>

definition sc_lookup :: "StateClient \<Rightarrow> u16 \<Rightarrow> fieldVal StateCache res" where
  "sc_lookup sc stateID = (case map_of (sc_cache sc) stateID of
       None \<Rightarrow> Inl (Fatal ''state ID not registered in state client'')
     | Some cache \<Rightarrow> if IsUnset cache then Inl (Fatal ''state ID cache is unset - Fetch is not called properly'') else Inr cache)"

definition GetSimpleState :: "StateClient \<Rightarrow> u16 \<Rightarrow> fieldVal \<Rightarrow> StateType res" where
  "GetSimpleState sc stateID key = rbind (sc_lookup sc stateID) (cache_GetSimpleState key)"

definition GetWindowState :: "StateClient \<Rightarrow> u16 \<Rightarrow> fieldVal \<Rightarrow> int \<Rightarrow> StateType res" where
  "GetWindowState sc stateID key t = rbind (sc_lookup sc stateID) (cache_GetWindowState key t)"

definition StateCacheIsUnset :: "StateClient \<Rightarrow> u16 \<Rightarrow> bool res" where
  "StateCacheIsUnset sc stateID = (case map_of (sc_cache sc) stateID of
       None \<Rightarrow> Inl (Fatal ''state ID not registered in state client'') | Some cache \<Rightarrow> Inr (IsUnset cache))"

definition GetBucketIdx :: "StateClient \<Rightarrow> fieldVal \<Rightarrow> u64 res" where
  "GetBucketIdx sc key =
     rbind (keySizer sc key) (\<lambda>n. rbind (keyEncoder sc key) (\<lambda>bs.
     rbind (writeAt (replicate n 0, 0) bs) (\<lambda>(buf, _). bucketOfBytes sc buf)))"

end
