(* ===== verification/Client_Keys.thy ===== *)
theory Client_Keys
  imports State_Client
begin

text \<open>
  The encoding of keys by the state client: every pair of a state and a key (with a window start time) gets
  bytes of its own, which start with the operator and the bucket of the key.
\<close>

text \<open>A client that has been set up with keys of kind \<open>kk\<close>; the number of buckets fits in four bytes.\<close>

definition clientOk :: "mus \<Rightarrow> kind \<Rightarrow> StateClient \<Rightarrow> bool" where
  "clientOk mu kk sc \<longleftrightarrow> mus_ok mu \<and> SupportedKind kk \<and> keyEncoder sc = EncodeFuncFromKind mu kk
     \<and> keySizer sc = TupleSizeFuncFromKind mu kk \<and> 0 < sc_numBuckets sc \<and> sc_numBuckets sc \<le> 2 ^ 32"

definition bucketFor :: "StateClient \<Rightarrow> bytes \<Rightarrow> nat" where
  "bucketFor sc kb = unat (keyHashFunc sc kb) mod nat (sc_numBuckets sc)"

definition cellKey :: "StateClient \<Rightarrow> u16 \<Rightarrow> bytes \<Rightarrow> bytes \<Rightarrow> skey" where
  "cellKey sc st kb rest = storedKey (sc_operatorID sc) (of_nat (bucketFor sc kb)) (bePut 2 (unat st) @ kb @ rest)"

lemma bucketOfBytes_ok:
  assumes "clientOk mu kk sc"
  shows "\<exists>b. bucketOfBytes sc kb = Inr b \<and> unat b = bucketFor sc kb \<and> sint b = int (bucketFor sc kb)
    \<and> unat (ucast b :: u32) = bucketFor sc kb"
    and "bucketFor sc kb < nat (sc_numBuckets sc)" "bucketFor sc kb < 2 ^ 32"
proof -
  have n: "0 < sc_numBuckets sc" "sc_numBuckets sc \<le> 2 ^ 32" using assms by (simp_all add: clientOk_def)
  let ?w = "word_of_int (sc_numBuckets sc) :: u64"
  have w: "unat ?w = nat (sc_numBuckets sc)" using n by (simp add: unat_eq_nat_uint uint_word_of_int)
  show lt: "bucketFor sc kb < nat (sc_numBuckets sc)" using n by (simp add: bucketFor_def)
  then show lt32: "bucketFor sc kb < 2 ^ 32" using n by simp
  let ?b = "keyHashFunc sc kb mod ?w"
  have "?w \<noteq> 0" using w n(1) by (metis nat_eq_iff2 order_less_irrefl unat_0 zero_less_nat_eq)
  then have run: "bucketOfBytes sc kb = Inr ?b" by (simp add: bucketOfBytes_def)
  have ub: "unat ?b = bucketFor sc kb" by (simp add: unat_mod w bucketFor_def)
  then have "uint ?b = int (bucketFor sc kb)" by (metis uint_nat)
  moreover have "uint ?b < 2 ^ 63" using calculation lt32 by simp
  ultimately have "sint ?b = int (bucketFor sc kb)" by (simp add: sint_uint signed_take_bit_int_eq_self)
  moreover have "unat (ucast ?b :: u32) = bucketFor sc kb" using ub lt32 by (simp add: unsigned_ucast_eq take_bit_nat_eq_self)
  ultimately show "\<exists>b. bucketOfBytes sc kb = Inr b \<and> unat b = bucketFor sc kb \<and> sint b = int (bucketFor sc kb)
    \<and> unat (ucast b :: u32) = bucketFor sc kb" using run ub by blast
qed


text \<open>Writing into the eight bytes before the key.\<close>

lemma writeAt_exact: "length old = length bs \<Longrightarrow> writeAt (pre @ old @ rest, length pre) bs = Inr (pre @ bs @ rest, length pre + length bs)"
  by (simp add: writeAt_def)

lemma split8: "8 \<le> length buf \<Longrightarrow> \<exists>a b c. buf = a @ b @ c @ drop 8 buf \<and> length a = 2 \<and> length b = 4 \<and> length c = 2"
proof (intro exI conjI)
  assume "8 \<le> length buf"
  then show "length (take 2 buf) = 2" "length (take 4 (drop 2 buf)) = 4" "length (take 2 (drop 6 buf)) = 2" by simp_all
  have "take 2 buf @ take 4 (drop 2 buf) = take 6 buf" "take 6 buf @ take 2 (drop 6 buf) = take 8 buf"
    using take_add[of 2 4 buf] take_add[of 6 2 buf] by simp_all
  then have "take 2 buf @ take 4 (drop 2 buf) @ take 2 (drop 6 buf) @ drop 8 buf = take 8 buf @ drop 8 buf"
    by (metis append_assoc)
  then show "buf = take 2 buf @ take 4 (drop 2 buf) @ take 2 (drop 6 buf) @ drop 8 buf" by simp
qed

lemma encodeStateID_eq:
  assumes "length pre = 6" "length old = 2"
  shows "encodeStateID (pre @ old @ rest) st = Inr (pre @ bePut 2 (unat st) @ rest)"
  using writeAt_exact[of old "bePut 2 (unat st)" pre rest] assms by (simp add: encodeStateID_def)

lemma encodeKeyPrefix_eq:
  assumes c: "clientOk mu kk sc" and "8 \<le> length buf"
  shows "encodeKeyPrefix sc buf kb st
    = Inr (storedKey (sc_operatorID sc) (of_nat (bucketFor sc kb)) (bePut 2 (unat st) @ drop 8 buf), int (bucketFor sc kb))"
proof -
  obtain x y z where b: "buf = x @ y @ z @ drop 8 buf" "length x = 2" "length y = 4" "length z = 2"
    using split8[OF assms(2)] by blast
  obtain i where i: "bucketOfBytes sc kb = Inr i" "sint i = int (bucketFor sc kb)" "unat (ucast i :: u32) = bucketFor sc kb"
    using bucketOfBytes_ok(1)[OF c] by blast
  let ?o = "bePut 2 (unat (sc_operatorID sc))" and ?i = "bePut 4 (bucketFor sc kb)" and ?d = "drop 8 buf"
  have w1: "writeAt (buf, 0) ?o = Inr (?o @ y @ z @ ?d, 2)"
    using writeAt_exact[of x ?o "[]" "y @ z @ ?d"] b by simp
  have w2: "writeAt (?o @ y @ z @ ?d, 2) ?i = Inr (?o @ ?i @ z @ ?d, 6)"
    using writeAt_exact[of y ?i ?o "z @ ?d"] b by simp
  have w3: "encodeStateID (?o @ ?i @ z @ ?d) st = Inr (?o @ ?i @ bePut 2 (unat st) @ ?d)"
    using encodeStateID_eq[of "?o @ ?i" z ?d st] b by simp
  have u: "unat (of_nat (bucketFor sc kb) :: u32) = bucketFor sc kb"
    using bucketOfBytes_ok(3)[OF c, of kb] by (simp add: unat_of_nat)
  show ?thesis unfolding encodeKeyPrefix_def w1 by (simp add: i w2 w3 storedKey_def u)
qed

lemma encodeSimpleKey_eq:
  assumes c: "clientOk mu kk sc" and k: "hasKind kk key"
  shows "encodeSimpleKey sc key st = Inr (cellKey sc st (fieldBytes mu kk key) [], int (bucketFor sc (fieldBytes mu kk key)))"
proof -
  let ?kb = "fieldBytes mu kk key"
  have mu: "mus_ok mu" using c by (simp add: clientOk_def)
  have s: "keySizer sc key = Inr (length ?kb)" "keyEncoder sc key = Inr ?kb"
    using c field_codec(1, 3)[OF mu k] by (simp_all add: clientOk_def)
  have "writeAt (replicate (8 + length ?kb) 0, 8) ?kb = Inr (replicate 8 0 @ ?kb, 8 + length ?kb)"
    using writeAt_exact[of "replicate (length ?kb) 0" ?kb "replicate 8 0" "[]"] by (simp add: replicate_add)
  then show ?thesis
    using encodeKeyPrefix_eq[OF c, of "replicate 8 0 @ ?kb" ?kb st] by (simp add: encodeSimpleKey_def s cellKey_def)
qed

lemma encodeWindowKey_eq:
  assumes c: "clientOk mu kk sc" and k: "hasKind kk key" and t: "inKind KindInt64 t"
  shows "encodeWindowKey mu sc key t st
    = Inr (cellKey sc st (fieldBytes mu kk key) (MarshalNum mu KindInt64 t), int (bucketFor sc (fieldBytes mu kk key)))"
proof -
  let ?kb = "fieldBytes mu kk key" and ?tb = "MarshalNum mu KindInt64 t"
  have mu: "mus_ok mu" using c by (simp add: clientOk_def)
  have s: "keySizer sc key = Inr (length ?kb)" "keyEncoder sc key = Inr ?kb" "SizeNum mu KindInt64 t = length ?tb"
    using c field_codec(1, 3)[OF mu k] t mu by (simp_all add: clientOk_def mus_ok_def)
  have w1: "writeAt (replicate (8 + length ?kb + length ?tb) 0, 8) ?kb = Inr (replicate 8 0 @ ?kb @ replicate (length ?tb) 0, 8 + length ?kb)"
    using writeAt_exact[of "replicate (length ?kb) 0" ?kb "replicate 8 0" "replicate (length ?tb) 0"] by (simp add: replicate_add)
  have w2: "writeAt (replicate 8 0 @ ?kb @ replicate (length ?tb) 0, 8 + length ?kb) ?tb = Inr (replicate 8 0 @ ?kb @ ?tb, 8 + length ?kb + length ?tb)"
    using writeAt_exact[of "replicate (length ?tb) 0" ?tb "replicate 8 0 @ ?kb" "[]"] by simp
  have w3: "gslice (replicate 8 0 @ ?kb @ ?tb) 8 (8 + length ?kb) = Inr ?kb"
    using gslice_append[of "replicate 8 0" ?kb ?tb] by simp
  show ?thesis
    using encodeKeyPrefix_eq[OF c, of "replicate 8 0 @ ?kb @ ?tb" ?kb st]
    by (simp add: encodeWindowKey_def s w1 w2 w3 cellKey_def)
qed

lemma encodeStateID_cell: "encodeStateID (cellKey sc st kb rest) st' = Inr (cellKey sc st' kb rest)"
  using encodeStateID_eq[of "bePut 2 (unat (sc_operatorID sc)) @ bePut 4 (unat (of_nat (bucketFor sc kb) :: u32))" "bePut 2 (unat st)" "kb @ rest" st']
  by (simp add: cellKey_def storedKey_def)

text \<open>Different cells have different keys.\<close>

lemma bePut2_inject: "bePut 2 (unat (a :: u16)) = bePut 2 (unat b) \<longleftrightarrow> a = b"
proof
  assume "bePut 2 (unat a) = bePut 2 (unat b)"
  then have "unat a mod 256 ^ 2 = unat b mod 256 ^ 2" by (metis beNat_bePut)
  then show "a = b" using unat_u16_less[of a] unat_u16_less[of b] by (simp add: word_unat_eq_iff)
qed simp

lemma fieldBytes_prefix:
  assumes "mus_ok mu" "hasKind kk key" "hasKind kk key'" "fieldBytes mu kk key @ rest = fieldBytes mu kk key' @ rest'"
  shows "key = key' \<and> rest = rest'"
  using field_codec(2)[OF assms(1, 2), of rest] field_codec(2)[OF assms(1, 3), of rest'] assms(4) by auto

lemma cellKey_inject:
  assumes "mus_ok mu" "hasKind kk key" "hasKind kk key'"
  shows "cellKey sc st (fieldBytes mu kk key) rest = cellKey sc st' (fieldBytes mu kk key') rest' \<longleftrightarrow> st = st' \<and> key = key' \<and> rest = rest'"
proof
  assume "cellKey sc st (fieldBytes mu kk key) rest = cellKey sc st' (fieldBytes mu kk key') rest'"
  then have "bePut 2 (unat st) @ fieldBytes mu kk key @ rest = bePut 2 (unat st') @ fieldBytes mu kk key' @ rest'"
    by (simp add: cellKey_def storedKey_inject)
  then have "bePut 2 (unat st) = bePut 2 (unat st')" "fieldBytes mu kk key @ rest = fieldBytes mu kk key' @ rest'" by simp_all
  then show "st = st' \<and> key = key' \<and> rest = rest'" using fieldBytes_prefix[OF assms] bePut2_inject by blast
qed simp

lemma time_inject:
  assumes "mus_ok mu" "inKind KindInt64 t" "inKind KindInt64 t'" "MarshalNum mu KindInt64 t = MarshalNum mu KindInt64 t'"
  shows "t = t'"
proof -
  have "UnmarshalNum mu KindInt64 (MarshalNum mu KindInt64 t @ []) = (t, length (MarshalNum mu KindInt64 t), False)"
    "UnmarshalNum mu KindInt64 (MarshalNum mu KindInt64 t' @ []) = (t', length (MarshalNum mu KindInt64 t'), False)"
    using assms(1-3) unfolding mus_ok_def by blast+
  then show ?thesis using assms(4) by simp
qed

end
