(* ===== verification/User_Operations.thy ===== *)
theory User_Operations
  imports State_Cache
begin

text \<open>
  What user functions do with a fetched state between fetch and flush, and what the flush then does with it:
  the stored bytes become the encoding of the list of tuples that the operations leave, whether the state is
  written as a whole or only its new tail is appended.
\<close>

section \<open>Operations of the user\<close>

text \<open>The calls of the user on a value state (\<open>SetV\<close>) and on a list state (\<open>UpdateL\<close>, \<open>AddL\<close>, \<open>AddAllL\<close>); \<open>ClearS\<close> is
  possible on both. The type checker excludes a call on a state of the other type.\<close>

datatype userOp = SetV tupleVal | UpdateL "tupleVal list" | AddL tupleVal | AddAllL "tupleVal list" | ClearS

fun applyOp :: "userOp \<Rightarrow> StateType \<Rightarrow> StateType" where
  "applyOp (SetV t) (ValueSt v) = ValueSt (vs_Set (Some t) v)"
| "applyOp (UpdateL ts) (ListSt l) = ListSt (ls_Update ts l)"
| "applyOp (AddL t) (ListSt l) = ListSt (ls_Add t l)"
| "applyOp (AddAllL ts) (ListSt l) = ListSt (ls_AddAll ts l)"
| "applyOp ClearS s = Clear s"
| "applyOp _ s = s"

fun fits :: "stateKind \<Rightarrow> userOp \<Rightarrow> bool" where
  "fits ValueKind (SetV t) = True"
| "fits ListKind (UpdateL ts) = True"
| "fits ListKind (AddL t) = True"
| "fits ListKind (AddAllL ts) = True"
| "fits k ClearS = True"
| "fits k op = False"

text \<open>Their meaning on the list of tuples of the state (at most one for a value state).\<close>

fun absOp :: "tupleVal list \<Rightarrow> userOp \<Rightarrow> tupleVal list" where
  "absOp xs (SetV t) = [t]"
| "absOp xs (UpdateL ts) = ts"
| "absOp xs (AddL t) = xs @ [t]"
| "absOp xs (AddAllL ts) = xs @ ts"
| "absOp xs ClearS = xs"

text \<open>A state that was cleared is deleted at the flush, whatever else was done to it.\<close>

definition opsResult :: "userOp list \<Rightarrow> tupleVal list \<Rightarrow> tupleVal list" where
  "opsResult ops xs = (if ClearS \<in> set ops then [] else foldl absOp xs ops)"

fun opTuples :: "userOp \<Rightarrow> tupleVal list" where
  "opTuples (SetV t) = [t]" | "opTuples (UpdateL ts) = ts" | "opTuples (AddL t) = [t]" | "opTuples (AddAllL ts) = ts" | "opTuples ClearS = []"

text \<open>An operation with valid tuples, and at least one of them: an empty list cannot be flushed.\<close>

definition opOk :: "stateKind \<Rightarrow> (tupleVal \<Rightarrow> bool) \<Rightarrow> userOp \<Rightarrow> bool" where
  "opOk k P op \<longleftrightarrow> fits k op \<and> list_all P (opTuples op) \<and> (op \<noteq> ClearS \<longrightarrow> opTuples op \<noteq> [])"


section \<open>A fetched state\<close>

definition fetched :: "stateKind \<Rightarrow> tupleVal list \<Rightarrow> StateType" where
  "fetched k xs = (case k of
       ValueKind \<Rightarrow> ValueSt (if xs = [] then vs_New else vs_New\<lparr>vs_state := Some (hd xs), vs_base := emptyBase\<lparr>hasValue := True\<rparr>\<rparr>)
     | ListKind \<Rightarrow> ListSt (if xs = [] then ls_New else ls_New\<lparr>ls_state := xs, ls_base := emptyBase\<lparr>hasValue := True\<rparr>, appendStartIdx := length xs\<rparr>))"

definition stored :: "stateKind \<Rightarrow> (tupleVal \<Rightarrow> bool) \<Rightarrow> tupleVal list \<Rightarrow> bool" where
  "stored k P xs \<longleftrightarrow> list_all P xs \<and> (k = ValueKind \<longrightarrow> length xs \<le> 1)"

lemma deserializeValue_ok:
  assumes c: "cacheCodec b = Some cd" "codecOk cd P tb" and xs: "stored (cacheKind b) P xs"
    and v: "(case v of None \<Rightarrow> [] | Some bs \<Rightarrow> bs) = listBytes tb xs"
  shows "deserializeValue b v = Some (Inr (fetched (cacheKind b) xs))"
proof (cases xs)
  case Nil
  then show ?thesis using v by (cases v; cases "cacheKind b") (simp_all add: deserializeValue_def fetched_def New_def)
next
  case (Cons x xs')
  have P: "list_all P xs" using xs by (simp add: stored_def)
  then have ne: "listBytes tb xs \<noteq> []" using listBytes_empty[OF c(2) P] Cons by blast
  then obtain bs where bs: "v = Some bs" "bs = listBytes tb xs" using v by (cases v) auto
  have d: "deserializeValue b v = Deserialize cd (listBytes tb xs) (New (cacheKind b))"
    using ne bs c(1) by (simp add: deserializeValue_def)
  show ?thesis
  proof (cases "cacheKind b")
    case ValueKind
    then have x: "xs = [x]" using xs Cons by (simp add: stored_def)
    then have "valueDecoder cd (tb x) = Inr (Some x, length (tb x))" using codecOkD(4)[OF c(2), of x "[]"] P by simp
    then show ?thesis unfolding d using ValueKind x
      by (simp add: New_def vs_Deserialize_def fetched_def vs_New_def)
  next
    case ListKind
    have "decodeLoop cd (listBytes tb xs) 0 [] = Some (Inr xs)" using decodeLoop_ok[OF c(2) P, of "[]" "[]"] by simp
    then show ?thesis unfolding d using ListKind Cons
      by (simp add: New_def ls_Deserialize_def fetched_def ls_New_def)
  qed
qed


section \<open>Flushing a changed state\<close>

text \<open>What an action does to the stored bytes.\<close>

fun actOn :: "flushAction \<Rightarrow> byte list \<Rightarrow> byte list" where
  "actOn Keep b = b"
| "actOn (Overwrite bs) b = bs"
| "actOn (Append bs) b = b @ bs"
| "actOn Delete b = []"

text \<open>A value state after some operations on a fetched one.\<close>

lemma value_after:
  assumes "list_all (fits ValueKind) ops" "length xs \<le> 1"
  shows "\<exists>v. foldl (\<lambda>s op. applyOp op s) (fetched ValueKind xs) ops = ValueSt v
    \<and> vs_state v = (if foldl absOp xs ops = [] then None else Some (hd (foldl absOp xs ops)))
    \<and> length (foldl absOp xs ops) \<le> 1
    \<and> hasValue (vs_base v) = (foldl absOp xs ops \<noteq> [])
    \<and> updated (vs_base v) = (\<exists>op \<in> set ops. op \<noteq> ClearS) \<and> deleted (vs_base v) = (ClearS \<in> set ops)"
  using assms
proof (induction ops rule: rev_induct)
  case Nil
  then show ?case by (simp add: fetched_def vs_New_def emptyBase_def)
next
  case (snoc op ops)
  then obtain v where v: "foldl (\<lambda>s op. applyOp op s) (fetched ValueKind xs) ops = ValueSt v"
    "vs_state v = (if foldl absOp xs ops = [] then None else Some (hd (foldl absOp xs ops)))" "length (foldl absOp xs ops) \<le> 1"
    "hasValue (vs_base v) = (foldl absOp xs ops \<noteq> [])"
    "updated (vs_base v) = (\<exists>op \<in> set ops. op \<noteq> ClearS)" "deleted (vs_base v) = (ClearS \<in> set ops)"
    by auto
  then show ?case using snoc.prems by (cases op) (auto simp: vs_Set_def)
qed

lemma list_after:
  assumes "list_all (fits ListKind) ops"
  shows "\<exists>l. foldl (\<lambda>s op. applyOp op s) (fetched ListKind xs) ops = ListSt l
    \<and> ls_state l = foldl absOp xs ops \<and> appendStartIdx l = length xs
    \<and> hasValue (ls_base l) = (xs \<noteq> [] \<or> (\<exists>op \<in> set ops. op \<noteq> ClearS))
    \<and> updated (ls_base l) = (\<exists>ts. UpdateL ts \<in> set ops) \<and> deleted (ls_base l) = (ClearS \<in> set ops)
    \<and> appended l = (\<exists>op \<in> set ops. op \<noteq> ClearS \<and> (\<forall>ts. op \<noteq> UpdateL ts))
    \<and> ((\<forall>ts. UpdateL ts \<notin> set ops) \<longrightarrow> foldl absOp xs ops = xs @ concat (map opTuples ops))"
  using assms
proof (induction ops rule: rev_induct)
  case Nil
  then show ?case by (auto simp: fetched_def ls_New_def emptyBase_def)
next
  case (snoc op ops)
  then obtain l where l: "foldl (\<lambda>s op. applyOp op s) (fetched ListKind xs) ops = ListSt l"
    "ls_state l = foldl absOp xs ops" "appendStartIdx l = length xs"
    "hasValue (ls_base l) = (xs \<noteq> [] \<or> (\<exists>op \<in> set ops. op \<noteq> ClearS))"
    "updated (ls_base l) = (\<exists>ts. UpdateL ts \<in> set ops)" "deleted (ls_base l) = (ClearS \<in> set ops)"
    "appended l = (\<exists>op \<in> set ops. op \<noteq> ClearS \<and> (\<forall>ts. op \<noteq> UpdateL ts))"
    "(\<forall>ts. UpdateL ts \<notin> set ops) \<longrightarrow> foldl absOp xs ops = xs @ concat (map opTuples ops)"
    by auto
  then show ?case using snoc.prems by (cases op) (auto simp: ls_Update_def ls_Add_def ls_AddAll_def)
qed


lemma opOk_fits: "list_all (opOk k P) ops \<Longrightarrow> list_all (fits k) ops"
  by (auto simp: list_all_iff opOk_def)

lemma only_clear: "\<forall>op \<in> set ops. op = ClearS \<Longrightarrow> foldl absOp xs ops = xs"
  by (induction ops) auto

lemma result_valid:
  assumes "list_all (opOk k P) ops" "list_all P xs"
  shows "list_all P (foldl absOp xs ops)"
  using assms
proof (induction ops arbitrary: xs)
  case (Cons op ops)
  have "list_all P (absOp xs op)" using Cons.prems by (cases op) (auto simp: opOk_def)
  then show ?case using Cons by simp
qed simp

lemma result_nonempty:
  assumes "list_all (opOk k P) ops" "xs \<noteq> [] \<or> (\<exists>op \<in> set ops. op \<noteq> ClearS)"
  shows "foldl absOp xs ops \<noteq> []"
  using assms
proof (induction ops arbitrary: xs)
  case (Cons op ops)
  show ?case
  proof (cases "op = ClearS")
    case True
    then show ?thesis using Cons.IH[of xs] Cons.prems by auto
  next
    case False
    then have "absOp xs op \<noteq> []" using Cons.prems(1) by (cases op) (auto simp: opOk_def)
    then show ?thesis using Cons.IH[of "absOp xs op"] Cons.prems(1) by simp
  qed
qed simp

lemma stored_result:
  assumes "stored k P xs" "list_all (opOk k P) ops"
  shows "stored k P (opsResult ops xs)"
proof -
  have "list_all P (foldl absOp xs ops)" using result_valid[OF assms(2)] assms(1) by (simp add: stored_def)
  moreover have "length (foldl absOp xs ops) \<le> 1" if "k = ValueKind"
    using value_after[of ops xs] opOk_fits[OF assms(2)] assms(1) that by (auto simp: stored_def)
  ultimately show ?thesis by (simp add: stored_def opsResult_def)
qed

lemma flush_value:
  assumes c: "cacheCodec b = Some cd" "codecOk cd P tb" and xs: "stored ValueKind P xs" and ops: "list_all (opOk ValueKind P) ops"
  shows "\<exists>a. flushAction b (foldl (\<lambda>s op. applyOp op s) (fetched ValueKind xs) ops) = Inr a
    \<and> actOn a (listBytes tb xs) = listBytes tb (opsResult ops xs) \<and> (a = Delete \<longrightarrow> ClearS \<in> set ops \<and> foldl absOp xs ops \<noteq> [])"
proof -
  let ?r = "foldl absOp xs ops"
  obtain v where v: "foldl (\<lambda>s op. applyOp op s) (fetched ValueKind xs) ops = ValueSt v"
    "vs_state v = (if ?r = [] then None else Some (hd ?r))" "length ?r \<le> 1" "hasValue (vs_base v) = (?r \<noteq> [])"
    "updated (vs_base v) = (\<exists>op \<in> set ops. op \<noteq> ClearS)" "deleted (vs_base v) = (ClearS \<in> set ops)"
    using value_after[OF opOk_fits[OF ops], of xs] xs by (auto simp: stored_def)
  note fl = flushAction_def HasValue_def IsDeleted_def IsUpdated_def
  have "\<exists>a. flushAction b (ValueSt v) = Inr a \<and> actOn a (listBytes tb xs) = listBytes tb (opsResult ops xs)
      \<and> (a = Delete \<longrightarrow> ClearS \<in> set ops \<and> foldl absOp xs ops \<noteq> [])"
  proof (cases "?r = []")
    case True
    then have "xs = []" using result_nonempty[OF ops] by blast
    then show ?thesis using True v(4) by (simp add: fl opsResult_def)
  next
    case False
    show ?thesis
    proof (cases "ClearS \<in> set ops")
      case True
      then show ?thesis using False v(4, 6) by (simp add: fl opsResult_def)
    next
      case noclear: False
      show ?thesis
      proof (cases ops)
        case Nil
        then show ?thesis using v(4-6) False by (simp add: fl opsResult_def)
      next
        case (Cons op os)
        then have up: "updated (vs_base v)" "\<not> deleted (vs_base v)" using v(5, 6) noclear by auto
        obtain t where t: "?r = [t]" using v(3) False by (cases ?r) auto
        have "list_all P ?r" using result_valid[OF ops] xs by (simp add: stored_def)
        then have "P t" using t by simp
        have "vs_Serialize cd v = Inr (tb t)"
          using codecOkD(2, 3)[OF c(2) \<open>P t\<close>] v(2) t by (simp add: vs_Serialize_def)
        then show ?thesis using up v(4) t c(1) noclear by (simp add: fl opsResult_def)
      qed
    qed
  qed
  then show ?thesis unfolding v(1) .
qed

lemma flush_list:
  assumes c: "cacheCodec b = Some cd" "codecOk cd P tb" and xs: "stored ListKind P xs" and ops: "list_all (opOk ListKind P) ops"
  shows "\<exists>a. flushAction b (foldl (\<lambda>s op. applyOp op s) (fetched ListKind xs) ops) = Inr a
    \<and> actOn a (listBytes tb xs) = listBytes tb (opsResult ops xs) \<and> (a = Delete \<longrightarrow> ClearS \<in> set ops \<and> foldl absOp xs ops \<noteq> [])"
proof -
  let ?r = "foldl absOp xs ops"
  obtain l where l: "foldl (\<lambda>s op. applyOp op s) (fetched ListKind xs) ops = ListSt l" "ls_state l = ?r" "appendStartIdx l = length xs"
    "hasValue (ls_base l) = (xs \<noteq> [] \<or> (\<exists>op \<in> set ops. op \<noteq> ClearS))"
    "updated (ls_base l) = (\<exists>ts. UpdateL ts \<in> set ops)" "deleted (ls_base l) = (ClearS \<in> set ops)"
    "appended l = (\<exists>op \<in> set ops. op \<noteq> ClearS \<and> (\<forall>ts. op \<noteq> UpdateL ts))"
    "(\<forall>ts. UpdateL ts \<notin> set ops) \<longrightarrow> ?r = xs @ concat (map opTuples ops)"
    using list_after[OF opOk_fits[OF ops], of xs] by auto
  note fl = flushAction_def HasValue_def IsDeleted_def IsUpdated_def
  have P: "list_all P (ls_state l)" using result_valid[OF ops] xs l(2) by (simp add: stored_def)
  have "\<exists>a. flushAction b (ListSt l) = Inr a \<and> actOn a (listBytes tb xs) = listBytes tb (opsResult ops xs)
      \<and> (a = Delete \<longrightarrow> ClearS \<in> set ops \<and> foldl absOp xs ops \<noteq> [])"
  proof (cases "xs \<noteq> [] \<or> (\<exists>op \<in> set ops. op \<noteq> ClearS)")
    case False
    then have "?r = []" using only_clear[of ops xs] by auto
    then show ?thesis using False l(4) by (simp add: fl opsResult_def)
  next
    case True
    then have hv: "hasValue (ls_base l)" and ne: "?r \<noteq> []" using l(4) result_nonempty[OF ops True] by simp_all
    have full: "serializeFromIndex cd 0 l = Inr (listBytes tb ?r)"
      using serializeFromIndex_ok[OF c(2) P, of 0] ne l(2) by simp
    show ?thesis
    proof (cases "ClearS \<in> set ops")
      case True
      then show ?thesis using hv l(6) ne by (simp add: fl opsResult_def)
    next
      case noclear: False
      show ?thesis
      proof (cases "updated (ls_base l) \<or> \<not> allowIncrementalSerialization b \<and> appended l")
        case True
        then show ?thesis using hv l(6) noclear full c(1) by (auto simp: fl opsResult_def)
      next
        case part: False
        then have r: "?r = xs @ concat (map opTuples ops)" using l(5, 8) by auto
        show ?thesis
        proof (cases "appended l")
          case True
          then obtain op where op: "op \<in> set ops" "op \<noteq> ClearS" using l(7) by auto
          then have "opTuples op \<noteq> []" using ops by (auto simp: list_all_iff opOk_def)
          then have "concat (map opTuples ops) \<noteq> []" using op(1) by auto
          then have "serializeFromIndex cd (appendStartIdx l) l = Inr (listBytes tb (concat (map opTuples ops)))"
            using serializeFromIndex_ok[OF c(2) P, of "length xs"] l(2, 3) r by simp
          then show ?thesis using True part hv l(6) noclear c(1) r by (auto simp: fl opsResult_def)
        next
          case False
          then have "ops = []" using l(5, 7) part noclear by (cases ops) auto
          then show ?thesis using False part hv l(6) by (auto simp: fl opsResult_def)
        qed
      qed
    qed
  qed
  then show ?thesis unfolding l(1) .
qed

text \<open>Either kind: the flush stores the encoding of what the operations leave.\<close>

lemma flush_after:
  assumes "cacheCodec b = Some cd" "codecOk cd P tb" "stored k P xs" "list_all (opOk k P) ops"
  shows "\<exists>a. flushAction b (foldl (\<lambda>s op. applyOp op s) (fetched k xs) ops) = Inr a
    \<and> actOn a (listBytes tb xs) = listBytes tb (opsResult ops xs) \<and> (a = Delete \<longrightarrow> ClearS \<in> set ops \<and> foldl absOp xs ops \<noteq> [])"
  using flush_value[OF assms(1, 2)] flush_list[OF assms(1, 2)] assms(3, 4) by (cases k) auto

end
