(* ===== verification/Client_Flush.thy ===== *)
theory Client_Flush
  imports User_Operations State_Client Store_Contract
begin

text \<open>
  Flushing over any service that keeps the contract of theory \<open>Store_Contract\<close>: the requests that the client
  collects from its caches change exactly the cells whose action asks for it. A cell is a state with a user
  key (a key, or a key with a window start time); \<open>sk st u\<close> is its encoded key and \<open>bk u\<close> its bucket.
\<close>

section \<open>Flush data of one state\<close>

fun owBytes :: "flushAction \<Rightarrow> byte list" where
  "owBytes (Overwrite bs) = bs" | "owBytes _ = []"

fun apBytes :: "flushAction \<Rightarrow> byte list" where
  "apBytes (Append bs) = bs" | "apBytes _ = []"

fun isOw :: "flushAction \<Rightarrow> bool" where
  "isOw (Overwrite bs) = True" | "isOw _ = False"

fun isAp :: "flushAction \<Rightarrow> bool" where
  "isAp (Append bs) = True" | "isAp _ = False"

definition isDel :: "flushAction \<Rightarrow> bool" where
  "isDel a \<longleftrightarrow> a = Delete"

definition actData :: "('u \<Rightarrow> skey) \<Rightarrow> ('u \<Rightarrow> int) \<Rightarrow> ('u \<Rightarrow> flushAction) \<Rightarrow> 'u list \<Rightarrow> flushData" where
  "actData sk bk act us =
     (let ow = filter (isOw \<circ> act) us; ap = filter (isAp \<circ> act) us; de = filter (isDel \<circ> act) us in
      \<lparr>keysToWrite = map sk ow, bucketsToWrite = map bk ow, valuesToWrite = map (owBytes \<circ> act) ow,
       keysToMerge = map sk ap, bucketsToMerge = map bk ap, valuesToMerge = map (apBytes \<circ> act) ap,
       keysToDelete = map sk de, bucketsToDelete = map bk de\<rparr>)"

lemma actData_snoc:
  assumes "at_idx sks i = Inr (sk u)" "at_idx bids i = Inr (bk u)" "flushAction b val = Inr (act u)"
  shows "flushStep b sks bids (actData sk bk act us) i val = Inr (actData sk bk act (us @ [u]))"
  using assms by (cases "act u") (auto simp: flushStep_def actData_def Let_def isDel_def)

lemma rfold_cong: "(\<And>s x. x \<in> set xs \<Longrightarrow> f s x = g s x) \<Longrightarrow> rfold f s xs = rfold g s xs"
proof (induction xs arbitrary: s)
  case (Cons x xs)
  then show ?case by (cases "g s x") simp_all
qed simp

lemma flush_fold:
  assumes "\<forall>u \<in> set us. flushAction b (val u) = Inr (act u)"
  shows "rfold (\<lambda>d (i, u). flushStep b (map sk (pre @ us)) (map bk (pre @ us)) d i (val u)) (actData sk bk act pre) (enumerate (length pre) us)
    = Inr (actData sk bk act (pre @ us))"
  using assms
proof (induction us arbitrary: pre)
  case (Cons u us)
  have "flushStep b (map sk (pre @ u # us)) (map bk (pre @ u # us)) (actData sk bk act pre) (length pre) (val u)
      = Inr (actData sk bk act (pre @ [u]))"
    by (rule actData_snoc) (use Cons.prems in \<open>simp_all add: at_idx_def nth_append\<close>)
  then show ?case using Cons.IH[of "pre @ [u]"] Cons.prems by simp
qed simp

lemma actData_none: "actData sk bk act [] = noFlushData"
  by (simp add: actData_def noFlushData_def)

lemma simple_flush_data:
  assumes "\<forall>u \<in> set us. simpleEntry c u = Some (val u) \<and> flushAction (s_base c) (val u) = Inr (act u)"
  shows "GetSimpleStateFlushData us (map sk us) (map bk us) (SimpleCache c) = Inr (actData sk bk act us)"
proof -
  have "rfold (\<lambda>d (i, u). rbind (deref (simpleEntry c u)) (flushStep (s_base c) (map sk us) (map bk us) d i)) noFlushData (enumerate 0 us)
      = rfold (\<lambda>d (i, u). flushStep (s_base c) (map sk us) (map bk us) d i (val u)) noFlushData (enumerate 0 us)"
    by (rule rfold_cong) (use assms in \<open>auto simp: in_set_enumerate_eq\<close>)
  then show ?thesis
    using flush_fold[of us "s_base c" val act sk "[]" bk] assms by (simp add: actData_none)
qed

lemma enumerate_map_fst: "enumerate n (map f us) = map (\<lambda>(i, u). (i, f u)) (enumerate n us)"
  by (induction us arbitrary: n) simp_all

lemma window_flush_data:
  assumes "\<forall>(k, t) \<in> set us. windowEntry c k t = Some (val (k, t)) \<and> flushAction (w_base c) (val (k, t)) = Inr (act (k, t))"
  shows "GetWindowStateFlushData (map fst us) (map snd us) (map sk us) (map bk us) (WindowCache c) = Inr (actData sk bk act us)"
proof -
  have "rfold (\<lambda>d (i, k). rbind (at_idx (map snd us) i) (\<lambda>t. rbind (deref (windowEntry c k t)) (flushStep (w_base c) (map sk us) (map bk us) d i)))
        noFlushData (enumerate 0 (map fst us))
      = rfold (\<lambda>d (i, u). flushStep (w_base c) (map sk us) (map bk us) d i (val u)) noFlushData (enumerate 0 us)"
    unfolding enumerate_map_fst rfold_map
  proof (rule rfold_cong)
    fix d x assume "x \<in> set (enumerate 0 us)"
    then obtain i where i: "i < length us" "x = (i, us ! i)" by (auto simp: in_set_enumerate_eq)
    obtain k t where u: "us ! i = (k, t)" by (cases "us ! i")
    then have "(k, t) \<in> set us" using i(1) by (metis nth_mem)
    then have "windowEntry c k t = Some (val (k, t))" using assms by auto
    then show "(case case x of (i, u) \<Rightarrow> (i, fst u) of (i, k) \<Rightarrow> rbind (at_idx (map snd us) i) (\<lambda>t.
          rbind (deref (windowEntry c k t)) (flushStep (w_base c) (map sk us) (map bk us) d i)))
        = (case x of (i, u) \<Rightarrow> flushStep (w_base c) (map sk us) (map bk us) d i (val u))"
      using i u by (simp add: at_idx_def)
  qed
  moreover have "\<forall>u \<in> set us. flushAction (w_base c) (val u) = Inr (act u)" using assms by auto
  ultimately show ?thesis
    using flush_fold[of us "w_base c" val act sk "[]" bk] by (simp add: actData_none)
qed


section \<open>Requests over all states\<close>

text \<open>The request for the cells that satisfy \<open>p\<close>.\<close>

definition chosen :: "(u16 \<Rightarrow> 'u \<Rightarrow> bool) \<Rightarrow> (u16 \<Rightarrow> 'u \<Rightarrow> 'a) \<Rightarrow> u16 list \<Rightarrow> 'u list \<Rightarrow> (u16, 'a list) gomap" where
  "chosen p f ids us = map (\<lambda>st. (st, map (f st) (filter (p st) us))) (filter (\<lambda>st. \<exists>u \<in> set us. p st u) ids)"

lemma collect_chosen:
  assumes "\<And>st. nonempty (d st) = map (g st) (filter (p st) us)" "\<And>st. part (d st) = map (f st) (filter (p st) us)"
  shows "collect nonempty part (map (\<lambda>st. (st, d st)) ids) = chosen p f ids us"
proof -
  have "0 < length (nonempty (d st)) \<longleftrightarrow> (\<exists>u \<in> set us. p st u)" for st
    by (auto simp: assms(1) filter_empty_conv)
  then show ?thesis by (simp add: collect_def chosen_def filter_map o_def assms(2))
qed

lemma chosen_empty: "chosen p f ids us = [] \<longleftrightarrow> (\<forall>st \<in> set ids. \<forall>u \<in> set us. \<not> p st u)"
  by (auto simp: chosen_def filter_empty_conv)

lemma requested_chosen: "requested (chosen p sk ids us) = {sk st u |st u. st \<in> set ids \<and> u \<in> set us \<and> p st u}"
  by (force simp: requested_def chosen_def)

lemma request_chosen:
  assumes "chosen p sk ids us \<noteq> []" "distinct ids" "distinct us"
    and inj: "\<And>st u st' u'. st \<in> set ids \<Longrightarrow> st' \<in> set ids \<Longrightarrow> u \<in> set us \<Longrightarrow> u' \<in> set us \<Longrightarrow> sk st u = sk st' u' \<Longrightarrow> st = st' \<and> u = u'"
  shows "request (chosen p sk ids us)"
proof -
  have "distinct (concat (map (\<lambda>st. map (sk st) (filter (p st) us)) js))" if "distinct js" "set js \<subseteq> set ids" for js
    using that
  proof (induction js)
    case (Cons j js)
    have j: "j \<in> set ids" using Cons.prems(2) by simp
    have "inj_on (sk j) (set us)" using inj[OF j j] by (blast intro: inj_onI)
    then have "inj_on (sk j) (set (filter (p j) us))" by (rule inj_on_subset) auto
    then have "distinct (map (sk j) (filter (p j) us))" using assms(3) by (simp add: distinct_map)
    moreover have "set (map (sk j) (filter (p j) us)) \<inter> set (concat (map (\<lambda>st. map (sk st) (filter (p st) us)) js)) = {}"
    proof (rule ccontr)
      assume "set (map (sk j) (filter (p j) us)) \<inter> set (concat (map (\<lambda>st. map (sk st) (filter (p st) us)) js)) \<noteq> {}"
      then obtain u i v where "u \<in> set us" "i \<in> set js" "v \<in> set us" "sk j u = sk i v" by auto
      then have "j = i" using inj[OF j, of i u v] Cons.prems(2) by auto
      then show False using \<open>i \<in> set js\<close> Cons.prems(1) by simp
    qed
    ultimately show ?case using Cons by simp
  qed simp
  from this[of "filter (\<lambda>st. \<exists>u \<in> set us. p st u) ids"] show ?thesis
    using assms(1, 2) by (simp add: request_def chosen_def o_def)
qed

lemma chosen_values:
  assumes "\<And>st u. st \<in> set ids \<Longrightarrow> u \<in> set us \<Longrightarrow> f (sk st u) = g st u"
  shows "map (\<lambda>(st, ks). (st, map f ks)) (chosen p sk ids us) = chosen p g ids us"
  using assms by (auto simp: chosen_def)


section \<open>Flushing over a key-value service\<close>

text \<open>The cells of a batch: distinct states and user keys, distinct encoded keys, each in its bucket.\<close>

definition cells :: "(u16 \<Rightarrow> 'u \<Rightarrow> skey) \<Rightarrow> ('u \<Rightarrow> int) \<Rightarrow> (skey \<Rightarrow> int) \<Rightarrow> u16 list \<Rightarrow> 'u list \<Rightarrow> bool" where
  "cells sk bk bucketOf ids us \<longleftrightarrow> distinct ids \<and> distinct us
     \<and> inj_on (\<lambda>(st, u). sk st u) (set ids \<times> set us) \<and> (\<forall>st \<in> set ids. \<forall>u \<in> set us. bucketOf (sk st u) = bk u)"

definition cellKeys :: "(u16 \<Rightarrow> 'u \<Rightarrow> skey) \<Rightarrow> u16 list \<Rightarrow> 'u list \<Rightarrow> skey set" where
  "cellKeys sk ids us = {sk st u |st u. st \<in> set ids \<and> u \<in> set us}"

lemma cells_inj:
  assumes "cells sk bk bucketOf ids us" "st \<in> set ids" "st' \<in> set ids" "u \<in> set us" "u' \<in> set us" "sk st u = sk st' u'"
  shows "st = st' \<and> u = u'"
  using assms inj_onD[of "\<lambda>(st, u). sk st u" "set ids \<times> set us" "(st, u)" "(st', u')"] by (simp add: cells_def)

text \<open>A function on cells as a function on encoded keys.\<close>

definition perKey :: "(u16 \<Rightarrow> 'u \<Rightarrow> skey) \<Rightarrow> u16 list \<Rightarrow> 'u list \<Rightarrow> (u16 \<Rightarrow> 'u \<Rightarrow> 'a) \<Rightarrow> skey \<Rightarrow> 'a" where
  "perKey sk ids us f k = (case inv_into (set ids \<times> set us) (\<lambda>(st, u). sk st u) k of (st, u) \<Rightarrow> f st u)"

lemma perKey_at: "cells sk bk bucketOf ids us \<Longrightarrow> st \<in> set ids \<Longrightarrow> u \<in> set us \<Longrightarrow> perKey sk ids us f (sk st u) = f st u"
  using inv_into_f_f[of "\<lambda>(st, u). sk st u" "set ids \<times> set us" "(st, u)"] by (simp add: perKey_def cells_def)

lemma chosen_request:
  assumes "cells sk bk bucketOf ids us" "chosen p sk ids us \<noteq> []"
  shows "request (chosen p sk ids us)"
  using request_chosen[OF assms(2)] cells_inj[OF assms(1)] assms(1) by (simp add: cells_def)

lemma chosen_requested:
  assumes "cells sk bk bucketOf ids us"
  shows "requested (chosen p sk ids us) \<subseteq> cellKeys sk ids us"
    "st \<in> set ids \<Longrightarrow> u \<in> set us \<Longrightarrow> sk st u \<in> requested (chosen p sk ids us) \<longleftrightarrow> p st u"
proof -
  show "requested (chosen p sk ids us) \<subseteq> cellKeys sk ids us" by (auto simp: requested_chosen cellKeys_def)
  assume a: "st \<in> set ids" "u \<in> set us"
  show "sk st u \<in> requested (chosen p sk ids us) \<longleftrightarrow> p st u"
    using cells_inj[OF assms a(1) _ a(2)] a unfolding requested_chosen by blast
qed

lemma chosen_parts:
  assumes "cells sk bk bucketOf ids us"
  shows "chosen p (\<lambda>st u. Some (f st u)) ids us = valuesOf (\<lambda>k. Some (perKey sk ids us f k)) (chosen p sk ids us)"
    "chosen p (\<lambda>st u. bk u) ids us = bucketsOf bucketOf (chosen p sk ids us)"
proof -
  have "\<And>st u. st \<in> set ids \<Longrightarrow> u \<in> set us \<Longrightarrow> Some (perKey sk ids us f (sk st u)) = Some (f st u)"
    "\<And>st u. st \<in> set ids \<Longrightarrow> u \<in> set us \<Longrightarrow> bucketOf (sk st u) = bk u"
    using perKey_at[OF assms] assms by (simp_all add: cells_def)
  note v = this
  show "chosen p (\<lambda>st u. Some (f st u)) ids us = valuesOf (\<lambda>k. Some (perKey sk ids us f k)) (chosen p sk ids us)"
    unfolding valuesOf_def using chosen_values[where f = "\<lambda>k. Some (perKey sk ids us f k)" and sk = sk and p = p, OF v(1)] by simp
  show "chosen p (\<lambda>st u. bk u) ids us = bucketsOf bucketOf (chosen p sk ids us)"
    unfolding bucketsOf_def using chosen_values[where f = bucketOf and sk = sk and p = p, OF v(2)] by simp
qed

context key_value_service
begin

text \<open>One phase of the flush, whichever of the three it is: only the chosen cells change.\<close>

lemma flush_phase:
  assumes c: "cells sk bk bucketOf ids us"
    and call: "chosen p sk ids us \<noteq> [] \<Longrightarrow> \<exists>cl'. f cl (chosen p sk ids us) = Inr cl'
        \<and> content cl' = (\<lambda>k. if k \<in> requested (chosen p sk ids us) then g k (content cl k) else content cl k) \<and> R cl'"
    and none: "chosen p sk ids us = [] \<Longrightarrow> R cl"
  shows "\<exists>cl'. (if 0 < length (chosen p sk ids us) then f cl (chosen p sk ids us) else Inr cl) = Inr cl'
    \<and> (\<forall>st \<in> set ids. \<forall>u \<in> set us. content cl' (sk st u) = (if p st u then g (sk st u) (content cl (sk st u)) else content cl (sk st u)))
    \<and> (\<forall>k. k \<notin> cellKeys sk ids us \<longrightarrow> content cl' k = content cl k) \<and> R cl'"
proof (cases "chosen p sk ids us = []")
  case True
  then show ?thesis using none[OF True] by (simp add: chosen_empty)
next
  case False
  obtain cl' where cl': "f cl (chosen p sk ids us) = Inr cl'" "R cl'"
    "content cl' = (\<lambda>k. if k \<in> requested (chosen p sk ids us) then g k (content cl k) else content cl k)"
    using call[OF False] by blast
  have "\<forall>st \<in> set ids. \<forall>u \<in> set us. content cl' (sk st u) = (if p st u then g (sk st u) (content cl (sk st u)) else content cl (sk st u))"
    unfolding cl'(3) using chosen_requested(2)[OF c] by simp
  moreover have "\<forall>k. k \<notin> cellKeys sk ids us \<longrightarrow> content cl' k = content cl k"
    unfolding cl'(3) using chosen_requested(1)[OF c] by auto
  ultimately show ?thesis using cl'(1, 2) False by auto
qed

lemma flush_cells:
  assumes c: "cells sk bk bucketOf ids us" and held: "held cl (cellKeys sk ids us)"
    and del: "\<forall>st \<in> set ids. \<forall>u \<in> set us. act st u = Delete \<longrightarrow> removable cl (sk st u)"
  shows "\<exists>cl' nw nm nd. flushRequests api cl (map (\<lambda>st. (st, actData (sk st) bk (act st) us)) ids) = Inr (cl', nw, nm, nd)
    \<and> (\<forall>st \<in> set ids. \<forall>u \<in> set us. content cl' (sk st u) = actOn (act st u) (content cl (sk st u)))
    \<and> (\<forall>k. k \<notin> cellKeys sk ids us \<longrightarrow> content cl' k = content cl k) \<and> held cl' (cellKeys sk ids us)"
proof -
  let ?ds = "map (\<lambda>st. (st, actData (sk st) bk (act st) us)) ids" and ?K = "cellKeys sk ids us"
  let ?ow = "\<lambda>st u. isOw (act st u)" and ?ap = "\<lambda>st u. isAp (act st u)" and ?de = "\<lambda>st u. isDel (act st u)"
  have coll: "collect keysToWrite keysToWrite ?ds = chosen ?ow sk ids us"
    "collect keysToWrite (map Some \<circ> valuesToWrite) ?ds = valuesOf (\<lambda>k. Some (perKey sk ids us (\<lambda>st u. owBytes (act st u)) k)) (chosen ?ow sk ids us)"
    "collect keysToWrite bucketsToWrite ?ds = bucketsOf bucketOf (chosen ?ow sk ids us)"
    "collect keysToMerge keysToMerge ?ds = chosen ?ap sk ids us"
    "collect keysToMerge (map Some \<circ> valuesToMerge) ?ds = valuesOf (\<lambda>k. Some (perKey sk ids us (\<lambda>st u. apBytes (act st u)) k)) (chosen ?ap sk ids us)"
    "collect keysToMerge bucketsToMerge ?ds = bucketsOf bucketOf (chosen ?ap sk ids us)"
    "collect keysToDelete keysToDelete ?ds = chosen ?de sk ids us"
    "collect keysToDelete bucketsToDelete ?ds = bucketsOf bucketOf (chosen ?de sk ids us)"
    unfolding chosen_parts[OF c, symmetric]
    by (rule collect_chosen[where g = sk]; simp add: actData_def Let_def o_def)+
  note sub = chosen_requested(1)[OF c] and req = chosen_request[OF c]
  obtain cl1 where c1: "(if 0 < length (chosen ?ow sk ids us) then apiSetMany api cl (chosen ?ow sk ids us)
        (valuesOf (\<lambda>k. Some (perKey sk ids us (\<lambda>st u. owBytes (act st u)) k)) (chosen ?ow sk ids us)) (bucketsOf bucketOf (chosen ?ow sk ids us))
        else Inr cl) = Inr cl1"
    "\<forall>st \<in> set ids. \<forall>u \<in> set us. content cl1 (sk st u) = (if isOw (act st u) then perKey sk ids us (\<lambda>st u. owBytes (act st u)) (sk st u) else content cl (sk st u))"
    "\<forall>k. k \<notin> ?K \<longrightarrow> content cl1 k = content cl k" "held cl1 ?K" "\<forall>k. removable cl k \<longrightarrow> removable cl1 k"
    using flush_phase[OF c, where p = ?ow and f = "\<lambda>cl ks. apiSetMany api cl ks (valuesOf (\<lambda>k. Some (perKey sk ids us (\<lambda>st u. owBytes (act st u)) k)) ks) (bucketsOf bucketOf ks)"
        and g = "\<lambda>k _. perKey sk ids us (\<lambda>st u. owBytes (act st u)) k" and cl = cl
        and R = "\<lambda>cl'. held cl' ?K \<and> (\<forall>k. removable cl k \<longrightarrow> removable cl' k)", OF set[OF req held sub]] held by blast
  obtain cl2 where c2: "(if 0 < length (chosen ?ap sk ids us) then apiMergeMany api cl1 (chosen ?ap sk ids us)
        (valuesOf (\<lambda>k. Some (perKey sk ids us (\<lambda>st u. apBytes (act st u)) k)) (chosen ?ap sk ids us)) (bucketsOf bucketOf (chosen ?ap sk ids us))
        else Inr cl1) = Inr cl2"
    "\<forall>st \<in> set ids. \<forall>u \<in> set us. content cl2 (sk st u)
      = (if isAp (act st u) then content cl1 (sk st u) @ perKey sk ids us (\<lambda>st u. apBytes (act st u)) (sk st u) else content cl1 (sk st u))"
    "\<forall>k. k \<notin> ?K \<longrightarrow> content cl2 k = content cl1 k" "held cl2 ?K" "\<forall>k. removable cl1 k \<longrightarrow> removable cl2 k"
    using flush_phase[OF c, where p = ?ap and f = "\<lambda>cl ks. apiMergeMany api cl ks (valuesOf (\<lambda>k. Some (perKey sk ids us (\<lambda>st u. apBytes (act st u)) k)) ks) (bucketsOf bucketOf ks)"
        and g = "\<lambda>k b. b @ perKey sk ids us (\<lambda>st u. apBytes (act st u)) k" and cl = cl1
        and R = "\<lambda>cl'. held cl' ?K \<and> (\<forall>k. removable cl1 k \<longrightarrow> removable cl' k)", OF merge[OF req c1(4) sub]] c1(4) by blast
  have rem: "\<forall>k \<in> requested (chosen ?de sk ids us). removable cl2 k"
    using del c1(5) c2(5) by (auto simp: requested_chosen isDel_def)
  obtain cl3 where c3: "(if 0 < length (chosen ?de sk ids us) then apiDeleteMany api cl2 (chosen ?de sk ids us) (bucketsOf bucketOf (chosen ?de sk ids us))
        else Inr cl2) = Inr cl3"
    "\<forall>st \<in> set ids. \<forall>u \<in> set us. content cl3 (sk st u) = (if isDel (act st u) then [] else content cl2 (sk st u))"
    "\<forall>k. k \<notin> ?K \<longrightarrow> content cl3 k = content cl2 k" "held cl3 ?K"
    using flush_phase[OF c, where p = ?de and f = "\<lambda>cl ks. apiDeleteMany api cl ks (bucketsOf bucketOf ks)"
        and g = "\<lambda>k _. []" and cl = cl2 and R = "\<lambda>cl'. held cl' ?K", OF delete[OF req c2(4) sub rem]] c2(4) by blast
  have "content cl3 (sk st u) = actOn (act st u) (content cl (sk st u))" if "st \<in> set ids" "u \<in> set us" for st u
    using c1(2) c2(2) c3(2) that by (cases "act st u") (simp_all add: isDel_def perKey_at[OF c that])
  moreover have "flushRequests api cl ?ds = Inr (cl3, sum_list (map (\<lambda>(_, ks). length ks) (chosen ?ow sk ids us)),
      sum_list (map (\<lambda>(_, ks). length ks) (chosen ?ap sk ids us)), sum_list (map (\<lambda>(_, ks). length ks) (chosen ?de sk ids us)))"
    unfolding flushRequests_def coll Let_def c1(1) rbind_simps c2(1) c3(1) ..
  ultimately show ?thesis using c1(3) c2(3) c3(3, 4) by auto
qed

end

end
