(* ===== verification/Client_Batch.thy ===== *)
theory Client_Batch
  imports Client_Keys Client_Flush
begin

text \<open>
  A batch of the state client over a key-value service: fetch, operations of the user on the fetched states,
  flush.
\<close>

section \<open>Serializing the keys of a batch\<close>

lemma update_at: "distinct ids \<Longrightarrow> st \<in> set ids \<Longrightarrow>
    AList.update st v (map (\<lambda>s. (s, f s)) ids) = map (\<lambda>s. (s, if s = st then v else f s)) ids"
  by (induction ids) auto

lemma map_of_ids: "map_of (map (\<lambda>s. (s, f s)) ids) st = (if st \<in> set ids then Some (f st) else None)"
  by (induction ids) auto

lemma pushKey_at:
  "distinct ids \<Longrightarrow> st \<in> set ids \<Longrightarrow>
     pushKey (map (\<lambda>s. (s, f s)) ids) st k = map (\<lambda>s. (s, if s = st then f st @ [k] else f s)) ids"
  by (simp add: pushKey_def mslice_def map_of_ids update_at)

lemma multi_at:
  assumes "\<And>st. encodeStateID template st = Inr (g st)" "distinct ids" "distinct rest" "set rest \<subseteq> set ids"
  shows "serializeMultiStateKeys template rest (map (\<lambda>s. (s, f s)) ids)
    = Inr (map (\<lambda>s. (s, if s \<in> set rest then f s @ [g s] else f s)) ids)"
  using assms(3, 4)
proof (induction rest arbitrary: f)
  case (Cons st rest)
  have "serializeMultiStateKeys template (st # rest) (map (\<lambda>s. (s, f s)) ids)
      = serializeMultiStateKeys template rest (map (\<lambda>s. (s, if s = st then f st @ [g st] else f s)) ids)"
    using Cons.prems assms(2) by (simp add: serializeMultiStateKeys_def assms(1) pushKey_at)
  also have "\<dots> = Inr (map (\<lambda>s. (s, if s \<in> set rest then (if s = st then f st @ [g st] else f s) @ [g s]
      else if s = st then f st @ [g st] else f s)) ids)"
    using Cons.IH[of "\<lambda>s. if s = st then f st @ [g st] else f s"] Cons.prems by simp
  also have "\<dots> = Inr (map (\<lambda>s. (s, if s \<in> set (st # rest) then f s @ [g s] else f s)) ids)"
    using Cons.prems(1) by auto
  finally show ?case .
qed (simp add: serializeMultiStateKeys_def)

lemma empty_lists: "distinct (ids' @ ids) \<Longrightarrow>
    foldl (\<lambda>m st. AList.update st ([] :: bytes list) m) (map (\<lambda>s. (s, [])) ids') ids = map (\<lambda>s. (s, [])) (ids' @ ids)"
proof (induction ids arbitrary: ids')
  case (Cons st ids)
  have "st \<notin> set ids'" using Cons.prems by simp
  then have "AList.update st ([] :: bytes list) (map (\<lambda>s. (s, [])) ids') = map (\<lambda>s. (s, [])) (ids' @ [st])"
    by (induction ids') auto
  then show ?case using Cons.IH[of "ids' @ [st]"] Cons.prems by simp
qed simp

lemma serializeAll_eq:
  assumes enc: "\<And>u st. u \<in> set us \<Longrightarrow> enc u st = Inr (sk st u, bk u)"
    and multi: "\<And>u st st'. u \<in> set us \<Longrightarrow> encodeStateID (sk st u) st' = Inr (sk st' u)"
    and ids: "distinct ids" "ids \<noteq> []"
  shows "serializeAll enc ids us = Inr (map (\<lambda>st. (st, map (sk st) us)) ids, map bk us)"
proof -
  obtain st0 rest where i: "ids = st0 # rest" using ids(2) by (cases ids) auto
  have step: "serializeStepFor enc ids (map (\<lambda>s. (s, f s)) ids, bs) u = Inr (map (\<lambda>s. (s, f s @ [sk s u])) ids, bs @ [bk u])"
    if "u \<in> set us" for u f bs
  proof -
    let ?f = "\<lambda>s. if s = st0 then f st0 @ [sk st0 u] else f s"
    have "serializeMultiStateKeys (sk st0 u) rest (map (\<lambda>s. (s, ?f s)) ids)
        = Inr (map (\<lambda>s. (s, if s \<in> set rest then ?f s @ [sk s u] else ?f s)) ids)"
      by (rule multi_at[OF multi[OF that]]) (use ids i in auto)
    moreover have "map (\<lambda>s. (s, if s \<in> set rest then ?f s @ [sk s u] else ?f s)) ids = map (\<lambda>s. (s, f s @ [sk s u])) ids"
      using ids(1) i by auto
    moreover have "pushKey (map (\<lambda>s. (s, f s)) ids) st0 (sk st0 u) = map (\<lambda>s. (s, ?f s)) ids"
      by (rule pushKey_at) (use ids i in auto)
    ultimately show ?thesis using i enc[OF that] by (simp add: serializeStepFor_def at_idx_def)
  qed
  have "rfold (serializeStepFor enc ids) (map (\<lambda>s. (s, f s)) ids, bs) vs
      = Inr (map (\<lambda>s. (s, f s @ map (sk s) vs)) ids, bs @ map bk vs)" if "set vs \<subseteq> set us" for vs f bs
    using that
  proof (induction vs arbitrary: f bs)
    case (Cons v vs)
    then have "v \<in> set us" by simp
    from step[OF this] show ?case using Cons.IH[of "\<lambda>s. f s @ [sk s v]"] Cons.prems by simp
  qed simp
  from this[of us "\<lambda>_. []" "[]"] show ?thesis
    using empty_lists[of "[]" ids] ids(1) by (simp add: serializeAll_def)
qed


section \<open>Filling the caches\<close>

lemma ofold_append_each:
  assumes "\<And>st c. (st, c) \<in> set cs \<Longrightarrow> step st c = Some (Inr (g st c))"
  shows "ofold (\<lambda>acc (st, c). obind (step st c) (\<lambda>c. Some (Inr (acc @ [(st, c)])))) acc cs = Some (Inr (acc @ map (\<lambda>(st, c). (st, g st c)) cs))"
  using assms
proof (induction cs arbitrary: acc)
  case (Cons x cs)
  then show ?case by (cases x) auto
qed simp

lemma refresh_map_of:
  assumes "\<And>st c. (st, c) \<in> set cs \<Longrightarrow>
      (case map_of vals st of Some values \<Rightarrow> put values c | None \<Rightarrow> Some (Inr (CleanUp c))) = Some (Inr (g st c))"
  shows "\<exists>cs'. refreshCaches put vals cs = Some (Inr cs') \<and> (\<forall>st. map_of cs' st = map_option (g st) (map_of cs st))"
proof -
  have "refreshCaches put vals cs = Some (Inr (map (\<lambda>(st, c). (st, g st c)) cs))"
    unfolding refreshCaches_def using ofold_append_each[of cs "\<lambda>st c. case map_of vals st of Some values \<Rightarrow> put values c
        | None \<Rightarrow> Some (Inr (CleanUp c))" g "[]"] assms by simp
  moreover have "map_of (map (\<lambda>(st, c). (st, g st c)) cs) st = map_option (g st) (map_of cs st)" for st
    by (induction cs) auto
  ultimately show ?thesis by blast
qed

lemma simple_cache_filled:
  assumes "\<And>u. u \<in> set us \<Longrightarrow> deserializeValue (s_base c) (v u) = Some (Inr (val u))"
  shows "SetSimpleStateCache us (map v us) (SimpleCache c)
    = Some (Inr (SimpleCache (c\<lparr>s_cache := Some (\<lambda>u. if u \<in> set us then Some (val u) else None)\<rparr>)))"
proof -
  let ?step = "\<lambda>all m (i, key). obind (Some (at_idx (map v all) i)) (\<lambda>v. obind (deserializeValue (s_base c) v) (\<lambda>st. Some (Inr (m(key \<mapsto> st)))))"
  have "ofold (?step (pre @ us)) (\<lambda>u. if u \<in> set pre then Some (val u) else None) (enumerate (length pre) us)
    = Some (Inr (\<lambda>u. if u \<in> set (pre @ us) then Some (val u) else None))" for pre
    using assms
  proof (induction us arbitrary: pre)
    case (Cons u us)
    have "(\<lambda>w. if w \<in> set pre then Some (val w) else None)(u \<mapsto> val u) = (\<lambda>w. if w \<in> set (pre @ [u]) then Some (val w) else None)"
      by auto
    then have "?step (pre @ u # us) (\<lambda>w. if w \<in> set pre then Some (val w) else None) (length pre, u)
        = Some (Inr (\<lambda>w. if w \<in> set (pre @ [u]) then Some (val w) else None))"
      using Cons.prems(1)[of u] by (simp add: at_idx_def nth_append del: fun_upd_apply)
    then show ?case using Cons.IH[of "pre @ [u]"] Cons.prems(1) by (simp del: fun_upd_apply)
  qed simp
  from this[of "[]"] show ?thesis by simp
qed

definition windowAt :: "('k \<rightharpoonup> (int \<rightharpoonup> StateType)) \<Rightarrow> 'k \<times> int \<Rightarrow> StateType option" where
  "windowAt m u = (case m (fst u) of None \<Rightarrow> None | Some windows \<Rightarrow> windows (snd u))"

lemma windowAt_set: "windowAt (setWindow m k t st) u = (if u = (k, t) then Some st else windowAt m u)"
  by (cases u) (auto simp: windowAt_def setWindow_def split: option.splits)

lemma windowEntry_at: "windowEntry (c\<lparr>w_cache := Some m\<rparr>) k t = windowAt m (k, t)"
  by (simp add: windowEntry_def windowAt_def split: option.split)

lemma window_cache_filled:
  assumes "\<And>u. u \<in> set us \<Longrightarrow> deserializeValue (w_base c) (v u) = Some (Inr (val u))"
  shows "\<exists>m. SetWindowStateCache (map fst us) (map snd us) (map v us) (WindowCache c) = Some (Inr (WindowCache (c\<lparr>w_cache := Some m\<rparr>)))
    \<and> (\<forall>u \<in> set us. windowAt m u = Some (val u))"
proof -
  let ?step = "\<lambda>all m (i, key). obind (Some (at_idx (map v all) i)) (\<lambda>v. obind (deserializeValue (w_base c) v) (\<lambda>st.
         obind (Some (at_idx (map snd all) i)) (\<lambda>t. Some (Inr (setWindow m key t st)))))"
  have "\<exists>m'. ofold (?step (pre @ us)) m (enumerate (length pre) (map fst us)) = Some (Inr m')
      \<and> (\<forall>u \<in> set (pre @ us). windowAt m' u = Some (val u))" if "\<forall>u \<in> set pre. windowAt m u = Some (val u)" for pre m
    using assms that
  proof (induction us arbitrary: pre m)
    case (Cons u us)
    let ?m = "setWindow m (fst u) (snd u) (val u)"
    have s: "?step (pre @ u # us) m (length pre, fst u) = Some (Inr ?m)"
      using Cons.prems(1)[of u] by (simp add: at_idx_def nth_append)
    have "\<forall>w \<in> set (pre @ [u]). windowAt ?m w = Some (val w)" using Cons.prems(2) by (auto simp: windowAt_set)
    from Cons.IH[OF Cons.prems(1) this] s show ?case by simp
  qed auto
  from this[of "[]" Map.empty] show ?thesis by auto
qed


section \<open>Operations on the cached states\<close>

text \<open>The state that \<open>GetSimpleState\<close> or \<open>GetWindowState\<close> returns is the object in the cache: an operation of the
  user on it changes the cache.\<close>

fun storeSimple :: "fieldVal \<Rightarrow> StateType \<Rightarrow> fieldVal StateCache \<Rightarrow> fieldVal StateCache" where
  "storeSimple key v (SimpleCache c) = SimpleCache (c\<lparr>s_cache := map_option (\<lambda>m. m(key \<mapsto> v)) (s_cache c)\<rparr>)"
| "storeSimple key v c = c"

fun storeWindow :: "fieldVal \<Rightarrow> int \<Rightarrow> StateType \<Rightarrow> fieldVal StateCache \<Rightarrow> fieldVal StateCache" where
  "storeWindow key t v (WindowCache c) = WindowCache (c\<lparr>w_cache := map_option (\<lambda>m. setWindow m key t v) (w_cache c)\<rparr>)"
| "storeWindow key t v c = c"

definition onCache :: "u16 \<Rightarrow> (fieldVal StateCache \<Rightarrow> fieldVal StateCache) \<Rightarrow> StateClient \<Rightarrow> StateClient" where
  "onCache st f sc = sc\<lparr>sc_cache := map (\<lambda>(s, c). (s, if s = st then f c else c)) (sc_cache sc)\<rparr>"

definition useSimple :: "u16 \<times> fieldVal \<times> userOp \<Rightarrow> StateClient \<Rightarrow> StateClient res" where
  "useSimple = (\<lambda>(st, key, op) sc. rbind (GetSimpleState sc st key) (\<lambda>v. Inr (onCache st (storeSimple key (applyOp op v)) sc)))"

definition useWindow :: "u16 \<times> (fieldVal \<times> int) \<times> userOp \<Rightarrow> StateClient \<Rightarrow> StateClient res" where
  "useWindow = (\<lambda>(st, (key, t), op) sc. rbind (GetWindowState sc st key t) (\<lambda>v. Inr (onCache st (storeWindow key t (applyOp op v)) sc)))"

text \<open>The operations of a script on one cell, and the cell after them.\<close>

definition cellOps :: "(u16 \<times> 'u \<times> userOp) list \<Rightarrow> u16 \<Rightarrow> 'u \<Rightarrow> userOp list" where
  "cellOps script st u = map (\<lambda>(_, _, op). op) (filter (\<lambda>(st', u', _). st' = st \<and> u' = u) script)"

definition simpleEnt :: "fieldVal \<Rightarrow> fieldVal StateCache \<Rightarrow> StateType option" where
  "simpleEnt u c = (case c of SimpleCache c \<Rightarrow> simpleEntry c u | WindowCache _ \<Rightarrow> None)"

definition windowEnt :: "fieldVal \<times> int \<Rightarrow> fieldVal StateCache \<Rightarrow> StateType option" where
  "windowEnt u c = (case c of SimpleCache _ \<Rightarrow> None | WindowCache c \<Rightarrow> windowEntry c (fst u) (snd u))"

text \<open>The cells of the batch are cached, with the states \<open>val\<close>.\<close>

definition holding :: "('u \<Rightarrow> fieldVal StateCache \<Rightarrow> StateType option) \<Rightarrow> (u16 \<Rightarrow> StateCacheBase) \<Rightarrow> u16 list \<Rightarrow> 'u list \<Rightarrow>
    (u16 \<Rightarrow> 'u \<Rightarrow> StateType) \<Rightarrow> StateClient \<Rightarrow> bool" where
  "holding ent b ids us val sc \<longleftrightarrow> (\<forall>st \<in> set ids. \<exists>c. map_of (sc_cache sc) st = Some c \<and> cacheBase c = b st
     \<and> (\<forall>u \<in> set us. ent u c = Some (val st u)))"

lemma map_of_onCache: "map_of (sc_cache (onCache st f sc)) s = (if s = st then map_option f (map_of (sc_cache sc) s) else map_of (sc_cache sc) s)"
proof -
  have "map_of (map (\<lambda>(s, c). (s, if s = st then f c else c)) cs) s = (if s = st then map_option f (map_of cs s) else map_of cs s)" for cs
    by (induction cs) auto
  then show ?thesis by (simp add: onCache_def)
qed

lemma onCache_holding:
  assumes h: "holding ent b ids us val sc" and st: "st \<in> set ids" and u: "u \<in> set us"
    and store: "\<And>c w. ent u c \<noteq> None \<Longrightarrow> cacheBase (f c) = cacheBase c \<and> ent w (f c) = (if w = u then Some v else ent w c)"
  shows "holding ent b ids us (\<lambda>s w. if s = st \<and> w = u then v else val s w) (onCache st f sc)"
  unfolding holding_def
proof
  fix s assume s: "s \<in> set ids"
  then obtain c where c: "map_of (sc_cache sc) s = Some c" "cacheBase c = b s" "\<forall>u \<in> set us. ent u c = Some (val s u)"
    using h unfolding holding_def by blast
  show "\<exists>c. map_of (sc_cache (onCache st f sc)) s = Some c \<and> cacheBase c = b s
      \<and> (\<forall>w \<in> set us. ent w c = Some (if s = st \<and> w = u then v else val s w))"
  proof (cases "s = st")
    case True
    then show ?thesis using c u store[of c] by (simp add: map_of_onCache)
  qed (use c in \<open>simp add: map_of_onCache\<close>)
qed

lemma useSimple_ok:
  assumes h: "holding simpleEnt b ids us val sc" and st: "st \<in> set ids" and u: "u \<in> set us"
  shows "\<exists>cs. useSimple (st, u, op) sc = Inr (sc\<lparr>sc_cache := cs\<rparr>)
    \<and> holding simpleEnt b ids us (\<lambda>s w. if s = st \<and> w = u then applyOp op (val st u) else val s w) (sc\<lparr>sc_cache := cs\<rparr>)"
proof -
  obtain c where c: "map_of (sc_cache sc) st = Some c" "simpleEnt u c = Some (val st u)" using h st u unfolding holding_def by blast
  then obtain d m where d: "c = SimpleCache d" "s_cache d = Some m" "m u = Some (val st u)"
    by (auto simp: simpleEnt_def simpleEntry_def split: StateCache.splits option.splits)
  then have "useSimple (st, u, op) sc = Inr (onCache st (storeSimple u (applyOp op (val st u))) sc)"
    using c(1) by (simp add: useSimple_def GetSimpleState_def sc_lookup_def simpleEntry_def)
  moreover have "holding simpleEnt b ids us (\<lambda>s w. if s = st \<and> w = u then applyOp op (val st u) else val s w)
      (onCache st (storeSimple u (applyOp op (val st u))) sc)"
  proof (rule onCache_holding[OF h st u])
    fix c w assume "simpleEnt u c \<noteq> None"
    then show "cacheBase (storeSimple u (applyOp op (val st u)) c) = cacheBase c
        \<and> simpleEnt w (storeSimple u (applyOp op (val st u)) c) = (if w = u then Some (applyOp op (val st u)) else simpleEnt w c)"
      by (cases c) (auto simp: simpleEnt_def simpleEntry_def split: option.splits)
  qed
  ultimately show ?thesis by (auto simp: onCache_def)
qed

lemma useWindow_ok:
  assumes h: "holding windowEnt b ids us val sc" and st: "st \<in> set ids" and u: "u \<in> set us"
  shows "\<exists>cs. useWindow (st, u, op) sc = Inr (sc\<lparr>sc_cache := cs\<rparr>)
    \<and> holding windowEnt b ids us (\<lambda>s w. if s = st \<and> w = u then applyOp op (val st u) else val s w) (sc\<lparr>sc_cache := cs\<rparr>)"
proof -
  obtain k t where k: "u = (k, t)" by (cases u)
  obtain c where c: "map_of (sc_cache sc) st = Some c" "windowEnt u c = Some (val st u)" using h st u unfolding holding_def by blast
  then obtain d m where d: "c = WindowCache d" "w_cache d = Some m" "windowEntry d k t = Some (val st u)"
    using k by (auto simp: windowEnt_def windowEntry_def split: StateCache.splits option.splits)
  then have "useWindow (st, u, op) sc = Inr (onCache st (storeWindow k t (applyOp op (val st u))) sc)"
    using c(1) k by (simp add: useWindow_def GetWindowState_def sc_lookup_def)
  moreover have "holding windowEnt b ids us (\<lambda>s w. if s = st \<and> w = u then applyOp op (val st u) else val s w)
      (onCache st (storeWindow k t (applyOp op (val st u))) sc)"
  proof (rule onCache_holding[OF h st u])
    fix c w assume "windowEnt u c \<noteq> None"
    then obtain d m where d: "c = WindowCache d" "w_cache d = Some m"
      by (auto simp: windowEnt_def windowEntry_def split: StateCache.splits option.splits)
    then show "cacheBase (storeWindow k t (applyOp op (val st u)) c) = cacheBase c
        \<and> windowEnt w (storeWindow k t (applyOp op (val st u)) c) = (if w = u then Some (applyOp op (val st u)) else windowEnt w c)"
      using k windowAt_set[of m k t "applyOp op (val st u)" w]
      by (simp add: windowEnt_def windowEntry_def windowAt_def split: option.splits)
  qed
  ultimately show ?thesis by (auto simp: onCache_def)
qed

lemma run_script:
  assumes step: "\<And>sc val st u op. holding ent b ids us val sc \<Longrightarrow> st \<in> set ids \<Longrightarrow> u \<in> set us \<Longrightarrow>
      \<exists>cs. use (st, u, op) sc = Inr (sc\<lparr>sc_cache := cs\<rparr>)
        \<and> holding ent b ids us (\<lambda>s w. if s = st \<and> w = u then applyOp op (val st u) else val s w) (sc\<lparr>sc_cache := cs\<rparr>)"
    and "holding ent b ids us val sc" "\<forall>(st, u, op) \<in> set script. st \<in> set ids \<and> u \<in> set us"
  shows "\<exists>cs. rfold (\<lambda>sc x. use x sc) sc script = Inr (sc\<lparr>sc_cache := cs\<rparr>)
    \<and> holding ent b ids us (\<lambda>st u. foldl (\<lambda>s op. applyOp op s) (val st u) (cellOps script st u)) (sc\<lparr>sc_cache := cs\<rparr>)"
  using assms(2, 3)
proof (induction script arbitrary: val sc)
  case Nil
  then show ?case by (intro exI[of _ "sc_cache sc"]) (simp add: cellOps_def)
next
  case (Cons x script)
  obtain st u op where x: "x = (st, u, op)" by (cases x)
  let ?val = "\<lambda>s w. if s = st \<and> w = u then applyOp op (val st u) else val s w"
  obtain cs where cs: "use (st, u, op) sc = Inr (sc\<lparr>sc_cache := cs\<rparr>)" "holding ent b ids us ?val (sc\<lparr>sc_cache := cs\<rparr>)"
    using step[OF Cons.prems(1)] Cons.prems(2) x by fastforce
  from Cons.IH[OF cs(2)] Cons.prems(2) obtain cs' where cs': "rfold (\<lambda>sc x. use x sc) (sc\<lparr>sc_cache := cs\<rparr>) script = Inr (sc\<lparr>sc_cache := cs'\<rparr>)"
    "holding ent b ids us (\<lambda>s w. foldl (\<lambda>s op. applyOp op s) (?val s w) (cellOps script s w)) (sc\<lparr>sc_cache := cs'\<rparr>)"
    by auto
  moreover have "(\<lambda>s w. foldl (\<lambda>s op. applyOp op s) (?val s w) (cellOps script s w))
      = (\<lambda>s w. foldl (\<lambda>s op. applyOp op s) (val s w) (cellOps (x # script) s w))"
    by (auto simp: cellOps_def x fun_eq_iff)
  ultimately show ?case using cs(1) x by auto
qed


section \<open>Fetch, use, flush\<close>

lemma dedup_ok: "distinct (dedup keys)" "set (dedup keys) = set keys"
proof -
  have "distinct (foldl (\<lambda>acc key. if key \<in> set acc then acc else acc @ [key]) acc keys)
      \<and> set (foldl (\<lambda>acc key. if key \<in> set acc then acc else acc @ [key]) acc keys) = set acc \<union> set keys" if "distinct acc" for acc
    using that by (induction keys arbitrary: acc) auto
  from this[of "[]"] show "distinct (dedup keys)" "set (dedup keys) = set keys" by (simp_all add: dedup_def)
qed

lemma ordered_ids:
  assumes "range_order ord" "distinct ids"
  shows "\<exists>ids'. ord (map (\<lambda>st. (st, f st)) ids) = map (\<lambda>st. (st, f st)) ids' \<and> set ids' = set ids \<and> distinct ids'"
proof (intro exI conjI)
  let ?m = "map (\<lambda>st. (st, f st)) ids"
  note perm = range_orderD[OF assms(1), of ?m]
  show "ord ?m = map (\<lambda>st. (st, f st)) (map fst (ord ?m))" using perm(2) by (auto intro!: map_idI[symmetric])
  show "set (map fst (ord ?m)) = set ids" using perm(2) by force
  have "mset (map fst (ord ?m)) = mset (map fst ?m)" using perm(1) by (simp only: mset_map)
  moreover have "map fst ?m = ids" by (simp add: o_def)
  ultimately show "distinct (map fst (ord ?m))" using assms(2) by (metis mset_eq_imp_distinct_iff)
qed

text \<open>The states \<open>ids\<close> are set up with the codecs for the tuples \<open>P\<close> of each of them.\<close>

definition typed :: "(u16 \<Rightarrow> StateCacheBase) \<Rightarrow> (u16 \<Rightarrow> tupleVal \<Rightarrow> bool) \<Rightarrow> (u16 \<Rightarrow> tupleVal \<Rightarrow> bytes) \<Rightarrow> u16 list \<Rightarrow> bool" where
  "typed b P tb ids \<longleftrightarrow> (\<forall>st \<in> set ids. \<exists>cd. cacheCodec (b st) = Some cd \<and> codecOk cd (P st) (tb st))"

lemma gatherFlush_eq:
  assumes "\<And>st. st \<in> set ids \<Longrightarrow> \<exists>c. map_of caches st = Some c \<and> get (f st) c = Inr (g st)"
  shows "gatherFlush get caches (map (\<lambda>st. (st, f st)) ids) = Inr (map (\<lambda>st. (st, g st)) ids)"
proof -
  have "rfold (\<lambda>ds (stateID, keysPer). rbind (deref (map_of caches stateID)) (\<lambda>cache.
         rbind (get keysPer cache) (\<lambda>d. Inr (ds @ [(stateID, d)])))) ds (map (\<lambda>st. (st, f st)) ids) = Inr (ds @ map (\<lambda>st. (st, g st)) ids)" for ds
    using assms
  proof (induction ids arbitrary: ds)
    case (Cons st ids)
    from Cons.prems[of st] obtain c where "map_of caches st = Some c" "get (f st) c = Inr (g st)" by auto
    then show ?case using Cons.IH[of "ds @ [(st, g st)]"] Cons.prems by simp
  qed simp
  then show ?thesis by (simp add: gatherFlush_def)
qed

context key_value_service
begin

lemma fetch_values:
  assumes c: "cells sk bk bucketOf ids us" and ne: "ids \<noteq> []" "us \<noteq> []" and r: "ready cl (cellKeys sk ids us)"
  shows "\<exists>cl' v. apiGetMany api cl opID (map (\<lambda>st. (st, map (sk st) us)) ids) (map bk us) = Inr (cl', map (\<lambda>st. (st, map (\<lambda>u. v (sk st u)) us)) ids)
    \<and> (\<forall>st \<in> set ids. \<forall>u \<in> set us. nilToEmpty (v (sk st u)) = content cl (sk st u)) \<and> content cl' = content cl
    \<and> held cl' (cellKeys sk ids us) \<and> (\<forall>k. removable cl k \<longrightarrow> removable cl' k)"
proof -
  let ?keys = "map (\<lambda>st. (st, map (sk st) us)) ids"
  have all: "chosen (\<lambda>_ _. True) sk ids us = ?keys" using ne(2) by (auto simp: chosen_def ex_in_conv)
  have q: "request ?keys" using chosen_request[OF c, of "\<lambda>_ _. True"] ne(1) all by simp
  have K: "requested ?keys = cellKeys sk ids us" using requested_chosen[of "\<lambda>_ _. True" sk ids us] all by (simp add: cellKeys_def)
  have b: "\<forall>(st, ks) \<in> set ?keys. map bucketOf ks = map bk us" using c by (auto simp: cells_def)
  obtain cl' v where g: "apiGetMany api cl opID ?keys (map bk us) = Inr (cl', valuesOf v ?keys)"
    "\<forall>k \<in> requested ?keys. nilToEmpty (v k) = content cl k" "content cl' = content cl" "held cl' (requested ?keys)"
    "\<forall>k. removable cl k \<longrightarrow> removable cl' k"
    using get[OF q _ b, of cl] r K by auto
  have vals: "valuesOf v ?keys = map (\<lambda>st. (st, map (\<lambda>u. v (sk st u)) us)) ids" by (simp add: valuesOf_def o_def)
  have "\<forall>st \<in> set ids. \<forall>u \<in> set us. nilToEmpty (v (sk st u)) = content cl (sk st u)"
    using g(2) K by (auto simp: cellKeys_def)
  then show ?thesis using g(1)[unfolded vals] g(3) g(4)[unfolded K] g(5) by blast
qed

text \<open>The flush of a client that holds the states of the cells after the operations \<open>ops\<close>.\<close>

lemma flush_batch:
  assumes c: "cells sk bk bucketOf ids us" and ord: "range_order ord" and h: "held cl (cellKeys sk ids us)"
    and ty: "typed b P tb ids"
    and hold: "holding ent b ids us (\<lambda>st u. foldl (\<lambda>s op. applyOp op s) (fetched (cacheKind (b st)) (A st u)) (ops st u)) sc"
    and get: "\<And>st c val act. st \<in> set ids \<Longrightarrow> cacheBase c = b st \<Longrightarrow> \<forall>u \<in> set us. ent u c = Some (val u) \<and> flushAction (b st) (val u) = Inr (act u) \<Longrightarrow>
        get (map (sk st) us) c = Inr (actData (sk st) bk act us)"
    and cells: "\<forall>st \<in> set ids. \<forall>u \<in> set us. stored (cacheKind (b st)) (P st) (A st u) \<and> list_all (opOk (cacheKind (b st)) (P st)) (ops st u)
        \<and> content cl (sk st u) = listBytes (tb st) (A st u)
        \<and> (ClearS \<in> set (ops st u) \<and> foldl absOp (A st u) (ops st u) \<noteq> [] \<longrightarrow> removable cl (sk st u))"
  shows "\<exists>cl' n. rbind (gatherFlush get (sc_cache sc) (ord (map (\<lambda>st. (st, map (sk st) us)) ids))) (flushRequests api cl) = Inr (cl', n)
    \<and> (\<forall>st \<in> set ids. \<forall>u \<in> set us. content cl' (sk st u) = listBytes (tb st) (opsResult (ops st u) (A st u)))
    \<and> (\<forall>k. k \<notin> cellKeys sk ids us \<longrightarrow> content cl' k = content cl k) \<and> held cl' (cellKeys sk ids us)"
proof -
  let ?val = "\<lambda>st u. foldl (\<lambda>s op. applyOp op s) (fetched (cacheKind (b st)) (A st u)) (ops st u)"
  have "\<exists>a. flushAction (b st) (?val st u) = Inr a \<and> actOn a (content cl (sk st u)) = listBytes (tb st) (opsResult (ops st u) (A st u))
      \<and> (a = Delete \<longrightarrow> removable cl (sk st u))" if su: "st \<in> set ids" "u \<in> set us" for st u
  proof -
    obtain cd where cd: "cacheCodec (b st) = Some cd" "codecOk cd (P st) (tb st)" using ty su(1) unfolding typed_def by blast
    have c: "stored (cacheKind (b st)) (P st) (A st u)" "list_all (opOk (cacheKind (b st)) (P st)) (ops st u)"
      "content cl (sk st u) = listBytes (tb st) (A st u)"
      "ClearS \<in> set (ops st u) \<and> foldl absOp (A st u) (ops st u) \<noteq> [] \<longrightarrow> removable cl (sk st u)"
      using cells su by blast+
    show ?thesis using flush_after[OF cd c(1, 2)] c(4) unfolding c(3) by blast
  qed
  then obtain act where act: "\<And>st u. st \<in> set ids \<Longrightarrow> u \<in> set us \<Longrightarrow> flushAction (b st) (?val st u) = Inr (act st u)
      \<and> actOn (act st u) (content cl (sk st u)) = listBytes (tb st) (opsResult (ops st u) (A st u))
      \<and> (act st u = Delete \<longrightarrow> removable cl (sk st u))"
    by metis
  obtain js where js: "ord (map (\<lambda>st. (st, map (sk st) us)) ids) = map (\<lambda>st. (st, map (sk st) us)) js" "set js = set ids" "distinct js"
    using ordered_ids[OF ord, of ids "\<lambda>st. map (sk st) us"] c by (auto simp: cells_def)
  have "gatherFlush get (sc_cache sc) (map (\<lambda>st. (st, map (sk st) us)) js) = Inr (map (\<lambda>st. (st, actData (sk st) bk (act st) us)) js)"
  proof (rule gatherFlush_eq)
    fix st assume "st \<in> set js"
    then have st: "st \<in> set ids" using js(2) by simp
    then obtain d where d: "map_of (sc_cache sc) st = Some d" "cacheBase d = b st" "\<forall>u \<in> set us. ent u d = Some (?val st u)"
      using hold unfolding holding_def by blast
    have "get (map (sk st) us) d = Inr (actData (sk st) bk (act st) us)"
      by (rule get[OF st d(2)]) (use d(3) act[OF st] in auto)
    then show "\<exists>c. map_of (sc_cache sc) st = Some c \<and> get (map (sk st) us) c = Inr (actData (sk st) bk (act st) us)" using d(1) by blast
  qed
  moreover have "cells sk bk bucketOf js us" using c js(2, 3) by (simp add: cells_def)
  moreover have K: "cellKeys sk js us = cellKeys sk ids us" using js(2) by (simp add: cellKeys_def)
  ultimately show ?thesis
    using flush_cells[of sk bk js us cl act] h act js(1, 2) by fastforce
qed

end

lemma refresh_holding:
  assumes d: "distinct (map fst (sc_cache sc))" and reg: "\<forall>st \<in> set ids. map_of (sc_cache sc) st \<noteq> None"
    and put: "\<And>st c. st \<in> set ids \<Longrightarrow> map_of (sc_cache sc) st = Some c \<Longrightarrow>
        \<exists>c'. put (vals st) c = Some (Inr c') \<and> cacheBase c' = b st \<and> (\<forall>u \<in> set us. ent u c' = Some (val st u))"
  shows "\<exists>cs. refreshCaches put (map (\<lambda>st. (st, vals st)) ids) (sc_cache sc) = Some (Inr cs)
    \<and> holding ent b ids us val (sc'\<lparr>sc_cache := cs\<rparr>)"
proof -
  obtain g where g: "\<And>st c. st \<in> set ids \<Longrightarrow> map_of (sc_cache sc) st = Some c \<Longrightarrow>
      put (vals st) c = Some (Inr (g st c)) \<and> cacheBase (g st c) = b st \<and> (\<forall>u \<in> set us. ent u (g st c) = Some (val st u))"
    using put by metis
  obtain cs where cs: "refreshCaches put (map (\<lambda>st. (st, vals st)) ids) (sc_cache sc) = Some (Inr cs)"
    "\<forall>st. map_of cs st = map_option (\<lambda>c. if st \<in> set ids then g st c else CleanUp c) (map_of (sc_cache sc) st)"
  proof (atomize_elim, rule refresh_map_of)
    fix st c assume "(st, c) \<in> set (sc_cache sc)"
    then have "map_of (sc_cache sc) st = Some c" using d by simp
    then show "(case map_of (map (\<lambda>st. (st, vals st)) ids) st of Some values \<Rightarrow> put values c | None \<Rightarrow> Some (Inr (CleanUp c)))
        = Some (Inr (if st \<in> set ids then g st c else CleanUp c))"
      using g[of st c] by (simp add: map_of_ids)
  qed
  have "holding ent b ids us val (sc'\<lparr>sc_cache := cs\<rparr>)"
    unfolding holding_def
  proof
    fix st assume st: "st \<in> set ids"
    then obtain c where "map_of (sc_cache sc) st = Some c" using reg by auto
    then show "\<exists>c. map_of (sc_cache (sc'\<lparr>sc_cache := cs\<rparr>)) st = Some c \<and> cacheBase c = b st \<and> (\<forall>u \<in> set us. ent u c = Some (val st u))"
      using g[OF st] cs(2) st by simp
  qed
  then show ?thesis using cs(1) by blast
qed

text \<open>The bucket of an encoded key is in the key.\<close>

definition bucketOfKey :: "skey \<Rightarrow> int" where
  "bucketOfKey k = int (beNat (take 4 (drop 2 k)))"

lemma bucketOfKey_cell: "clientOk mu kk sc \<Longrightarrow> bucketOfKey (cellKey sc st kb rest) = int (bucketFor sc kb)"
  using bucketOfBytes_ok(3)[of mu kk sc kb] by (simp add: bucketOfKey_def cellKey_def storedKey_def unat_of_nat)

lemma validate_ok: "ids \<noteq> [] \<Longrightarrow> \<forall>st \<in> set ids. map_of (sc_cache sc) st \<noteq> None \<Longrightarrow> validateStateIDs sc ids = Inr ()"
proof -
  assume "ids \<noteq> []" and r: "\<forall>st \<in> set ids. map_of (sc_cache sc) st \<noteq> None"
  have "rfold (\<lambda>_ st. fatal_if (map_of (sc_cache sc) st = None) msg) () ids = Inr ()" for msg
    using r by (induction ids) (auto simp: fatal_if_def)
  then show ?thesis using \<open>ids \<noteq> []\<close> by (simp add: validateStateIDs_def)
qed

text \<open>A batch: a client that is set up, the states and keys it fetches, the tuples stored for them, and the operations
  of the user. \<open>reg st c\<close> says that the cache \<open>c\<close> of a state is of the type of the client.\<close>

definition batch :: "(fieldVal StateCache \<Rightarrow> bool) \<Rightarrow> mus \<Rightarrow> kind \<Rightarrow> (u16 \<Rightarrow> StateCacheBase) \<Rightarrow> (u16 \<Rightarrow> tupleVal \<Rightarrow> bool) \<Rightarrow> (u16 \<Rightarrow> tupleVal \<Rightarrow> bytes) \<Rightarrow>
    StateClient \<Rightarrow> u16 list \<Rightarrow> 'u list \<Rightarrow> (u16 \<Rightarrow> 'u \<Rightarrow> tupleVal list) \<Rightarrow> (u16 \<times> 'u \<times> userOp) list \<Rightarrow> bool" where
  "batch reg mu kk b P tb sc ids us A script \<longleftrightarrow> clientOk mu kk sc \<and> distinct (map fst (sc_cache sc))
     \<and> (\<forall>st \<in> set ids. \<exists>c. map_of (sc_cache sc) st = Some c \<and> reg c \<and> cacheBase c = b st) \<and> typed b P tb ids
     \<and> distinct ids \<and> ids \<noteq> [] \<and> us \<noteq> []
     \<and> (\<forall>(st, u, op) \<in> set script. st \<in> set ids \<and> u \<in> set us \<and> opOk (cacheKind (b st)) (P st) op)
     \<and> (\<forall>st \<in> set ids. \<forall>u \<in> set us. stored (cacheKind (b st)) (P st) (A st u))"

fun isSimple :: "fieldVal StateCache \<Rightarrow> bool" where
  "isSimple (SimpleCache c) = True" | "isSimple (WindowCache c) = False"

definition simpleKey :: "mus \<Rightarrow> kind \<Rightarrow> StateClient \<Rightarrow> u16 \<Rightarrow> fieldVal \<Rightarrow> skey" where
  "simpleKey mu kk sc st key = cellKey sc st (fieldBytes mu kk key) []"

definition windowKey :: "mus \<Rightarrow> kind \<Rightarrow> StateClient \<Rightarrow> u16 \<Rightarrow> fieldVal \<times> int \<Rightarrow> skey" where
  "windowKey mu kk sc st u = cellKey sc st (fieldBytes mu kk (fst u)) (MarshalNum mu KindInt64 (snd u))"

lemma cellOps_ok:
  assumes "batch reg mu kk b P tb sc ids us A script" "st \<in> set ids" "u \<in> set us"
  shows "list_all (opOk (cacheKind (b st)) (P st)) (cellOps script st u)"
  using assms by (auto simp: batch_def cellOps_def list_all_iff)

lemma simple_cells:
  assumes "clientOk mu kk sc" "\<forall>k \<in> set us. hasKind kk k" "distinct us" "distinct ids"
  shows "cells (simpleKey mu kk sc) (\<lambda>k. int (bucketFor sc (fieldBytes mu kk k))) bucketOfKey ids us"
proof -
  have mu: "mus_ok mu" using assms(1) by (simp add: clientOk_def)
  show ?thesis unfolding cells_def using assms bucketOfKey_cell[OF assms(1)] cellKey_inject[OF mu]
    by (auto simp: simpleKey_def inj_on_def)
qed

lemma window_cells:
  assumes "clientOk mu kk sc" "\<forall>(k, t) \<in> set us. hasKind kk k \<and> inKind KindInt64 t" "distinct us" "distinct ids"
  shows "cells (windowKey mu kk sc) (\<lambda>u. int (bucketFor sc (fieldBytes mu kk (fst u)))) bucketOfKey ids us"
proof -
  have mu: "mus_ok mu" using assms(1) by (simp add: clientOk_def)
  have "inj_on (\<lambda>(st, u). windowKey mu kk sc st u) (set ids \<times> set us)"
  proof (rule inj_onI)
    fix p q assume a: "p \<in> set ids \<times> set us" "q \<in> set ids \<times> set us"
      "(case p of (st, u) \<Rightarrow> windowKey mu kk sc st u) = (case q of (st, u) \<Rightarrow> windowKey mu kk sc st u)"
    obtain st k t st' k' t' where pq: "p = (st, k, t)" "q = (st', k', t')" by (metis prod_cases3)
    have h: "hasKind kk k" "inKind KindInt64 t" "hasKind kk k'" "inKind KindInt64 t'" using assms(2) a(1, 2) pq by auto
    then have e: "st = st'" "k = k'" "MarshalNum mu KindInt64 t = MarshalNum mu KindInt64 t'"
      using a(3) cellKey_inject[OF mu h(1, 3)] pq by (simp_all add: windowKey_def)
    then show "p = q" using time_inject[OF mu h(2, 4)] pq by simp
  qed
  moreover have "bucketOfKey (windowKey mu kk sc st u) = int (bucketFor sc (fieldBytes mu kk (fst u)))" for st u
    by (simp add: windowKey_def bucketOfKey_cell[OF assms(1)])
  ultimately show ?thesis unfolding cells_def using assms(3, 4) by simp
qed

end
