(* ===== verification/Client_End.thy ===== *)
theory Client_End
  imports Client_Batch
begin

text \<open>
  A whole batch of the state client over a key-value service: what a batch reads is what is stored, and what it leaves is
  what the operations of the user mean on the stored tuples.
\<close>

section \<open>Reading and flushing what is cached\<close>

lemma holding_simple:
  assumes "holding simpleEnt b ids us val sc" "st \<in> set ids" "u \<in> set us"
  shows "GetSimpleState sc st u = Inr (val st u)"
proof -
  obtain d where d: "map_of (sc_cache sc) st = Some d" "simpleEnt u d = Some (val st u)" using assms unfolding holding_def by blast
  then obtain d' m where "d = SimpleCache d'" "s_cache d' = Some m" "m u = Some (val st u)"
    by (auto simp: simpleEnt_def simpleEntry_def split: StateCache.splits option.splits)
  then show ?thesis using d(1) by (simp add: GetSimpleState_def sc_lookup_def simpleEntry_def)
qed

lemma holding_window:
  assumes "holding windowEnt b ids us val sc" "st \<in> set ids" "u \<in> set us"
  shows "GetWindowState sc st (fst u) (snd u) = Inr (val st u)"
proof -
  obtain d where d: "map_of (sc_cache sc) st = Some d" "windowEnt u d = Some (val st u)" using assms unfolding holding_def by blast
  then obtain d' where d': "d = WindowCache d'" "windowEntry d' (fst u) (snd u) = Some (val st u)"
    by (auto simp: windowEnt_def split: StateCache.splits)
  then have "w_cache d' \<noteq> None" by (cases "w_cache d'") (simp_all add: windowEntry_def)
  then show ?thesis using d(1) d' by (simp add: GetWindowState_def sc_lookup_def)
qed

lemma simple_flush:
  assumes "us \<noteq> []" "cacheBase d = b" "\<forall>u \<in> set us. simpleEnt u d = Some (val u) \<and> flushAction b (val u) = Inr (act u)"
  shows "GetSimpleStateFlushData us (map sk us) (map bk us) d = Inr (actData sk bk act us)"
proof -
  obtain d' where "d = SimpleCache d'" using assms(1, 3) by (cases d; cases us) (auto simp: simpleEnt_def)
  then show ?thesis using simple_flush_data[of us d' val act sk bk] assms(2, 3) by (simp add: simpleEnt_def)
qed

lemma window_flush:
  assumes "us \<noteq> []" "cacheBase d = b" "\<forall>u \<in> set us. windowEnt u d = Some (val u) \<and> flushAction b (val u) = Inr (act u)"
  shows "GetWindowStateFlushData (map fst us) (map snd us) (map sk us) (map bk us) d = Inr (actData sk bk act us)"
proof -
  obtain d' where d: "d = WindowCache d'" using assms(1, 3) by (cases d; cases us) (auto simp: windowEnt_def)
  have "\<forall>(k, t) \<in> set us. windowEntry d' k t = Some (val (k, t)) \<and> flushAction (w_base d') (val (k, t)) = Inr (act (k, t))"
    using assms(2, 3) unfolding d by (force simp: windowEnt_def)
  then show ?thesis unfolding d by (rule window_flush_data)
qed


section \<open>A batch\<close>

context key_value_service
begin

lemma fetch_simple:
  assumes bt: "batch isSimple mu kk b P tb sc ids keys A script" and ty: "stateClientType sc = SimpleStateClient"
    and key: "\<forall>k \<in> set keys. hasKind kk k" and op: "opID = sc_operatorID sc"
    and cs: "cells (simpleKey mu kk sc) (\<lambda>k. int (bucketFor sc (fieldBytes mu kk k))) bucketOf ids (dedup keys)" and r: "ready cl (cellKeys (simpleKey mu kk sc) ids keys)"
    and con: "\<forall>st \<in> set ids. \<forall>u \<in> set keys. content cl (simpleKey mu kk sc st u) = listBytes (tb st) (A st u)"
  shows "\<exists>cs cl1 n. FetchSimpleState api sc cl keys ids
      = Some (Inr (sc\<lparr>dedupedKeys := dedup keys, serializedKeys := map (\<lambda>st. (st, map (simpleKey mu kk sc st) (dedup keys))) ids, sc_bucketIDs := map (\<lambda>k. int (bucketFor sc (fieldBytes mu kk k))) (dedup keys)\<rparr>\<lparr>sc_cache := cs\<rparr>, cl1, n))
    \<and> holding simpleEnt b ids (dedup keys) (\<lambda>st u. fetched (cacheKind (b st)) (A st u)) (sc\<lparr>dedupedKeys := dedup keys, serializedKeys := map (\<lambda>st. (st, map (simpleKey mu kk sc st) (dedup keys))) ids, sc_bucketIDs := map (\<lambda>k. int (bucketFor sc (fieldBytes mu kk k))) (dedup keys)\<rparr>\<lparr>sc_cache := cs\<rparr>)
    \<and> content cl1 = content cl \<and> held cl1 (cellKeys (simpleKey mu kk sc) ids (dedup keys)) \<and> (\<forall>k. removable cl k \<longrightarrow> removable cl1 k)"
proof -
  let ?us = "dedup keys" and ?sk = "simpleKey mu kk sc" and ?bk = "(\<lambda>k. int (bucketFor sc (fieldBytes mu kk k)))"
  let ?v0 = "\<lambda>st u. fetched (cacheKind (b st)) (A st u)"
  have c: "clientOk mu kk sc" "distinct (map fst (sc_cache sc))" "typed b P tb ids" "distinct ids" "ids \<noteq> []" "keys \<noteq> []"
    and cache: "\<forall>st \<in> set ids. \<exists>c. map_of (sc_cache sc) st = Some c \<and> isSimple c \<and> cacheBase c = b st"
    and sto: "\<forall>st \<in> set ids. \<forall>u \<in> set keys. stored (cacheKind (b st)) (P st) (A st u)"
    using bt unfolding batch_def by blast+
  have us: "set ?us = set keys" "?us \<noteq> []" using dedup_ok[of keys] c(6) by auto
  have reg: "\<forall>st \<in> set ids. map_of (sc_cache sc) st \<noteq> None" using cache by auto
  have ser: "serializeAll (encodeSimpleKey sc) ids ?us = Inr (map (\<lambda>st. (st, map (?sk st) ?us)) ids, map ?bk ?us)"
    by (rule serializeAll_eq[OF _ _ c(4, 5)])
      (use key us(1) encodeSimpleKey_eq[OF c(1)] in \<open>simp_all add: simpleKey_def encodeStateID_cell\<close>)
  have K: "cellKeys ?sk ids ?us = cellKeys ?sk ids keys" by (simp add: cellKeys_def us(1))
  obtain cl1 v where get: "apiGetMany api cl opID (map (\<lambda>st. (st, map (?sk st) ?us)) ids) (map ?bk ?us)
        = Inr (cl1, map (\<lambda>st. (st, map (\<lambda>u. v (?sk st u)) ?us)) ids)"
    "\<forall>st \<in> set ids. \<forall>u \<in> set ?us. nilToEmpty (v (?sk st u)) = content cl (?sk st u)" "content cl1 = content cl"
    "held cl1 (cellKeys ?sk ids ?us)" "\<forall>k. removable cl k \<longrightarrow> removable cl1 k"
    using fetch_values[OF cs c(5) us(2), of cl] r unfolding K by blast
  obtain cs1 where refresh: "refreshCaches (SetSimpleStateCache (dedup keys)) (map (\<lambda>st. (st, map (\<lambda>u. v (?sk st u)) ?us)) ids) (sc_cache sc) = Some (Inr cs1)"
    "holding simpleEnt b ids ?us ?v0 (sc\<lparr>dedupedKeys := dedup keys, serializedKeys := map (\<lambda>st. (st, map (simpleKey mu kk sc st) (dedup keys))) ids, sc_bucketIDs := map (\<lambda>k. int (bucketFor sc (fieldBytes mu kk k))) (dedup keys)\<rparr>\<lparr>sc_cache := cs1\<rparr>)"
  proof (atomize_elim, rule refresh_holding[OF c(2) reg])
    fix st d assume st: "st \<in> set ids" and "map_of (sc_cache sc) st = Some d"
    then obtain d' where d: "d = SimpleCache d'" "s_base d' = b st" using cache by (cases d) auto
    obtain cd where cd: "cacheCodec (b st) = Some cd" "codecOk cd (P st) (tb st)" using c(3) st unfolding typed_def by blast
    have "deserializeValue (s_base d') (v (?sk st u)) = Some (Inr (?v0 st u))" if u: "u \<in> set ?us" for u
    proof -
      have "(case v (?sk st u) of None \<Rightarrow> [] | Some bs \<Rightarrow> bs) = listBytes (tb st) (A st u)"
        using get(2) con st u us(1) by (simp add: nilToEmpty_def)
      from deserializeValue_ok[OF cd _ this] show ?thesis using sto st u us(1) d(2) by simp
    qed
    from simple_cache_filled[where c = d' and v = "\<lambda>u. v (?sk st u)", OF this]
    show "\<exists>c'. (SetSimpleStateCache (dedup keys)) (map (\<lambda>u. v (?sk st u)) ?us) d = Some (Inr c') \<and> cacheBase c' = b st \<and> (\<forall>u \<in> set ?us. simpleEnt u c' = Some (?v0 st u))"
      using d by (auto simp: simpleEnt_def simpleEntry_def)
  qed
  have "FetchSimpleState api sc cl keys ids = Some (Inr (sc\<lparr>dedupedKeys := dedup keys, serializedKeys := map (\<lambda>st. (st, map (simpleKey mu kk sc st) (dedup keys))) ids, sc_bucketIDs := map (\<lambda>k. int (bucketFor sc (fieldBytes mu kk k))) (dedup keys)\<rparr>\<lparr>sc_cache := cs1\<rparr>, cl1,
      sum_list (map (\<lambda>(_, vs). length vs) (map (\<lambda>st. (st, map (\<lambda>u. v (?sk st u)) ?us)) ids))))"
    unfolding FetchSimpleState_def using ty c(6) validate_ok[OF c(5) reg] ser get(1) refresh(1) op by (simp add: Let_def)
  then show ?thesis using refresh(2) get(3-5) by blast
qed

lemma fetch_window:
  assumes bt: "batch (\<lambda>c. \<not> isSimple c) mu kk b P tb sc ids keys A script" and ty: "stateClientType sc = WindowStateClient"
    and key: "\<forall>u \<in> set keys. hasKind kk (fst u) \<and> inKind KindInt64 (snd u)" and op: "opID = sc_operatorID sc"
    and cs: "cells (windowKey mu kk sc) (\<lambda>u. int (bucketFor sc (fieldBytes mu kk (fst u)))) bucketOf ids (dedup keys)" and r: "ready cl (cellKeys (windowKey mu kk sc) ids keys)"
    and con: "\<forall>st \<in> set ids. \<forall>u \<in> set keys. content cl (windowKey mu kk sc st u) = listBytes (tb st) (A st u)"
  shows "\<exists>cs cl1 n. FetchWindowState mu api sc cl (map fst keys) (map snd keys) ids
      = Some (Inr (sc\<lparr>dedupedKeys := map fst (dedup keys), dedupedWindowStartTimes := map snd (dedup keys), serializedKeys := map (\<lambda>st. (st, map (windowKey mu kk sc st) (dedup keys))) ids, sc_bucketIDs := map (\<lambda>u. int (bucketFor sc (fieldBytes mu kk (fst u)))) (dedup keys)\<rparr>\<lparr>sc_cache := cs\<rparr>, cl1, n))
    \<and> holding windowEnt b ids (dedup keys) (\<lambda>st u. fetched (cacheKind (b st)) (A st u)) (sc\<lparr>dedupedKeys := map fst (dedup keys), dedupedWindowStartTimes := map snd (dedup keys), serializedKeys := map (\<lambda>st. (st, map (windowKey mu kk sc st) (dedup keys))) ids, sc_bucketIDs := map (\<lambda>u. int (bucketFor sc (fieldBytes mu kk (fst u)))) (dedup keys)\<rparr>\<lparr>sc_cache := cs\<rparr>)
    \<and> content cl1 = content cl \<and> held cl1 (cellKeys (windowKey mu kk sc) ids (dedup keys)) \<and> (\<forall>k. removable cl k \<longrightarrow> removable cl1 k)"
proof -
  let ?us = "dedup keys" and ?sk = "windowKey mu kk sc" and ?bk = "(\<lambda>u. int (bucketFor sc (fieldBytes mu kk (fst u))))"
  let ?v0 = "\<lambda>st u. fetched (cacheKind (b st)) (A st u)"
  have c: "clientOk mu kk sc" "distinct (map fst (sc_cache sc))" "typed b P tb ids" "distinct ids" "ids \<noteq> []" "keys \<noteq> []"
    and cache: "\<forall>st \<in> set ids. \<exists>c. map_of (sc_cache sc) st = Some c \<and> \<not> isSimple c \<and> cacheBase c = b st"
    and sto: "\<forall>st \<in> set ids. \<forall>u \<in> set keys. stored (cacheKind (b st)) (P st) (A st u)"
    using bt unfolding batch_def by blast+
  have us: "set ?us = set keys" "?us \<noteq> []" using dedup_ok[of keys] c(6) by auto
  have reg: "\<forall>st \<in> set ids. map_of (sc_cache sc) st \<noteq> None" using cache by auto
  have ser: "serializeAll (\<lambda>(key, t). encodeWindowKey mu sc key t) ids ?us = Inr (map (\<lambda>st. (st, map (?sk st) ?us)) ids, map ?bk ?us)"
    by (rule serializeAll_eq[OF _ _ c(4, 5)])
      (use key us(1) encodeWindowKey_eq[OF c(1)] in \<open>auto simp: windowKey_def encodeStateID_cell\<close>)
  have K: "cellKeys ?sk ids ?us = cellKeys ?sk ids keys" by (simp add: cellKeys_def us(1))
  obtain cl1 v where get: "apiGetMany api cl opID (map (\<lambda>st. (st, map (?sk st) ?us)) ids) (map ?bk ?us)
        = Inr (cl1, map (\<lambda>st. (st, map (\<lambda>u. v (?sk st u)) ?us)) ids)"
    "\<forall>st \<in> set ids. \<forall>u \<in> set ?us. nilToEmpty (v (?sk st u)) = content cl (?sk st u)" "content cl1 = content cl"
    "held cl1 (cellKeys ?sk ids ?us)" "\<forall>k. removable cl k \<longrightarrow> removable cl1 k"
    using fetch_values[OF cs c(5) us(2), of cl] r unfolding K by blast
  obtain cs1 where refresh: "refreshCaches (SetWindowStateCache (map fst (dedup keys)) (map snd (dedup keys))) (map (\<lambda>st. (st, map (\<lambda>u. v (?sk st u)) ?us)) ids) (sc_cache sc) = Some (Inr cs1)"
    "holding windowEnt b ids ?us ?v0 (sc\<lparr>dedupedKeys := map fst (dedup keys), dedupedWindowStartTimes := map snd (dedup keys), serializedKeys := map (\<lambda>st. (st, map (windowKey mu kk sc st) (dedup keys))) ids, sc_bucketIDs := map (\<lambda>u. int (bucketFor sc (fieldBytes mu kk (fst u)))) (dedup keys)\<rparr>\<lparr>sc_cache := cs1\<rparr>)"
  proof (atomize_elim, rule refresh_holding[OF c(2) reg])
    fix st d assume st: "st \<in> set ids" and "map_of (sc_cache sc) st = Some d"
    then obtain d' where d: "d = WindowCache d'" "w_base d' = b st" using cache by (cases d) auto
    obtain cd where cd: "cacheCodec (b st) = Some cd" "codecOk cd (P st) (tb st)" using c(3) st unfolding typed_def by blast
    have "deserializeValue (w_base d') (v (?sk st u)) = Some (Inr (?v0 st u))" if u: "u \<in> set ?us" for u
    proof -
      have "(case v (?sk st u) of None \<Rightarrow> [] | Some bs \<Rightarrow> bs) = listBytes (tb st) (A st u)"
        using get(2) con st u us(1) by (simp add: nilToEmpty_def)
      from deserializeValue_ok[OF cd _ this] show ?thesis using sto st u us(1) d(2) by simp
    qed
    then obtain m where m: "SetWindowStateCache (map fst ?us) (map snd ?us) (map (\<lambda>u. v (?sk st u)) ?us) d = Some (Inr (WindowCache (d'\<lparr>w_cache := Some m\<rparr>)))"
      "\<forall>u \<in> set ?us. windowAt m u = Some (?v0 st u)"
      using window_cache_filled[of ?us d' "\<lambda>u. v (?sk st u)" "?v0 st"] d(1) by blast
    then show "\<exists>c'. SetWindowStateCache (map fst ?us) (map snd ?us) (map (\<lambda>u. v (?sk st u)) ?us) d = Some (Inr c')
        \<and> cacheBase c' = b st \<and> (\<forall>u \<in> set ?us. windowEnt u c' = Some (?v0 st u))"
      using d(2) by (intro exI[of _ "WindowCache (d'\<lparr>w_cache := Some m\<rparr>)"]) (simp add: windowEnt_def windowEntry_at)
  qed
  have "FetchWindowState mu api sc cl (map fst keys) (map snd keys) ids = Some (Inr (sc\<lparr>dedupedKeys := map fst (dedup keys), dedupedWindowStartTimes := map snd (dedup keys), serializedKeys := map (\<lambda>st. (st, map (windowKey mu kk sc st) (dedup keys))) ids, sc_bucketIDs := map (\<lambda>u. int (bucketFor sc (fieldBytes mu kk (fst u)))) (dedup keys)\<rparr>\<lparr>sc_cache := cs1\<rparr>, cl1,
      sum_list (map (\<lambda>(_, vs). length vs) (map (\<lambda>st. (st, map (\<lambda>u. v (?sk st u)) ?us)) ids))))"
    unfolding FetchWindowState_def using ty c(6) validate_ok[OF c(5) reg] ser get(1) refresh(1) op by (simp add: Let_def zip_map_fst_snd)
  then show ?thesis using refresh(2) get(3-5) by blast
qed

lemma simple_batch:
  assumes bt: "batch isSimple mu kk b P tb sc ids keys A script" and ty: "stateClientType sc = SimpleStateClient"
    and key: "\<forall>k \<in> set keys. hasKind kk k" and op: "opID = sc_operatorID sc" and bo: "bucketOf = bucketOfKey"
    and ord: "range_order ord" and r: "ready cl (cellKeys (simpleKey mu kk sc) ids keys)"
    and con: "\<forall>st \<in> set ids. \<forall>u \<in> set keys. content cl (simpleKey mu kk sc st u) = listBytes (tb st) (A st u)
        \<and> (ClearS \<in> set (cellOps script st u) \<and> foldl absOp (A st u) (cellOps script st u) \<noteq> [] \<longrightarrow> removable cl (simpleKey mu kk sc st u))"
  shows "\<exists>sc1 cl1 n sc2 cl2 m. FetchSimpleState api sc cl keys ids = Some (Inr (sc1, cl1, n))
    \<and> (\<forall>st \<in> set ids. \<forall>u \<in> set keys. GetSimpleState sc1 st u = Inr (fetched (cacheKind (b st)) (A st u)))
    \<and> rfold (\<lambda>sc x. useSimple x sc) sc1 script = Inr sc2 \<and> FlushSimpleState ord api sc2 cl1 = Inr (cl2, m)
    \<and> (\<forall>st \<in> set ids. \<forall>u \<in> set keys. content cl2 (simpleKey mu kk sc st u) = listBytes (tb st) (opsResult (cellOps script st u) (A st u)))
    \<and> (\<forall>k. k \<notin> cellKeys (simpleKey mu kk sc) ids keys \<longrightarrow> content cl2 k = content cl k)"
proof -
  let ?us = "dedup keys" and ?sk = "simpleKey mu kk sc" and ?bk = "(\<lambda>k. int (bucketFor sc (fieldBytes mu kk k)))"
  let ?v0 = "\<lambda>st u. fetched (cacheKind (b st)) (A st u)"
  have c: "clientOk mu kk sc" "typed b P tb ids" "distinct ids" "keys \<noteq> []"
    and scr: "\<forall>(st, u, op) \<in> set script. st \<in> set ids \<and> u \<in> set ?us"
    and sto: "\<forall>st \<in> set ids. \<forall>u \<in> set keys. stored (cacheKind (b st)) (P st) (A st u)"
    using bt unfolding batch_def dedup_ok(2) by blast+
  have us: "set ?us = set keys" "distinct ?us" "?us \<noteq> []" using dedup_ok[of keys] c(4) by auto
  have cs: "cells ?sk ?bk bucketOf ids ?us" unfolding bo by (rule simple_cells[OF c(1) _ us(2) c(3)]) (use key us(1) in simp)
  have K: "cellKeys ?sk ids ?us = cellKeys ?sk ids keys" by (simp add: cellKeys_def us(1))
  let ?sc = "sc\<lparr>dedupedKeys := dedup keys, serializedKeys := map (\<lambda>st. (st, map (simpleKey mu kk sc st) (dedup keys))) ids, sc_bucketIDs := map (\<lambda>k. int (bucketFor sc (fieldBytes mu kk k))) (dedup keys)\<rparr>"
  obtain cs1 cl1 n where f: "FetchSimpleState api sc cl keys ids = Some (Inr (?sc\<lparr>sc_cache := cs1\<rparr>, cl1, n))"
    "holding simpleEnt b ids ?us ?v0 (?sc\<lparr>sc_cache := cs1\<rparr>)" "content cl1 = content cl" "held cl1 (cellKeys ?sk ids ?us)"
    "\<forall>k. removable cl k \<longrightarrow> removable cl1 k"
    using fetch_simple[OF bt ty key op cs r] con by blast
  let ?sc1 = "?sc\<lparr>sc_cache := cs1\<rparr>"
  have read: "\<forall>st \<in> set ids. \<forall>u \<in> set keys. GetSimpleState ?sc1 st u = Inr (?v0 st u)" using holding_simple[OF f(2)] us(1) by blast
  obtain cs2 where use: "rfold (\<lambda>sc x. useSimple x sc) ?sc1 script = Inr (?sc1\<lparr>sc_cache := cs2\<rparr>)"
    "holding simpleEnt b ids ?us (\<lambda>st u. foldl (\<lambda>s op. applyOp op s) (?v0 st u) (cellOps script st u)) (?sc1\<lparr>sc_cache := cs2\<rparr>)"
    using run_script[where use = useSimple, OF useSimple_ok f(2) scr] by blast
  have "\<exists>cl2 m. rbind (gatherFlush (\<lambda>sks. GetSimpleStateFlushData ?us sks (map ?bk ?us)) (sc_cache (?sc1\<lparr>sc_cache := cs2\<rparr>))
        (ord (map (\<lambda>st. (st, map (?sk st) ?us)) ids))) (flushRequests api cl1) = Inr (cl2, m)
      \<and> (\<forall>st \<in> set ids. \<forall>u \<in> set ?us. content cl2 (?sk st u) = listBytes (tb st) (opsResult (cellOps script st u) (A st u)))
      \<and> (\<forall>k. k \<notin> cellKeys ?sk ids ?us \<longrightarrow> content cl2 k = content cl1 k) \<and> held cl2 (cellKeys ?sk ids ?us)"
  proof (rule flush_batch[OF cs ord f(4) c(2) use(2)])
    fix st d val act assume "cacheBase d = b st" "\<forall>u \<in> set ?us. simpleEnt u d = Some (val u) \<and> flushAction (b st) (val u) = Inr (act u)"
    then show "GetSimpleStateFlushData ?us (map (?sk st) ?us) (map ?bk ?us) d = Inr (actData (?sk st) ?bk act ?us)"
      by (rule simple_flush[OF us(3)])
  next
    show "\<forall>st \<in> set ids. \<forall>u \<in> set ?us. stored (cacheKind (b st)) (P st) (A st u)
        \<and> list_all (opOk (cacheKind (b st)) (P st)) (cellOps script st u) \<and> content cl1 (?sk st u) = listBytes (tb st) (A st u)
        \<and> (ClearS \<in> set (cellOps script st u) \<and> foldl absOp (A st u) (cellOps script st u) \<noteq> [] \<longrightarrow> removable cl1 (?sk st u))"
      using sto cellOps_ok[OF bt] con f(5) unfolding f(3) us(1) by blast
  qed
  then obtain cl2 m where "FlushSimpleState ord api (?sc1\<lparr>sc_cache := cs2\<rparr>) cl1 = Inr (cl2, m)"
    "\<forall>st \<in> set ids. \<forall>u \<in> set keys. content cl2 (?sk st u) = listBytes (tb st) (opsResult (cellOps script st u) (A st u))"
    "\<forall>k. k \<notin> cellKeys ?sk ids keys \<longrightarrow> content cl2 k = content cl k"
    unfolding us(1) K f(3) FlushSimpleState_def using ty by auto
  then show ?thesis using f(1) read use(1) by blast
qed

lemma window_batch:
  assumes bt: "batch (\<lambda>c. \<not> isSimple c) mu kk b P tb sc ids keys A script" and ty: "stateClientType sc = WindowStateClient"
    and key: "\<forall>u \<in> set keys. hasKind kk (fst u) \<and> inKind KindInt64 (snd u)" and op: "opID = sc_operatorID sc" and bo: "bucketOf = bucketOfKey"
    and ord: "range_order ord" and r: "ready cl (cellKeys (windowKey mu kk sc) ids keys)"
    and con: "\<forall>st \<in> set ids. \<forall>u \<in> set keys. content cl (windowKey mu kk sc st u) = listBytes (tb st) (A st u)
        \<and> (ClearS \<in> set (cellOps script st u) \<and> foldl absOp (A st u) (cellOps script st u) \<noteq> [] \<longrightarrow> removable cl (windowKey mu kk sc st u))"
  shows "\<exists>sc1 cl1 n sc2 cl2 m. FetchWindowState mu api sc cl (map fst keys) (map snd keys) ids = Some (Inr (sc1, cl1, n))
    \<and> (\<forall>st \<in> set ids. \<forall>u \<in> set keys. GetWindowState sc1 st (fst u) (snd u) = Inr (fetched (cacheKind (b st)) (A st u)))
    \<and> rfold (\<lambda>sc x. useWindow x sc) sc1 script = Inr sc2 \<and> FlushWindowState ord api sc2 cl1 = Inr (cl2, m)
    \<and> (\<forall>st \<in> set ids. \<forall>u \<in> set keys. content cl2 (windowKey mu kk sc st u) = listBytes (tb st) (opsResult (cellOps script st u) (A st u)))
    \<and> (\<forall>k. k \<notin> cellKeys (windowKey mu kk sc) ids keys \<longrightarrow> content cl2 k = content cl k)"
proof -
  let ?us = "dedup keys" and ?sk = "windowKey mu kk sc" and ?bk = "(\<lambda>u. int (bucketFor sc (fieldBytes mu kk (fst u))))"
  let ?v0 = "\<lambda>st u. fetched (cacheKind (b st)) (A st u)"
  have c: "clientOk mu kk sc" "typed b P tb ids" "distinct ids" "keys \<noteq> []"
    and scr: "\<forall>(st, u, op) \<in> set script. st \<in> set ids \<and> u \<in> set ?us"
    and sto: "\<forall>st \<in> set ids. \<forall>u \<in> set keys. stored (cacheKind (b st)) (P st) (A st u)"
    using bt unfolding batch_def dedup_ok(2) by blast+
  have us: "set ?us = set keys" "distinct ?us" "?us \<noteq> []" using dedup_ok[of keys] c(4) by auto
  have cs: "cells ?sk ?bk bucketOf ids ?us" unfolding bo by (rule window_cells[OF c(1) _ us(2) c(3)]) (use key us(1) in auto)
  have K: "cellKeys ?sk ids ?us = cellKeys ?sk ids keys" by (simp add: cellKeys_def us(1))
  let ?sc = "sc\<lparr>dedupedKeys := map fst (dedup keys), dedupedWindowStartTimes := map snd (dedup keys), serializedKeys := map (\<lambda>st. (st, map (windowKey mu kk sc st) (dedup keys))) ids, sc_bucketIDs := map (\<lambda>u. int (bucketFor sc (fieldBytes mu kk (fst u)))) (dedup keys)\<rparr>"
  obtain cs1 cl1 n where f: "FetchWindowState mu api sc cl (map fst keys) (map snd keys) ids = Some (Inr (?sc\<lparr>sc_cache := cs1\<rparr>, cl1, n))"
    "holding windowEnt b ids ?us ?v0 (?sc\<lparr>sc_cache := cs1\<rparr>)" "content cl1 = content cl" "held cl1 (cellKeys ?sk ids ?us)"
    "\<forall>k. removable cl k \<longrightarrow> removable cl1 k"
    using fetch_window[OF bt ty key op cs r] con by blast
  let ?sc1 = "?sc\<lparr>sc_cache := cs1\<rparr>"
  have read: "\<forall>st \<in> set ids. \<forall>u \<in> set keys. GetWindowState ?sc1 st (fst u) (snd u) = Inr (?v0 st u)" using holding_window[OF f(2)] us(1) by blast
  obtain cs2 where use: "rfold (\<lambda>sc x. useWindow x sc) ?sc1 script = Inr (?sc1\<lparr>sc_cache := cs2\<rparr>)"
    "holding windowEnt b ids ?us (\<lambda>st u. foldl (\<lambda>s op. applyOp op s) (?v0 st u) (cellOps script st u)) (?sc1\<lparr>sc_cache := cs2\<rparr>)"
    using run_script[where use = useWindow, OF useWindow_ok f(2) scr] by blast
  have "\<exists>cl2 m. rbind (gatherFlush (\<lambda>sks. GetWindowStateFlushData (map fst ?us) (map snd ?us) sks (map ?bk ?us)) (sc_cache (?sc1\<lparr>sc_cache := cs2\<rparr>))
        (ord (map (\<lambda>st. (st, map (?sk st) ?us)) ids))) (flushRequests api cl1) = Inr (cl2, m)
      \<and> (\<forall>st \<in> set ids. \<forall>u \<in> set ?us. content cl2 (?sk st u) = listBytes (tb st) (opsResult (cellOps script st u) (A st u)))
      \<and> (\<forall>k. k \<notin> cellKeys ?sk ids ?us \<longrightarrow> content cl2 k = content cl1 k) \<and> held cl2 (cellKeys ?sk ids ?us)"
  proof (rule flush_batch[OF cs ord f(4) c(2) use(2)])
    fix st d val act assume "cacheBase d = b st" "\<forall>u \<in> set ?us. windowEnt u d = Some (val u) \<and> flushAction (b st) (val u) = Inr (act u)"
    then show "GetWindowStateFlushData (map fst ?us) (map snd ?us) (map (?sk st) ?us) (map ?bk ?us) d = Inr (actData (?sk st) ?bk act ?us)"
      by (rule window_flush[OF us(3)])
  next
    show "\<forall>st \<in> set ids. \<forall>u \<in> set ?us. stored (cacheKind (b st)) (P st) (A st u)
        \<and> list_all (opOk (cacheKind (b st)) (P st)) (cellOps script st u) \<and> content cl1 (?sk st u) = listBytes (tb st) (A st u)
        \<and> (ClearS \<in> set (cellOps script st u) \<and> foldl absOp (A st u) (cellOps script st u) \<noteq> [] \<longrightarrow> removable cl1 (?sk st u))"
      using sto cellOps_ok[OF bt] con f(5) unfolding f(3) us(1) by blast
  qed
  then obtain cl2 m where "FlushWindowState ord api (?sc1\<lparr>sc_cache := cs2\<rparr>) cl1 = Inr (cl2, m)"
    "\<forall>st \<in> set ids. \<forall>u \<in> set keys. content cl2 (?sk st u) = listBytes (tb st) (opsResult (cellOps script st u) (A st u))"
    "\<forall>k. k \<notin> cellKeys ?sk ids keys \<longrightarrow> content cl2 k = content cl k"
    unfolding us(1) K f(3) FlushWindowState_def using ty by auto
  then show ?thesis using f(1) read use(1) by blast
qed

end

end
