(* ===== verification/Client_Setup.thy ===== *)
theory Client_Setup
  imports Client_End
begin

text \<open>
  Setting up a state client gives what a batch needs: a key codec, and for every registered state the codec of its tuples.
\<close>

lemma cache_Setup_ok:
  assumes "mus_ok mu" "list_all SupportedKind kinds"
  shows "\<exists>c' cd. cache_Setup mu kinds inc c = Inr c' \<and> isSimple c' = isSimple c
    \<and> cacheBase c' = (cacheBase c)\<lparr>cacheCodec := Some cd, allowIncrementalSerialization := inc\<rparr>
    \<and> codecOk cd (tuple_ok kinds) (tupleBytes mu kinds)"
proof -
  obtain cd where "GetTupleCodec mu kinds = Inr cd" "codecOk cd (tuple_ok kinds) (tupleBytes mu kinds)"
    using GetTupleCodec_ok[OF assms] by blast
  then show ?thesis by (cases c) (auto simp: setupBase_def)
qed

lemma setup_caches:
  assumes "\<And>st c. (st, c) \<in> set cs \<Longrightarrow> \<exists>c'. f st c = Inr c' \<and> Q st c c'"
  shows "\<exists>cs'. rfold (\<lambda>acc (st, c). rbind (f st c) (\<lambda>c. Inr (acc @ [(st, c)]))) acc cs = Inr (acc @ cs') \<and> map fst cs' = map fst cs
    \<and> (\<forall>st c. map_of cs st = Some c \<longrightarrow> (\<exists>c'. map_of cs' st = Some c' \<and> Q st c c'))"
  using assms
proof (induction cs arbitrary: acc)
  case (Cons x cs)
  obtain st c where x: "x = (st, c)" by (cases x)
  obtain c' where c': "f st c = Inr c'" "Q st c c'" using Cons.prems x by fastforce
  obtain cs' where "rfold (\<lambda>acc (st, c). rbind (f st c) (\<lambda>c. Inr (acc @ [(st, c)]))) (acc @ [(st, c')]) cs = Inr ((acc @ [(st, c')]) @ cs')"
    "map fst cs' = map fst cs" "\<forall>st c. map_of cs st = Some c \<longrightarrow> (\<exists>c'. map_of cs' st = Some c' \<and> Q st c c')"
    using Cons.IH[of "acc @ [(st, c')]"] Cons.prems by auto
  then show ?case using c' x by (intro exI[of _ "(st, c') # cs'"]) auto
qed simp

lemma setup_ok:
  assumes mu: "mus_ok mu" and kk: "SupportedKind kk" and n: "0 < cfgNumBuckets cfg" "cfgNumBuckets cfg \<le> 2 ^ 32"
    and cs: "sc_cache sc \<noteq> []" and tk: "\<And>st. list_all SupportedKind (tk st)"
  shows "\<exists>sc'. sc_Setup mu kk tk opid cfg sc = Inr sc' \<and> clientOk mu kk sc' \<and> map fst (sc_cache sc') = map fst (sc_cache sc)
    \<and> stateClientType sc' = stateClientType sc \<and> sc_operatorID sc' = opid
    \<and> (\<forall>st c. map_of (sc_cache sc) st = Some c \<longrightarrow> (\<exists>c' cd. map_of (sc_cache sc') st = Some c' \<and> isSimple c' = isSimple c
         \<and> cacheBase c' = (cacheBase c)\<lparr>cacheCodec := Some cd, allowIncrementalSerialization :=
              StateBackendType cfg \<noteq> ''tikv'' \<and> StateBackendType cfg \<noteq> ''memory'' \<and> StateBackendType cfg \<noteq> ''remote-pebble''\<rparr>
         \<and> codecOk cd (tuple_ok (tk st)) (tupleBytes mu (tk st))))"
proof -
  let ?inc = "StateBackendType cfg \<noteq> ''tikv'' \<and> StateBackendType cfg \<noteq> ''memory'' \<and> StateBackendType cfg \<noteq> ''remote-pebble''"
  let ?Q = "\<lambda>st c c'. \<exists>cd. isSimple c' = isSimple c
      \<and> cacheBase c' = (cacheBase c)\<lparr>cacheCodec := Some cd, allowIncrementalSerialization := ?inc\<rparr>
      \<and> codecOk cd (tuple_ok (tk st)) (tupleBytes mu (tk st))"
  obtain cs' where cs': "rfold (\<lambda>acc (st, c). rbind (cache_Setup mu (tk st) ?inc c) (\<lambda>c. Inr (acc @ [(st, c)]))) [] (sc_cache sc) = Inr cs'"
    "map fst cs' = map fst (sc_cache sc)" "\<forall>st c. map_of (sc_cache sc) st = Some c \<longrightarrow> (\<exists>c'. map_of cs' st = Some c' \<and> ?Q st c c')"
    using setup_caches[of "sc_cache sc" "\<lambda>st c. cache_Setup mu (tk st) ?inc c" ?Q "[]"] cache_Setup_ok[OF mu tk, of _ ?inc] by auto
  let ?sc = "sc\<lparr>sc_operatorID := opid, keyHashFunc := cfgHash cfg, sc_numBuckets := cfgNumBuckets cfg,
      keyEncoder := EncodeFuncFromKind mu kk, keySizer := TupleSizeFuncFromKind mu kk, sc_cache := cs'\<rparr>"
  have "sc_Setup mu kk tk opid cfg sc = Inr ?sc" using kk cs cs'(1) by (simp add: sc_Setup_def Let_def)
  moreover have "clientOk mu kk ?sc" using mu kk n by (simp add: clientOk_def)
  ultimately show ?thesis using cs'(2, 3) by (intro exI[of _ ?sc]) simp
qed

end
