(* ===== verification/By_Key.thy ===== *)
theory By_Key
  imports No_Migration
begin

text \<open>
  The protocol \<open>by-key\<close>: every key of a bucket a worker owns is located by the worker's key map, on
  this worker or on the one that has not yet handed it over; a read brings the keys it needs to the
  worker. Seen through the key map, the services behave as one key-value map again.
\<close>

section \<open>The table, key by key\<close>

definition inMap :: "KeyLookupTableV2 \<Rightarrow> int \<Rightarrow> skey \<Rightarrow> bool" where
  "inMap t b k \<longleftrightarrow> tracked t b \<and> map_of (the (KeyMap (k2_Buckets t ! nat b))) k \<noteq> None"

lemma tracked_bucketMap:
  "tracked t b \<Longrightarrow> bucketMap t b msg = Inr (k2_Buckets t ! nat b, the (KeyMap (k2_Buckets t ! nat b)))"
  by (auto simp: tracked_def bucketMap_Inr)

lemma Insert_ok: "tracked t b \<Longrightarrow> \<exists>t'. InsertOrUpdateKey t k b w = Inr t'"
  by (simp add: InsertOrUpdateKey_def tracked_bucketMap)

lemma Update_ok: "inMap t b k \<Longrightarrow> \<exists>t'. UpdateKey t k b w = Inr t'"
  by (auto simp: UpdateKey_def tracked_bucketMap inMap_def fatal_if_def)

lemma Remove_ok: "inMap t b k \<Longrightarrow> \<exists>t'. RemoveKey t k b = Inr t'"
  by (auto simp: RemoveKey_def tracked_bucketMap inMap_def fatal_if_def)

lemma Remove_fails: "tracked t b \<Longrightarrow> \<not> inMap t b k \<Longrightarrow>
    RemoveKey t k b = Inl (Fatal ''Key not found in key map for removing key'')"
  by (simp add: RemoveKey_def tracked_bucketMap inMap_def)

lemma inMap_setKeyMap:
  assumes "tracked t b"
  shows "inMap (setKeyMap t b (k2_Buckets t ! nat b) m') b' k \<longleftrightarrow> (if b' = b then map_of m' k \<noteq> None else inMap t b' k)"
  using assms by (cases "b' < 0")
    (auto simp: inMap_def tracked_def setKeyMap_def nth_list_update eq_nat_nat_iff)

lemma inMap_Insert: "InsertOrUpdateKey t k b w = Inr t' \<Longrightarrow> inMap t b' k' \<Longrightarrow> inMap t' b' k'"
proof -
  assume a: "InsertOrUpdateKey t k b w = Inr t'" "inMap t b' k'"
  obtain bk m where m: "bucketMap t b ''Key map nil for inserting/updating key'' = Inr (bk, m)"
    "t' = setKeyMap t b bk (AList.update k w m)" using a(1) by (auto simp: InsertOrUpdateKey_def rbind_eq_Inr)
  then have t: "tracked t b" "bk = k2_Buckets t ! nat b" "the (KeyMap bk) = m" by (auto simp: bucketMap_Inr tracked_def)
  show ?thesis unfolding m(2) t(2) inMap_setKeyMap[OF t(1)] using a(2) t(2, 3) by (auto simp: inMap_def)
qed

lemma inMap_Remove: "RemoveKey t k b = Inr t' \<Longrightarrow> inMap t b' k' \<Longrightarrow> k' \<noteq> k \<Longrightarrow> inMap t' b' k'"
proof -
  assume a: "RemoveKey t k b = Inr t'" "inMap t b' k'" "k' \<noteq> k"
  obtain bk m where m: "bucketMap t b ''Key map nil for removing key'' = Inr (bk, m)"
    "t' = setKeyMap t b bk (AList.delete k m)" using a(1) by (auto simp: RemoveKey_def rbind_eq_Inr)
  then have t: "tracked t b" "bk = k2_Buckets t ! nat b" "the (KeyMap bk) = m" by (auto simp: bucketMap_Inr tracked_def)
  show ?thesis unfolding m(2) t(2) inMap_setKeyMap[OF t(1)] using a(2, 3) t(2, 3) by (auto simp: inMap_def)
qed

lemma localMaps_owner: "localMaps w t \<Longrightarrow> tracked t b \<Longrightarrow> WorkerID (k2_Buckets t ! nat b) = w"
  by (auto simp: localMaps_def tracked_def list_all_length localBucket_def)

lemma GetWorkerID_tracked: "tracked t b \<Longrightarrow> \<exists>w. GetWorkerID t k b = Inr w"
  by (simp add: GetWorkerID_def tracked_bucketMap)

lemma remote_inMap: "localMaps me t \<Longrightarrow> tracked t b \<Longrightarrow> GetWorkerID t k b = Inr w \<Longrightarrow> w \<noteq> me \<Longrightarrow> inMap t b k"
  using localMaps_owner by (fastforce simp: GetWorkerID_def tracked_bucketMap inMap_def split: option.splits)

text \<open>Loops that say of some keys that they are on \<open>me\<close>.\<close>

definition movedTo :: "u16 \<Rightarrow> (skey \<Rightarrow> int) \<Rightarrow> KeyLookupTableV2 \<Rightarrow> skey set \<Rightarrow> KeyLookupTableV2 \<Rightarrow> bool" where
  "movedTo me bucketOf t0 D t \<longleftrightarrow> localMaps me t
     \<and> (\<forall>b. tracked t b = tracked t0 b) \<and> (\<forall>b k. inMap t0 b k \<longrightarrow> inMap t b k)
     \<and> (\<forall>b k. GetWorkerID t k b = (if k \<in> D \<and> b = bucketOf k then Inr me else GetWorkerID t0 k b))"

lemma movedTo_refl: "localMaps me t \<Longrightarrow> movedTo me bucketOf t {} t"
  by (simp add: movedTo_def)

lemma movedTo_Insert:
  assumes "movedTo me bucketOf t0 D t" "tracked t0 (bucketOf k)"
  shows "\<exists>t'. InsertOrUpdateKey t k (bucketOf k) me = Inr t' \<and> movedTo me bucketOf t0 (D \<union> {k}) t'"
proof -
  obtain t' where t': "InsertOrUpdateKey t k (bucketOf k) me = Inr t'"
    using Insert_ok assms by (metis movedTo_def)
  then show ?thesis
    using assms GetWorkerID_Insert[OF t'] tracked_Insert[OF t'] inMap_Insert[OF t'] localMaps_Insert[OF t']
    by (auto simp: movedTo_def)
qed

lemma movedTo_Update:
  assumes "movedTo me bucketOf t0 D t" "inMap t0 (bucketOf k) k"
  shows "\<exists>t'. UpdateKey t k (bucketOf k) me = Inr t' \<and> movedTo me bucketOf t0 (D \<union> {k}) t'"
proof -
  obtain t' where "UpdateKey t k (bucketOf k) me = Inr t'"
    using Update_ok assms by (metis movedTo_def)
  moreover have "tracked t0 (bucketOf k)" using assms(2) by (simp add: inMap_def)
  ultimately show ?thesis using movedTo_Insert[OF assms(1)] UpdateKey_Insert by fastforce
qed



section \<open>Reading with migration\<close>

text \<open>A request a worker can serve: it owns the buckets of the keys, their key maps say where the keys
  are (\<open>loc\<close>), and it is connected to these workers.\<close>

definition located :: "cluster \<Rightarrow> u16 \<Rightarrow> (skey \<Rightarrow> u16) \<Rightarrow> (skey \<Rightarrow> int) \<Rightarrow> keysPerState \<Rightarrow> StateService \<Rightarrow> bool" where
  "located cl me loc bucketOf keys s \<longleftrightarrow> cl me = Some s \<and> svcWorkerID s = me \<and> localMaps me (StateLookupTableV2 s)
     \<and> distinct (map fst keys) \<and> distinct (concat (map snd keys))
     \<and> (\<forall>k \<in> requested keys. tracked (StateLookupTableV2 s) (bucketOf k)
          \<and> GetWorkerID (StateLookupTableV2 s) k (bucketOf k) = Inr (loc k) \<and> cl (loc k) \<noteq> None)"

lemma fetchFrom_eq:
  assumes "distinct (map fst wk)" "cl w \<noteq> None"
  shows "fetchFrom cl me w wk = Inr (map (\<lambda>(st, ks). (st, map (seenFrom me cl w) ks)) wk)"
proof (cases "w = me")
  case True
  then show ?thesis using assms readLocalState_eq[OF assms(1)]
    by (auto simp: fetchFrom_def peer_def seenFrom_def valueAt_def)
next
  case False
  obtain r where r: "cl w = Some r" using assms(2) by auto
  let ?m = "map (\<lambda>(st, ks). (st, map (seenFrom me cl w) ks)) wk"
  have "RemoteByKeyMigration r wk = Inr ([] @ map (\<lambda>(st, ks). (st, map (seenFrom me cl w) ks)) wk)"
    unfolding RemoteByKeyMigration_def
    by (rule rfold_snoc) (auto simp: mem.get_law overWire_def seenFrom_def valueAt_def r False split: prod.splits)
  moreover have "map fst ?m = map fst wk" by (induction wk) auto
  then have "foldl (\<lambda>res (k, v). AList.update k v res) [] ?m = ?m"
    using foldl_updates[of "[]" ?m] assms(1) by (simp only: append_Nil)
  ultimately show ?thesis by (simp add: fetchFrom_def fetchStateByRpc_def False peer_def r)
qed

lemma stateReqs_requested: "r \<in> set (stateReqs keys) \<Longrightarrow> reqKey r \<in> requested keys"
  using req_keys by blast

lemma byKey_groups:
  assumes loc: "located cl me loc bucketOf keys s" and bs: "\<forall>(st, ks) \<in> set keys. map bucketOf ks = bs"
  shows "\<exists>G T. groupKeysByWorker (StateLookupTableV2 s) keys bs = Inr (G, T)
    \<and> grouped G (stateReqs keys) (\<lambda>r. loc (reqKey r)) reqState reqKey
    \<and> grouped T (stateReqs keys) (\<lambda>r. loc (reqKey r)) reqState fst
    \<and> fst ` set G = (\<lambda>r. loc (reqKey r)) ` set (stateReqs keys)"
proof -
  have step: "(\<lambda>(i, st, k). byKeyStep (StateLookupTableV2 s) bs st (A, B) (i, k)) q
    = Inr (push2 A (loc (reqKey q)) (reqState q) (reqKey q), push2 B (loc (reqKey q)) (reqState q) (fst q))"
    if q: "q \<in> set (stateReqs keys)" for A B q
  proof -
    obtain i st k where q': "q = (i, st, k)" by (cases q)
    then obtain ks where ks: "(st, ks) \<in> set keys" "i < length ks" "k = ks ! i" using q by (auto simp: stateReqs_iff)
    then have "bs = map bucketOf ks" using bs by auto
    then have "at_idx bs i = Inr (bucketOf k)" using ks by (simp add: slice_simps)
    moreover have "GetWorkerID (StateLookupTableV2 s) k (bucketOf k) = Inr (loc k)"
      using loc stateReqs_requested[OF q] by (simp add: located_def q' reqKey_def)
    ultimately show ?thesis by (simp add: byKeyStep_def q' reqKey_def reqState_def)
  qed
  show ?thesis
    using group_fold2[where rs = "stateReqs keys" and W = "\<lambda>r. loc (reqKey r)" and S = reqState and X = reqKey and Y = fst,
        OF step grouped_empty grouped_empty]
    by (simp add: groupKeysByWorker_def rfold_stateReqs)
qed


text \<open>Gathering the fetched values.\<close>

lemma byKey_gather:
  assumes d: "distinct (map fst keys)"
    and G: "grouped G (stateReqs keys) (\<lambda>r. loc (reqKey r)) reqState reqKey"
    and T: "grouped T (stateReqs keys) (\<lambda>r. loc (reqKey r)) reqState fst"
    and so: "set go = set G"
  shows "mergeResultsFromAllWorkersLazyByKey keys
      (map (\<lambda>(w, wk). (w, map (\<lambda>(st, ks). (st, map (v w) ks)) wk)) go) T
    = Inr (map (\<lambda>(st, ks). (st, map (\<lambda>k. v (loc k) k) ks)) keys)"
proof -
  define F where "F st i = v (loc (mslice keys st ! i)) (mslice keys st ! i)" for st i
  let ?res = "map (\<lambda>(w, wk). (w, map (\<lambda>(st, ks). (st, map (v w) ks)) wk)) go"
  let ?L = "\<lambda>w st. filter (\<lambda>r. loc (reqKey r) = w \<and> reqState r = st) (stateReqs keys)"
  have lookup: "mslice keys st = ks" if "(st, ks) \<in> set keys" for st ks
    using that d by (simp add: mslice_def)
  have req: "\<exists>ks. (reqState r, ks) \<in> set keys \<and> fst r < length ks \<and> reqKey r = ks ! fst r \<and> mslice keys (reqState r) = ks"
    if r: "r \<in> set (stateReqs keys)" for r
  proof -
    obtain i st k where q: "r = (i, st, k)" by (cases r)
    obtain ks where "(st, ks) \<in> set keys" "i < length ks" "k = ks ! i" using r unfolding q stateReqs_iff by blast
    then show ?thesis using lookup by (auto simp: q reqState_def reqKey_def)
  qed
  have idx: "mslice (inner T w) st = map fst (?L w st)" for w st by (rule grouped_mslice[OF T])
  have ok: "\<forall>g \<in> set ?res. groupOk keys F (\<lambda>w st. mslice (inner T w) st) g"
  proof
    fix g assume "g \<in> set ?res"
    then obtain w wk where g: "(w, wk) \<in> set G" "g = (w, map (\<lambda>(st, ks). (st, map (v w) ks)) wk)"
      using so by auto
    have "map (v w) ks = map (F st) (mslice (inner T w) st)
        \<and> (\<exists>ks. (st, ks) \<in> set keys \<and> (\<forall>i \<in> set (mslice (inner T w) st). i < length ks))"
      if m: "(st, ks) \<in> set wk" for st ks
    proof -
      have ks: "ks = map reqKey (?L w st)" by (rule grouped_entry[OF G g(1) m])
      obtain r where "r \<in> set (stateReqs keys)" "reqState r = st" using grouped_entry_req[OF G g(1) m] by blast
      then obtain ks' where ks': "(st, ks') \<in> set keys" "mslice keys st = ks'" using req by blast
      have "F st (fst q) = v w (reqKey q) \<and> fst q < length ks'" if "q \<in> set (?L w st)" for q
        using req[of q] that ks' by (auto simp: F_def)
      then show ?thesis using ks' unfolding idx ks by (auto intro!: exI[of _ ks'])
    qed
    then show "groupOk keys F (\<lambda>w st. mslice (inner T w) st) g" unfolding g(2) groupOk_def by auto
  qed
  have cov: "\<exists>(w, wr) \<in> set ?res. st \<in> fst ` set wr \<and> i \<in> set (mslice (inner T w) st)"
    if "(st, ks) \<in> set keys" "i < length ks" for st ks i
  proof -
    let ?r = "(i, st, ks ! i)" and ?w = "loc (ks ! i)"
    have r: "?r \<in> set (stateReqs keys)" using that by (auto simp: stateReqs_iff)
    then obtain wk xs where wk: "(?w, wk) \<in> set G" "(st, xs) \<in> set wk"
      using grouped_covers[OF G r] by (auto simp: reqState_def reqKey_def)
    have "i \<in> set (mslice (inner T ?w) st)" unfolding idx using r by (force simp: reqState_def reqKey_def)
    then show ?thesis using so wk by (intro bexI[of _ "(?w, map (\<lambda>(st, ks). (st, map (v ?w) ks)) wk)"]) force+
  qed
  have "mergeResultsFromAllWorkersLazyByKey keys ?res T = Inr (map (\<lambda>(st, ks). (st, map (F st) [0..<length ks])) keys)"
    unfolding mergeResultsFromAllWorkersLazyByKey_def by (rule gather_all[OF d ok cov])
  moreover have "map (F st) [0..<length ks] = map (\<lambda>k. v (loc k) k) ks" if "(st, ks) \<in> set keys" for st ks
    using lookup[OF that] by (intro nth_equalityI) (auto simp: F_def)
  ultimately show ?thesis by auto
qed

text \<open>The background flush writes every fetched key, and the table then says that it is local.\<close>

lemma setTo_union: "applyTo (setTo v) B (applyTo (setTo v) A m) = applyTo (setTo v) (A \<union> B) m"
  by (auto simp: applyTo_def setTo_def)

lemma onStore_union:
  "onStore (applyTo (setTo v) B) (onStore (applyTo (setTo v) A) s) = onStore (applyTo (setTo v) (A \<union> B)) s"
  by (simp add: onStore_def setTo_union)

lemma onStore_none: "onStore (applyTo p {}) s = s"
  by (simp add: onStore_def applyTo_def)

lemma flushFetched_eq:
  assumes "distinct (map fst wk)" "\<forall>(st, ks) \<in> set wk. \<forall>k \<in> set ks. v k = u k"
  shows "flushFetched wk (map (\<lambda>(st, ks). (st, map u ks)) wk) s
    = Inr (onStore (applyTo (setTo v) (\<Union>(st, ks) \<in> set wk. set ks)) s)"
proof -
  have "\<exists>s'. rfold (\<lambda>s (st, ks). setBackend s (mem_SetMany (Backend s) (Some ks)
        (map_of (map (\<lambda>(st, ks). (st, map u ks)) wk) st))) s wk = Inr s'
      \<and> s' = onStore (applyTo (setTo v) ({} \<union> \<Union> ((\<lambda>(st, ks). set ks) ` set wk))) s"
  proof (rule rfold_grow)
    show "s = onStore (applyTo (setTo v) {}) s" by (simp add: onStore_none)
    fix t x D assume x: "x \<in> set wk" and t: "t = onStore (applyTo (setTo v) D) s"
    obtain st ks where ks: "x = (st, ks)" by (cases x)
    have "map u ks = map v ks" using assms(2) x ks by auto
    then have "map_of (map (\<lambda>(st, ks). (st, map u ks)) wk) st = Some (map v ks)"
      using map_of_per_state[OF assms(1), of st ks u] x ks by simp
    then show "\<exists>t'. (case x of (st, ks) \<Rightarrow> setBackend t (mem_SetMany (Backend t) (Some ks)
        (map_of (map (\<lambda>(st, ks). (st, map u ks)) wk) st))) = Inr t'
      \<and> t' = onStore (applyTo (setTo v) (D \<union> (case x of (st, ks) \<Rightarrow> set ks))) s"
      by (simp add: ks SetMany_map setBackend_def t setTo_union onStore_def)
  qed
  then show ?thesis by (simp add: flushFetched_def)
qed


lemma flush_all:
  assumes G: "grouped G (stateReqs keys) (\<lambda>r. loc (reqKey r)) reqState reqKey" and ord: "range_order ord"
  shows "rfold (\<lambda>s (w, wk). if w = me then Inr s
        else flushFetched wk (inner (map (\<lambda>(w, wk). (w, map (\<lambda>(st, ks). (st, map (v w) ks)) wk)) (ord G)) w) s) s (ord G)
    = Inr (onStore (applyTo (setTo (\<lambda>k. v (loc k) k)) {k \<in> requested keys. loc k \<noteq> me}) s)"
proof -
  let ?res = "map (\<lambda>(w, wk). (w, map (\<lambda>(st, ks). (st, map (v w) ks)) wk)) (ord G)"
  let ?d = "\<lambda>(w, wk :: keysPerState). {k \<in> requested keys. loc k = w \<and> w \<noteq> me}"
  have dG: "distinct (map fst G)" using G by (simp add: grouped_def)
  have so: "set (ord G) = set G" by (rule range_orderD(2)[OF ord])
  have dres: "distinct (map fst ?res)"
    using order_distinct[OF ord dG] by (simp add: comp_def split_beta)
  have "\<exists>s'. rfold (\<lambda>s (w, wk). if w = me then Inr s else flushFetched wk (inner ?res w) s) s (ord G) = Inr s'
    \<and> s' = onStore (applyTo (setTo (\<lambda>k. v (loc k) k)) ({} \<union> \<Union> (?d ` set (ord G)))) s"
  proof (rule rfold_grow)
    show "s = onStore (applyTo (setTo (\<lambda>k. v (loc k) k)) {}) s" by (simp add: onStore_none)
    fix t x D assume x: "x \<in> set (ord G)" and t: "t = onStore (applyTo (setTo (\<lambda>k. v (loc k) k)) D) s"
    obtain w wk where xw: "x = (w, wk)" by (cases x)
    then have mem: "(w, wk) \<in> set G" using x so by simp
    note K = group_keys[where f = loc, OF G mem]
    have "(w, map (\<lambda>(st, ks). (st, map (v w) ks)) wk) \<in> set ?res" using x xw by force
    then have i: "inner ?res w = map (\<lambda>(st, ks). (st, map (v w) ks)) wk"
      using dres unfolding inner_def by (simp only: map_of_eq_Some_iff[THEN iffD2] option.case)
    have dw: "distinct (map fst wk)" using G mem unfolding grouped_def by blast
    have "\<forall>(st, ks) \<in> set wk. \<forall>k \<in> set ks. v (loc k) k = v w k" using K by auto
    from flushFetched_eq[OF dw this, of t] show "\<exists>t'. (case x of (w, wk) \<Rightarrow> if w = me then Inr t
        else flushFetched wk (inner ?res w) t) = Inr t'
      \<and> t' = onStore (applyTo (setTo (\<lambda>k. v (loc k) k)) (D \<union> ?d x)) s"
      unfolding xw prod.case i K by (auto simp: t onStore_union)
  qed
  moreover have "{} \<union> \<Union> (?d ` set (ord G)) = {k \<in> requested keys. loc k \<noteq> me}"
  proof -
    have "\<exists>wk. (loc k, wk) \<in> set G" if "k \<in> requested keys" for k
      using that grouped_covers[OF G] unfolding req_keys[symmetric] by blast
    then show ?thesis unfolding so by fastforce
  qed
  ultimately show ?thesis by auto
qed

lemma update_all:
  assumes G: "grouped G (stateReqs keys) (\<lambda>r. loc (reqKey r)) reqState reqKey"
    and T: "grouped T (stateReqs keys) (\<lambda>r. loc (reqKey r)) reqState fst"
    and ord: "range_order ord" and bs: "\<forall>(st, ks) \<in> set keys. map bucketOf ks = bs"
    and s: "svcWorkerID s = me" "localMaps me (StateLookupTableV2 s)"
    and im: "\<forall>k \<in> requested keys. loc k \<noteq> me \<longrightarrow> inMap (StateLookupTableV2 s) (bucketOf k) k"
  shows "\<exists>t'. updateAddrForFetchedNeededRemoteKeys (ord G) T bs s = Inr (s\<lparr>StateLookupTableV2 := t'\<rparr>)
    \<and> movedTo me bucketOf (StateLookupTableV2 s) {k \<in> requested keys. loc k \<noteq> me} t'"
proof -
  let ?t0 = "StateLookupTableV2 s"
  let ?Q = "movedTo me bucketOf ?t0"
  let ?L = "\<lambda>w st. filter (\<lambda>r. loc (reqKey r) = w \<and> reqState r = st) (stateReqs keys)"
  let ?up = "\<lambda>w table (st, ks). rfold (updateAddrStep me bs (mslice (inner T w) st)) table (enumerate 0 ks)"
  let ?step = "\<lambda>table (w, wk). if w = me then Inr table else rfold (?up w) table wk"
  let ?d = "\<lambda>(w, wk :: keysPerState). {k \<in> requested keys. loc k = w \<and> w \<noteq> me}"
  have so: "set (ord G) = set G" by (rule range_orderD(2)[OF ord])
  have one: "\<exists>t'. ?up w t (st, ks) = Inr t' \<and> ?Q (D \<union> set ks) t'"
    if w: "(w, wk) \<in> set G" "(st, ks) \<in> set wk" "w \<noteq> me" and Q: "?Q D t" for w wk st ks t D
  proof -
    have ks: "ks = map reqKey (?L w st)" by (rule grouped_entry[OF G w(1, 2)])
    have idx: "mslice (inner T w) st = map fst (?L w st)" by (rule grouped_mslice[OF T])
    have "\<exists>t'. rfold (updateAddrStep me bs (map fst (?L w st))) t (enumerate 0 ks) = Inr t'
      \<and> ?Q (D \<union> \<Union> ((\<lambda>x. {snd x}) ` set (enumerate 0 ks))) t'"
    proof (rule rfold_grow[where Q = ?Q, OF _ Q])
      fix t x D assume x: "x \<in> set (enumerate 0 ks)" and Q': "?Q D t"
      obtain i where i: "x = (i, ks ! i)" "i < length ks" using x by (auto simp: enumerate_0)
      define r where "r = ?L w st ! i"
      have "r \<in> set (?L w st)" using i(2) unfolding ks r_def by (intro nth_mem) simp
      then have r: "r \<in> set (stateReqs keys)" "loc (reqKey r) = w" by auto
      obtain j st' k where q: "r = (j, st', k)" by (cases r)
      obtain ks' where ks': "(st', ks') \<in> set keys" "j < length ks'" "k = ks' ! j" using r(1) unfolding q stateReqs_iff by blast
      then have "bs = map bucketOf ks'" using bs by auto
      then have b: "at_idx bs j = Inr (bucketOf k)" using ks' by (simp add: slice_simps)
      have k: "ks ! i = k" using i(2) q by (simp add: ks r_def reqKey_def)
      have "at_idx (map fst (?L w st)) i = Inr j" using i(2) q unfolding ks r_def by (simp add: slice_simps)
      then have st: "updateAddrStep me bs (map fst (?L w st)) t x = UpdateKey t k (bucketOf k) me"
        using b by (simp add: updateAddrStep_def i(1) k)
      have "inMap ?t0 (bucketOf k) k"
        using im r w(3) stateReqs_requested[OF r(1)] by (auto simp: q reqKey_def)
      then show "\<exists>t'. updateAddrStep me bs (map fst (?L w st)) t x = Inr t' \<and> ?Q (D \<union> {snd x}) t'"
        using movedTo_Update[OF Q'] unfolding st by (simp add: i(1) k)
    qed
    moreover have "\<Union> ((\<lambda>x. {snd x}) ` set (enumerate 0 ks)) = set ks"
    proof -
      have "\<Union> ((\<lambda>x. {snd x}) ` set (enumerate 0 ks)) = set (map snd (enumerate 0 ks))"
        unfolding list.set_map by auto
      then show ?thesis by (simp only: map_snd_enumerate)
    qed
    ultimately show ?thesis by (simp add: idx)
  qed
  have "\<exists>t'. rfold ?step ?t0 (ord G) = Inr t' \<and> ?Q ({} \<union> \<Union> (?d ` set (ord G))) t'"
  proof (rule rfold_grow[where Q = ?Q, OF _ movedTo_refl[OF s(2)]])
    fix t x D assume x: "x \<in> set (ord G)" and Q: "?Q D t"
    obtain w wk where xw: "x = (w, wk)" by (cases x)
    then have mem: "(w, wk) \<in> set G" using x so by simp
    have "\<exists>t'. rfold (?up w) t wk = Inr t' \<and> ?Q (D \<union> \<Union> ((\<lambda>(st, ks). set ks) ` set wk)) t'" if "w \<noteq> me"
      by (rule rfold_grow[where Q = ?Q, OF _ Q]) (use one[OF mem _ that] in auto)
    then show "\<exists>t'. ?step t x = Inr t' \<and> ?Q (D \<union> ?d x) t'"
      using Q group_keys[where f = loc, OF G mem] by (cases "w = me") (auto simp: xw)
  qed
  moreover have "{} \<union> \<Union> (?d ` set (ord G)) = {k \<in> requested keys. loc k \<noteq> me}"
  proof -
    have "\<exists>wk. (loc k, wk) \<in> set G" if "k \<in> requested keys" for k
      using that grouped_covers[OF G] unfolding req_keys[symmetric] by blast
    then show ?thesis unfolding so by fastforce
  qed
  ultimately show ?thesis unfolding updateAddrForFetchedNeededRemoteKeys_def s(1) by auto
qed


lemma byKey_read:
  assumes ord: "range_order ord" and loc: "located cl me loc bucketOf keys s"
    and bs: "\<forall>(st, ks) \<in> set keys. map bucketOf ks = bs"
  shows "\<exists>s' t'. remoteReadWithByKeyMigration ord cl me keys bs
      = Inr (cl(me \<mapsto> s'), map (\<lambda>(st, ks). (st, map (\<lambda>k. seenFrom me cl (loc k) k) ks)) keys)
    \<and> s' = onStore (applyTo (setTo (\<lambda>k. seenFrom me cl (loc k) k)) {k \<in> requested keys. loc k \<noteq> me}) s\<lparr>StateLookupTableV2 := t'\<rparr>
    \<and> movedTo me bucketOf (StateLookupTableV2 s) {k \<in> requested keys. loc k \<noteq> me} t'"
proof -
  obtain G T where G: "groupKeysByWorker (StateLookupTableV2 s) keys bs = Inr (G, T)"
    "grouped G (stateReqs keys) (\<lambda>r. loc (reqKey r)) reqState reqKey"
    "grouped T (stateReqs keys) (\<lambda>r. loc (reqKey r)) reqState fst"
    "fst ` set G = (\<lambda>r. loc (reqKey r)) ` set (stateReqs keys)"
    using byKey_groups[OF loc bs] by blast
  have l: "cl me = Some s" "svcWorkerID s = me" "localMaps me (StateLookupTableV2 s)" "distinct (map fst keys)"
    "\<forall>k \<in> requested keys. tracked (StateLookupTableV2 s) (bucketOf k)
          \<and> GetWorkerID (StateLookupTableV2 s) k (bucketOf k) = Inr (loc k) \<and> cl (loc k) \<noteq> None"
    using loc by (auto simp: located_def)
  note so = range_orderD(2)[OF ord]
  let ?res = "map (\<lambda>(w, wk). (w, map (\<lambda>(st, ks). (st, map (seenFrom me cl w) ks)) wk)) (ord G)"
  have fetch: "rfold (\<lambda>acc (w, wk). rbind (fetchFrom cl me w wk) (\<lambda>r. Inr (acc @ [(w, r)]))) [] (ord G) = Inr ([] @ ?res)"
  proof (rule rfold_snoc)
    fix acc x assume x: "x \<in> set (ord G)"
    obtain w wk where xw: "x = (w, wk)" by (cases x)
    then have mem: "(w, wk) \<in> set G" using x so by simp
    then have "distinct (map fst wk)" using G(2) unfolding grouped_def by blast
    moreover have "w \<in> (\<lambda>r. loc (reqKey r)) ` set (stateReqs keys)" using G(4) mem by force
    then have "cl w \<noteq> None" using l(5) stateReqs_requested by blast
    ultimately show "(case x of (w, wk) \<Rightarrow> rbind (fetchFrom cl me w wk) (\<lambda>r. Inr (acc @ [(w, r)])))
      = Inr (acc @ [case x of (w, wk) \<Rightarrow> (w, map (\<lambda>(st, ks). (st, map (seenFrom me cl w) ks)) wk)])"
      by (simp add: xw fetchFrom_eq)
  qed
  let ?s = "onStore (applyTo (setTo (\<lambda>k. seenFrom me cl (loc k) k)) {k \<in> requested keys. loc k \<noteq> me}) s"
  have im: "\<forall>k \<in> requested keys. loc k \<noteq> me \<longrightarrow> inMap (StateLookupTableV2 ?s) (bucketOf k) k"
    using l(5) remote_inMap[OF l(3)] by auto
  obtain t' where t': "updateAddrForFetchedNeededRemoteKeys (ord G) T bs ?s = Inr (?s\<lparr>StateLookupTableV2 := t'\<rparr>)"
    "movedTo me bucketOf (StateLookupTableV2 s) {k \<in> requested keys. loc k \<noteq> me} t'"
    using update_all[OF G(2, 3) ord bs _ _ im] l(2, 3) by auto
  show ?thesis
    using t' fetch flush_all[OF G(2) ord, of me "seenFrom me cl" s]
      byKey_gather[OF l(4) G(2, 3) so, of "seenFrom me cl"]
    by (auto simp: remoteReadWithByKeyMigration_def peer_def l(1) G(1))
qed


section \<open>Writing\<close>

lemma per_state_bucket:
  assumes "distinct (map fst keys)" "(st, ks) \<in> set keys" "i < length ks"
  shows "at_idx (mslice (bucketsOf bucketOf keys) st) i = Inr (bucketOf (ks ! i))"
  using per_state_at(1)[OF assms(1), of i st "ks ! i"] assms(2, 3) by (auto simp: stateReqs_iff)

lemma insertOrUpdate_ok:
  assumes d: "distinct (map fst keys)" and s: "svcWorkerID s = me" "localMaps me (StateLookupTableV2 s)"
    and t: "\<forall>k \<in> requested keys. tracked (StateLookupTableV2 s) (bucketOf k)"
  shows "\<exists>t'. insertOrUpdateAddrForLocalKeys keys (bucketsOf bucketOf keys) s = Inr (s\<lparr>StateLookupTableV2 := t'\<rparr>)
    \<and> movedTo me bucketOf (StateLookupTableV2 s) (requested keys) t'"
proof -
  let ?Q = "movedTo me bucketOf (StateLookupTableV2 s)"
  let ?step = "\<lambda>table (i, st, key). rbind (at_idx (mslice (bucketsOf bucketOf keys) st) i) (\<lambda>b. InsertOrUpdateKey table key b me)"
  have "\<exists>t'. rfold ?step (StateLookupTableV2 s) (stateReqs keys) = Inr t' \<and> ?Q ({} \<union> \<Union> ((\<lambda>r. {reqKey r}) ` set (stateReqs keys))) t'"
  proof (rule rfold_grow[where Q = ?Q, OF _ movedTo_refl[OF s(2)]])
    fix t0 x D assume x: "x \<in> set (stateReqs keys)" and Q: "?Q D t0"
    obtain i st k where q: "x = (i, st, k)" by (cases x)
    have "tracked (StateLookupTableV2 s) (bucketOf k)" using t stateReqs_requested[OF x] by (simp add: q reqKey_def)
    then show "\<exists>t'. ?step t0 x = Inr t' \<and> ?Q (D \<union> {reqKey x}) t'"
      using movedTo_Insert[OF Q] per_state_at(1)[OF d x[unfolded q]] by (simp add: q reqKey_def)
  qed
  moreover have "{} \<union> \<Union> ((\<lambda>r. {reqKey r}) ` set (stateReqs keys)) = requested keys" using req_keys[of keys] by auto
  ultimately show ?thesis by (auto simp: insertOrUpdateAddrForLocalKeys_def rfold_stateReqs s(1))
qed

text \<open>Removing keys: each must be in the map, once. A removed key is located on the owner of its bucket.\<close>

lemma remove_reqs:
  assumes "distinct (map reqKey rs)" "localMaps me t" "\<forall>r \<in> set rs. inMap t (bucketOf (reqKey r)) (reqKey r)"
    and "\<And>t r. r \<in> set rs \<Longrightarrow> step t r = RemoveKey t (reqKey r) (bucketOf (reqKey r))"
  shows "\<exists>t'. rfold step t rs = Inr t' \<and> localMaps me t' \<and> (\<forall>b. tracked t' b = tracked t b)
    \<and> (\<forall>b k. GetWorkerID t' k b = (if k \<in> reqKey ` set rs \<and> b = bucketOf k then Inr me else GetWorkerID t k b))"
  using assms
proof (induction rs arbitrary: t)
  case (Cons r rs)
  let ?k = "reqKey r"
  have im: "inMap t (bucketOf ?k) ?k" using Cons.prems(3) by simp
  then obtain t1 where t1: "RemoveKey t ?k (bucketOf ?k) = Inr t1" using Remove_ok by blast
  have own: "WorkerID (k2_Buckets t ! nat (bucketOf ?k)) = me"
    using localMaps_owner[OF Cons.prems(2)] im by (simp add: inMap_def)
  have "inMap t1 (bucketOf (reqKey q)) (reqKey q)" if "q \<in> set rs" for q
  proof -
    have "reqKey q \<noteq> ?k" using Cons.prems(1) that by (auto simp del: split_paired_All) (metis image_eqI)
    then show ?thesis using inMap_Remove[OF t1] Cons.prems(3) that by simp
  qed
  then obtain t' where t': "rfold step t1 rs = Inr t'" "localMaps me t'" "\<forall>b. tracked t' b = tracked t1 b"
    "\<forall>b k. GetWorkerID t' k b = (if k \<in> reqKey ` set rs \<and> b = bucketOf k then Inr me else GetWorkerID t1 k b)"
    using Cons.IH[of t1] Cons.prems(1, 4) localMaps_Remove[OF t1 Cons.prems(2)] by auto
  have "rfold step t (r # rs) = Inr t'" using Cons.prems(4)[of r t] t1 t'(1) by simp
  then show ?case using t' GetWorkerID_Remove[OF t1] tracked_Remove[OF t1] own by auto
qed simp


lemma deleteKeys_ok:
  assumes d: "distinct (map fst keys)" "distinct (concat (map snd keys))" and s: "localMaps me (StateLookupTableV2 s)"
    and im: "\<forall>k \<in> requested keys. inMap (StateLookupTableV2 s) (bucketOf k) k"
  shows "\<exists>t'. deleteKeysFromLookupTable keys (bucketsOf bucketOf keys) s = Inr (s\<lparr>StateLookupTableV2 := t'\<rparr>)
    \<and> localMaps me t' \<and> (\<forall>b. tracked t' b = tracked (StateLookupTableV2 s) b)
    \<and> (\<forall>b k. GetWorkerID t' k b = (if k \<in> requested keys \<and> b = bucketOf k then Inr me else GetWorkerID (StateLookupTableV2 s) k b))"
proof -
  let ?step = "\<lambda>table (i, st, key). rbind (at_idx (mslice (bucketsOf bucketOf keys) st) i) (\<lambda>b. RemoveKey table key b)"
  have "?step t r = RemoveKey t (reqKey r) (bucketOf (reqKey r))" if "r \<in> set (stateReqs keys)" for t r
  proof -
    obtain i st k where q: "r = (i, st, k)" by (cases r)
    show ?thesis using per_state_at(1)[OF d(1) that[unfolded q]] by (simp add: q reqKey_def)
  qed
  moreover have "distinct (map reqKey (stateReqs keys))" using d(2) by (simp only: reqKeys)
  moreover have "\<forall>r \<in> set (stateReqs keys). inMap (StateLookupTableV2 s) (bucketOf (reqKey r)) (reqKey r)"
    using im stateReqs_requested by blast
  ultimately show ?thesis
    using remove_reqs[of "stateReqs keys" me "StateLookupTableV2 s" bucketOf ?step] s
    by (auto simp: deleteKeysFromLookupTable_def rfold_stateReqs req_keys)
qed

text \<open>Local writes of a whole request.\<close>

lemma state_of_key:
  fixes keys :: keysPerState
  assumes "distinct (concat (map snd keys))"
  shows "\<exists>sf. \<forall>(st, ks) \<in> set keys. \<forall>k \<in> set ks. sf k = st"
proof -
  have inj: "inj_on reqKey (set (stateReqs keys))"
    using assms unfolding reqKeys[symmetric] by (simp add: distinct_map)
  have "reqState (inv_into (set (stateReqs keys)) reqKey k) = st" if m: "(st, ks) \<in> set keys" "k \<in> set ks" for st ks k
  proof -
    obtain i where "i < length ks" "k = ks ! i" using m(2) by (auto simp: in_set_conv_nth)
    then have "(i, st, k) \<in> set (stateReqs keys)" using m(1) by (auto simp: stateReqs_iff)
    from inv_into_f_f[OF inj this] show ?thesis by (simp add: reqKey_def reqState_def)
  qed
  then show ?thesis by (intro exI[of _ "\<lambda>k. reqState (inv_into (set (stateReqs keys)) reqKey k)"]) auto
qed

lemma local_write:
  assumes d: "distinct (map fst keys)" "distinct (concat (map snd keys))"
    and "\<And>s st ks. (st, ks) \<in> set keys \<Longrightarrow> distinct ks \<Longrightarrow> step s (st, ks) = Inr (onStore (applyTo p (set ks)) s)"
  shows "rfold step s keys = Inr (onStore (applyTo p (requested keys)) s)"
proof -
  obtain sf where sf: "\<forall>(st, ks) \<in> set keys. \<forall>k \<in> set ks. sf k = st" using state_of_key[OF d(2)] by blast
  have "distinct ks" if "(st, ks) \<in> set keys" for st ks using d(2) that by (auto simp: distinct_concat_iff)
  then have "rfold step s keys = Inr (onStore (applyTo p (\<Union>(st, ks) \<in> set keys. set ks)) s)"
    by (intro apply_states[where sf = sf]) (use assms(3) d(1) sf in auto)
  moreover have "(\<Union>(st, ks) \<in> set keys. set ks) = requested keys" by (auto simp: requested_def)
  ultimately show ?thesis by simp
qed

lemma local_writes:
  assumes "distinct (map fst keys)" "distinct (concat (map snd keys))"
  shows "overwriteLocalState s keys (valuesOf val keys) = Inr (onStore (applyTo (setTo val) (requested keys)) s)"
    and "mergeLocalState s keys (valuesOf val keys) = Inr (onStore (applyTo (appendTo val) (requested keys)) s)"
    and "deleteLocalState s keys = Inr (onStore (applyTo cleared (requested keys)) s)"
  unfolding overwriteLocalState_def mergeLocalState_def deleteLocalState_def
  by (rule local_write[OF assms];
      simp add: valuesOf_def map_of_per_state[OF assms(1)] SetMany_map MergeMany_map DeleteMany_eq setBackend_onStore)+


section \<open>The cluster as one map\<close>

definition keyedMap :: "u16 \<Rightarrow> (skey \<Rightarrow> int) \<Rightarrow> cluster \<Rightarrow> skey \<Rightarrow> bytes option" where
  "keyedMap me bucketOf cl k = (case cl me of None \<Rightarrow> None | Some s \<Rightarrow>
     (case GetWorkerID (StateLookupTableV2 s) k (bucketOf k) of Inl _ \<Rightarrow> None | Inr w \<Rightarrow> valueAt cl w k))"

definition byKey :: "svcEnv \<Rightarrow> bool" where
  "byKey e \<longleftrightarrow> ReconfigProtocol e = ''lazy'' \<and> LazyProtocolVersion e = ''by-key'' \<and> range_order (ordW e)"

lemma svc_swap: "s\<lparr>StateLookupTableV2 := t, Backend := m\<rparr> = s\<lparr>Backend := m, StateLookupTableV2 := t\<rparr>"
  by simp

text \<open>How the map changes when \<open>me\<close> takes the keys of \<open>D\<close> over and changes its store there.\<close>

lemma keyedMap_taken:
  assumes "cl me = Some s" "\<forall>k. GetWorkerID t' k (bucketOf k) = (if k \<in> D then Inr me else GetWorkerID (StateLookupTableV2 s) k (bucketOf k))"
    and "\<forall>k. k \<notin> D \<longrightarrow> m' k = Backend s k"
  shows "keyedMap me bucketOf (cl(me \<mapsto> s\<lparr>Backend := m', StateLookupTableV2 := t'\<rparr>)) k
    = (if k \<in> D then m' k else keyedMap me bucketOf cl k)"
  using assms by (auto simp: keyedMap_def valueAt_def mem_look split: sum.splits)

lemma located_value: "located cl me loc bucketOf keys s \<Longrightarrow> k \<in> requested keys \<Longrightarrow> keyedMap me bucketOf cl k = valueAt cl (loc k) k"
  by (simp add: located_def keyedMap_def)

lemma located_taken:
  assumes l: "located cl me loc bucketOf keys s" and "localMaps me t'" "\<forall>b. tracked t' b = tracked (StateLookupTableV2 s) b"
    and "\<forall>k \<in> requested keys. GetWorkerID t' k (bucketOf k) = Inr me"
  shows "located (cl(me \<mapsto> s\<lparr>Backend := m', StateLookupTableV2 := t'\<rparr>)) me (\<lambda>_. me) bucketOf keys
    (s\<lparr>Backend := m', StateLookupTableV2 := t'\<rparr>)"
  using assms by (auto simp: located_def)


text \<open>What every operation does to the service of the worker that calls it.\<close>

definition takenOver :: "StateService \<Rightarrow> store \<Rightarrow> KeyLookupTableV2 \<Rightarrow> StateService" where
  "takenOver s m t = s\<lparr>Backend := m, StateLookupTableV2 := t\<rparr>"

lemma byKey_ops:
  assumes e: "byKey e" and l: "located cl me loc bucketOf keys s" and ne: "keys \<noteq> []"
  shows "\<exists>t. SetManyMultiState e cl me keys (valuesOf val keys) (bucketsOf bucketOf keys)
        = Inr (cl(me \<mapsto> takenOver s (applyTo (setTo val) (requested keys) (Backend s)) t))
      \<and> movedTo me bucketOf (StateLookupTableV2 s) (requested keys) t"
    and "\<exists>t. MergeManyMultiState e cl me keys (valuesOf val keys) (bucketsOf bucketOf keys)
        = Inr (cl(me \<mapsto> takenOver s (applyTo (appendTo val) (requested keys) (Backend s)) t))
      \<and> movedTo me bucketOf (StateLookupTableV2 s) (requested keys) t"
    and "\<forall>k \<in> requested keys. inMap (StateLookupTableV2 s) (bucketOf k) k \<Longrightarrow>
      \<exists>t. svc_DeleteMany e cl me keys (bucketsOf bucketOf keys)
        = Inr (cl(me \<mapsto> takenOver s (applyTo cleared (requested keys) (Backend s)) t))
      \<and> localMaps me t \<and> (\<forall>b. tracked t b = tracked (StateLookupTableV2 s) b)
      \<and> (\<forall>k. GetWorkerID t k (bucketOf k) = (if k \<in> requested keys then Inr me else GetWorkerID (StateLookupTableV2 s) k (bucketOf k)))"
    and "\<forall>(st, ks) \<in> set keys. map bucketOf ks = bs \<Longrightarrow>
      \<exists>t. GetManyMultiState e cl me opID keys bs
        = Inr (cl(me \<mapsto> takenOver s (applyTo (setTo (\<lambda>k. seenFrom me cl (loc k) k)) {k \<in> requested keys. loc k \<noteq> me} (Backend s)) t),
            valuesOf (\<lambda>k. seenFrom me cl (loc k) k) keys)
      \<and> movedTo me bucketOf (StateLookupTableV2 s) {k \<in> requested keys. loc k \<noteq> me} t"
proof -
  have l': "cl me = Some s" "svcWorkerID s = me" "localMaps me (StateLookupTableV2 s)" "distinct (map fst keys)"
    "distinct (concat (map snd keys))" "\<forall>k \<in> requested keys. tracked (StateLookupTableV2 s) (bucketOf k)"
    using l by (auto simp: located_def)
  note wr = local_writes[OF l'(4, 5)]
  note api = SetManyMultiState_def MergeManyMultiState_def svc_DeleteMany_def byKey_def onLocal_def peer_def takenOver_def
  obtain t where ins: "insertOrUpdateAddrForLocalKeys keys (bucketsOf bucketOf keys) s = Inr (s\<lparr>StateLookupTableV2 := t\<rparr>)"
    "movedTo me bucketOf (StateLookupTableV2 s) (requested keys) t"
    using insertOrUpdate_ok[OF l'(4, 2, 3, 6)] by blast
  then show "\<exists>t. SetManyMultiState e cl me keys (valuesOf val keys) (bucketsOf bucketOf keys)
        = Inr (cl(me \<mapsto> takenOver s (applyTo (setTo val) (requested keys) (Backend s)) t))
      \<and> movedTo me bucketOf (StateLookupTableV2 s) (requested keys) t"
    and "\<exists>t. MergeManyMultiState e cl me keys (valuesOf val keys) (bucketsOf bucketOf keys)
        = Inr (cl(me \<mapsto> takenOver s (applyTo (appendTo val) (requested keys) (Backend s)) t))
      \<and> movedTo me bucketOf (StateLookupTableV2 s) (requested keys) t"
    using e ne by (auto simp: api l'(1) wr onStore_def svc_swap)
  show "\<exists>t. svc_DeleteMany e cl me keys (bucketsOf bucketOf keys)
        = Inr (cl(me \<mapsto> takenOver s (applyTo cleared (requested keys) (Backend s)) t))
      \<and> localMaps me t \<and> (\<forall>b. tracked t b = tracked (StateLookupTableV2 s) b)
      \<and> (\<forall>k. GetWorkerID t k (bucketOf k) = (if k \<in> requested keys then Inr me else GetWorkerID (StateLookupTableV2 s) k (bucketOf k)))"
    if im: "\<forall>k \<in> requested keys. inMap (StateLookupTableV2 s) (bucketOf k) k"
  proof -
    obtain u where u: "deleteKeysFromLookupTable keys (bucketsOf bucketOf keys) s = Inr (s\<lparr>StateLookupTableV2 := u\<rparr>)"
      "localMaps me u" "\<forall>b. tracked u b = tracked (StateLookupTableV2 s) b"
      "\<forall>k. GetWorkerID u k (bucketOf k) = (if k \<in> requested keys then Inr me else GetWorkerID (StateLookupTableV2 s) k (bucketOf k))"
      using deleteKeys_ok[OF l'(4, 5, 3) im] by auto
    have "svc_DeleteMany e cl me keys (bucketsOf bucketOf keys)
        = Inr (cl(me \<mapsto> takenOver s (applyTo cleared (requested keys) (Backend s)) u))"
      using e ne by (simp add: api l'(1) u(1) wr onStore_def svc_swap)
    then show ?thesis using u(2-4) by blast
  qed
  assume bs: "\<forall>(st, ks) \<in> set keys. map bucketOf ks = bs"
  have ord: "range_order (ordW e)" using e by (simp add: byKey_def)
  show "\<exists>t. GetManyMultiState e cl me opID keys bs
        = Inr (cl(me \<mapsto> takenOver s (applyTo (setTo (\<lambda>k. seenFrom me cl (loc k) k)) {k \<in> requested keys. loc k \<noteq> me} (Backend s)) t),
            valuesOf (\<lambda>k. seenFrom me cl (loc k) k) keys)
      \<and> movedTo me bucketOf (StateLookupTableV2 s) {k \<in> requested keys. loc k \<noteq> me} t"
    using byKey_read[OF ord l bs] e by (auto simp: GetManyMultiState_def byKey_def onStore_def takenOver_def valuesOf_def)
qed

lemma takenOver_map:
  assumes "located cl me loc bucketOf keys s"
    and "\<forall>k. GetWorkerID t k (bucketOf k) = (if k \<in> D then Inr me else GetWorkerID (StateLookupTableV2 s) k (bucketOf k))"
    and "\<forall>k. k \<notin> D \<longrightarrow> m k = Backend s k"
  shows "keyedMap me bucketOf (cl(me \<mapsto> takenOver s m t)) k = (if k \<in> D then m k else keyedMap me bucketOf cl k)"
  using keyedMap_taken[OF _ assms(2, 3), of cl] assms(1) by (simp add: takenOver_def located_def)

lemma movedToD:
  assumes "movedTo me bucketOf t0 D t"
  shows "localMaps me t" "\<forall>b. tracked t b = tracked t0 b"
    "\<forall>k. GetWorkerID t k (bucketOf k) = (if k \<in> D then Inr me else GetWorkerID t0 k (bucketOf k))"
    "inMap t0 b k \<Longrightarrow> inMap t b k"
  using assms by (simp_all add: movedTo_def)

text \<open>A key that is already at the worker has its value in the worker's backend.\<close>

lemma located_local: "located cl me loc bucketOf keys s \<Longrightarrow> k \<in> requested keys \<Longrightarrow> loc k = me \<Longrightarrow> Backend s k = keyedMap me bucketOf cl k"
  using located_value[of cl me loc bucketOf keys s k] by (simp add: located_def valueAt_def mem_look)

lemma seenFrom_keyed:
  "located cl me loc bucketOf keys s \<Longrightarrow> k \<in> requested keys \<Longrightarrow>
     seenFrom me cl (loc k) k = (if loc k = me then keyedMap me bucketOf cl k else Some (nilToEmpty (keyedMap me bucketOf cl k)))"
  using located_value[of cl me loc bucketOf keys s k] by (simp add: seenFrom_def)

text \<open>The service of \<open>by-key\<close> keeps the contract of a key-value service: a worker reads keys of buckets it tracks,
  changes keys it has read, and deletes keys that are in its key map.\<close>

definition keysAt :: "u16 \<Rightarrow> (skey \<Rightarrow> int) \<Rightarrow> (skey \<Rightarrow> u16) \<Rightarrow> cluster \<Rightarrow> skey set \<Rightarrow> bool" where
  "keysAt me bucketOf loc cl K \<longleftrightarrow> (\<exists>s. cl me = Some s \<and> svcWorkerID s = me \<and> localMaps me (StateLookupTableV2 s)
     \<and> (\<forall>k \<in> K. tracked (StateLookupTableV2 s) (bucketOf k)
          \<and> GetWorkerID (StateLookupTableV2 s) k (bucketOf k) = Inr (loc k) \<and> cl (loc k) \<noteq> None))"

definition inKeyMap :: "u16 \<Rightarrow> (skey \<Rightarrow> int) \<Rightarrow> cluster \<Rightarrow> skey \<Rightarrow> bool" where
  "inKeyMap me bucketOf cl k \<longleftrightarrow> (\<exists>s. cl me = Some s \<and> inMap (StateLookupTableV2 s) (bucketOf k) k)"

lemma keysAt_located:
  "keysAt me bucketOf loc cl K \<Longrightarrow> request keys \<Longrightarrow> requested keys \<subseteq> K \<Longrightarrow> \<exists>s. located cl me loc bucketOf keys s"
  unfolding keysAt_def located_def request_def by blast

lemma keysAt_taken:
  assumes "located cl me loc bucketOf keys s" "localMaps me t" "\<forall>b. tracked t b = tracked (StateLookupTableV2 s) b"
    and "\<forall>k \<in> K. tracked (StateLookupTableV2 s) (bucketOf k)" "\<forall>k \<in> K. GetWorkerID t k (bucketOf k) = Inr me"
  shows "keysAt me bucketOf (\<lambda>_. me) (cl(me \<mapsto> takenOver s m t)) K"
  using assms by (simp add: keysAt_def takenOver_def located_def)

lemma inKeyMap_taken:
  "located cl me loc bucketOf keys s \<Longrightarrow> movedTo me bucketOf (StateLookupTableV2 s) D t \<Longrightarrow> inKeyMap me bucketOf cl k \<Longrightarrow>
     inKeyMap me bucketOf (cl(me \<mapsto> takenOver s m t)) k"
  by (auto simp: located_def inKeyMap_def takenOver_def movedTo_def)

lemma keysAtD:
  assumes "keysAt me bucketOf (\<lambda>_. me) cl K" "cl me = Some s"
  shows "\<forall>k \<in> K. tracked (StateLookupTableV2 s) (bucketOf k)" "\<forall>k \<in> K. GetWorkerID (StateLookupTableV2 s) k (bucketOf k) = Inr me"
  using assms by (auto simp: keysAt_def)

text \<open>The content of the map after a local change of the keys \<open>D\<close> by \<open>p\<close>.\<close>

lemma taken_content:
  assumes l: "located cl me loc bucketOf keys s"
    and "\<forall>k. GetWorkerID t k (bucketOf k) = (if k \<in> D then Inr me else GetWorkerID (StateLookupTableV2 s) k (bucketOf k))"
  shows "nilToEmpty (keyedMap me bucketOf (cl(me \<mapsto> takenOver s (applyTo p D (Backend s)) t)) k)
    = (if k \<in> D then nilToEmpty (p k (Backend s k)) else nilToEmpty (keyedMap me bucketOf cl k))"
  using takenOver_map[OF l assms(2), of "applyTo p D (Backend s)" k] by (simp add: applyTo_def)

locale by_key_service =
  fixes e :: svcEnv
  assumes e: "byKey e"

sublocale by_key_service \<subseteq> bk: key_value_service "serviceApi e me" opID bucketOf
  "\<lambda>cl k. nilToEmpty (keyedMap me bucketOf cl k)" "\<lambda>cl K. \<exists>loc. keysAt me bucketOf loc cl K" "keysAt me bucketOf (\<lambda>_. me)"
  "inKeyMap me bucketOf" for me opID bucketOf
proof unfold_locales
  fix keys cl K and v :: "skey \<Rightarrow> bytes"
  assume q: "request keys"
  then have ne: "keys \<noteq> []" by (simp add: request_def)
  {
    fix bs assume h: "\<exists>loc. keysAt me bucketOf loc cl (requested keys)" and bs: "\<forall>(st, ks) \<in> set keys. map bucketOf ks = bs"
    obtain loc s where l: "located cl me loc bucketOf keys s" using keysAt_located[OF _ q] h by blast
    let ?D = "{k \<in> requested keys. loc k \<noteq> me}" and ?v = "\<lambda>k. seenFrom me cl (loc k) k"
    obtain t where t: "GetManyMultiState e cl me opID keys bs = Inr (cl(me \<mapsto> takenOver s (applyTo (setTo ?v) ?D (Backend s)) t), valuesOf ?v keys)"
      "movedTo me bucketOf (StateLookupTableV2 s) ?D t"
      using byKey_ops(4)[OF e l ne bs] by blast
    note m = movedToD[OF t(2)]
    have s: "cl me = Some s" "\<forall>k \<in> requested keys. tracked (StateLookupTableV2 s) (bucketOf k)"
      "\<forall>k \<in> requested keys. GetWorkerID (StateLookupTableV2 s) k (bucketOf k) = Inr (loc k)"
      using l by (simp_all add: located_def)
    have v: "\<forall>k \<in> requested keys. nilToEmpty (?v k) = nilToEmpty (keyedMap me bucketOf cl k)"
      using seenFrom_keyed[OF l] by (simp add: nilToEmpty_def)
    have "nilToEmpty (keyedMap me bucketOf (cl(me \<mapsto> takenOver s (applyTo (setTo ?v) ?D (Backend s)) t)) k)
        = nilToEmpty (keyedMap me bucketOf cl k)" for k
      unfolding taken_content[OF l m(3)] using v by (simp add: setTo_def)
    moreover have "keysAt me bucketOf (\<lambda>_. me) (cl(me \<mapsto> takenOver s (applyTo (setTo ?v) ?D (Backend s)) t)) (requested keys)"
      by (rule keysAt_taken[OF l m(1, 2) s(2)]) (use m(3) s(3) in auto)
    moreover note inKeyMap_taken[OF l t(2)]
    ultimately show "\<exists>cl' v. apiGetMany (serviceApi e me) cl opID keys bs = Inr (cl', valuesOf v keys)
        \<and> (\<forall>k \<in> requested keys. nilToEmpty (v k) = nilToEmpty (keyedMap me bucketOf cl k))
        \<and> (\<lambda>k. nilToEmpty (keyedMap me bucketOf cl' k)) = (\<lambda>k. nilToEmpty (keyedMap me bucketOf cl k))
        \<and> keysAt me bucketOf (\<lambda>_. me) cl' (requested keys)
        \<and> (\<forall>k. inKeyMap me bucketOf cl k \<longrightarrow> inKeyMap me bucketOf cl' k)"
      using t(1) v by (auto simp: serviceApi_def)
  }
  assume h: "keysAt me bucketOf (\<lambda>_. me) cl K" "requested keys \<subseteq> K"
  obtain s where l: "located cl me (\<lambda>_. me) bucketOf keys s" using keysAt_located[OF h(1) q h(2)] by blast
  then have s: "cl me = Some s" by (simp add: located_def)
  note hK = keysAtD[OF h(1) s] and here = located_local[OF l, simplified]
  have put: "keysAt me bucketOf (\<lambda>_. me) (cl(me \<mapsto> takenOver s m t)) K
      \<and> (\<forall>k. inKeyMap me bucketOf cl k \<longrightarrow> inKeyMap me bucketOf (cl(me \<mapsto> takenOver s m t)) k)"
    if t: "movedTo me bucketOf (StateLookupTableV2 s) D t" for D m t
    using keysAt_taken[OF l movedToD(1, 2)[OF t] hK(1)] movedToD(3)[OF t] hK(2) inKeyMap_taken[OF l t] by simp
  show "\<exists>cl'. apiSetMany (serviceApi e me) cl keys (valuesOf (\<lambda>k. Some (v k)) keys) (bucketsOf bucketOf keys) = Inr cl'
        \<and> (\<lambda>k. nilToEmpty (keyedMap me bucketOf cl' k)) = (\<lambda>k. if k \<in> requested keys then v k else nilToEmpty (keyedMap me bucketOf cl k))
        \<and> keysAt me bucketOf (\<lambda>_. me) cl' K \<and> (\<forall>k. inKeyMap me bucketOf cl k \<longrightarrow> inKeyMap me bucketOf cl' k)"
  proof -
    let ?m = "applyTo (setTo (\<lambda>k. Some (v k))) (requested keys) (Backend s)"
    obtain t where t: "SetManyMultiState e cl me keys (valuesOf (\<lambda>k. Some (v k)) keys) (bucketsOf bucketOf keys) = Inr (cl(me \<mapsto> takenOver s ?m t))"
      "movedTo me bucketOf (StateLookupTableV2 s) (requested keys) t"
      using byKey_ops(1)[OF e l ne] by blast
    have "nilToEmpty (keyedMap me bucketOf (cl(me \<mapsto> takenOver s ?m t)) k)
        = (if k \<in> requested keys then v k else nilToEmpty (keyedMap me bucketOf cl k))" for k
      unfolding taken_content[OF l movedToD(3)[OF t(2)]] by (simp add: setTo_def nilToEmpty_def)
    then show ?thesis using t(1) put[OF t(2)] by (auto simp: serviceApi_def)
  qed
  show "\<exists>cl'. apiMergeMany (serviceApi e me) cl keys (valuesOf (\<lambda>k. Some (v k)) keys) (bucketsOf bucketOf keys) = Inr cl'
        \<and> (\<lambda>k. nilToEmpty (keyedMap me bucketOf cl' k))
            = (\<lambda>k. if k \<in> requested keys then nilToEmpty (keyedMap me bucketOf cl k) @ v k else nilToEmpty (keyedMap me bucketOf cl k))
        \<and> keysAt me bucketOf (\<lambda>_. me) cl' K \<and> (\<forall>k. inKeyMap me bucketOf cl k \<longrightarrow> inKeyMap me bucketOf cl' k)"
  proof -
    let ?m = "applyTo (appendTo (\<lambda>k. Some (v k))) (requested keys) (Backend s)"
    obtain t where t: "MergeManyMultiState e cl me keys (valuesOf (\<lambda>k. Some (v k)) keys) (bucketsOf bucketOf keys) = Inr (cl(me \<mapsto> takenOver s ?m t))"
      "movedTo me bucketOf (StateLookupTableV2 s) (requested keys) t"
      using byKey_ops(2)[OF e l ne] by blast
    have "nilToEmpty (keyedMap me bucketOf (cl(me \<mapsto> takenOver s ?m t)) k)
        = (if k \<in> requested keys then nilToEmpty (keyedMap me bucketOf cl k) @ v k else nilToEmpty (keyedMap me bucketOf cl k))" for k
      unfolding taken_content[OF l movedToD(3)[OF t(2)]] using here[of k] by (simp add: appendTo_def nilToEmpty_def)
    then show ?thesis using t(1) put[OF t(2)] by (auto simp: serviceApi_def)
  qed
  show "\<exists>cl'. apiDeleteMany (serviceApi e me) cl keys (bucketsOf bucketOf keys) = Inr cl'
        \<and> (\<lambda>k. nilToEmpty (keyedMap me bucketOf cl' k)) = (\<lambda>k. if k \<in> requested keys then [] else nilToEmpty (keyedMap me bucketOf cl k))
        \<and> keysAt me bucketOf (\<lambda>_. me) cl' K"
    if r: "\<forall>k \<in> requested keys. inKeyMap me bucketOf cl k"
  proof -
    let ?m = "applyTo cleared (requested keys) (Backend s)"
    have im: "\<forall>k \<in> requested keys. inMap (StateLookupTableV2 s) (bucketOf k) k" using r s by (auto simp: inKeyMap_def)
    obtain t where t: "svc_DeleteMany e cl me keys (bucketsOf bucketOf keys) = Inr (cl(me \<mapsto> takenOver s ?m t))"
      "localMaps me t" "\<forall>b. tracked t b = tracked (StateLookupTableV2 s) b"
      "\<forall>k. GetWorkerID t k (bucketOf k) = (if k \<in> requested keys then Inr me else GetWorkerID (StateLookupTableV2 s) k (bucketOf k))"
      using byKey_ops(3)[OF e l ne im] by blast
    have "keysAt me bucketOf (\<lambda>_. me) (cl(me \<mapsto> takenOver s ?m t)) K"
      by (rule keysAt_taken[OF l t(2, 3) hK(1)]) (use t(4) hK(2) in simp)
    moreover have "nilToEmpty (keyedMap me bucketOf (cl(me \<mapsto> takenOver s ?m t)) k)
        = (if k \<in> requested keys then [] else nilToEmpty (keyedMap me bucketOf cl k))" for k
      unfolding taken_content[OF l t(4)] by (simp add: cleared_def nilToEmpty_def)
    ultimately show ?thesis using t(1) by (auto simp: serviceApi_def)
  qed
qed

context by_key_service
begin

lemma service:
  "key_value_service (serviceApi e me) opID bucketOf (\<lambda>cl k. nilToEmpty (keyedMap me bucketOf cl k))
     (\<lambda>cl K. \<exists>loc. keysAt me bucketOf loc cl K) (keysAt me bucketOf (\<lambda>_. me)) (inKeyMap me bucketOf)"
  by unfold_locales

end

interpretation keyed: by_key_service "e\<lparr>ReconfigProtocol := ''lazy'', LazyProtocolVersion := ''by-key'', ordW := (\<lambda>m. m)\<rparr>" for e
  by unfold_locales (simp add: byKey_def range_order_def)


text \<open>C2. Under \<open>by-key\<close> the services behave, for the worker that owns the buckets, as one key-value map,
  in which the value of a key is the one on the worker that the key map names. A read returns the values of
  the map, position by position, and leaves the map as it is (a nil value of another worker becomes an empty
  one); a write stores values whether or not the keys were local; a merge appends to keys that are local; a
  delete of keys that are in their key maps removes them. After a read or a write all its keys are located on
  the worker itself, so a merge or delete that follows a read of its keys finds them there.\<close>

theorem by_key_one_map:
  assumes e: "byKey e" and l: "located cl me loc bucketOf keys s" and ne: "keys \<noteq> []"
  shows "(\<forall>bs. (\<forall>(st, ks) \<in> set keys. map bucketOf ks = bs) \<longrightarrow>
        (\<exists>cl' s'. GetManyMultiState e cl me opID keys bs = Inr (cl', map (\<lambda>(st, ks). (st, map (\<lambda>k.
              if loc k = me then keyedMap me bucketOf cl k else Some (nilToEmpty (keyedMap me bucketOf cl k))) ks)) keys)
          \<and> (\<forall>k. nilToEmpty (keyedMap me bucketOf cl' k) = nilToEmpty (keyedMap me bucketOf cl k))
          \<and> located cl' me (\<lambda>_. me) bucketOf keys s'))
    \<and> (\<exists>cl' s'. SetManyMultiState e cl me keys (valuesOf val keys) (bucketsOf bucketOf keys) = Inr cl'
          \<and> (\<forall>k. keyedMap me bucketOf cl' k = (if k \<in> requested keys then Some (nilToEmpty (val k)) else keyedMap me bucketOf cl k))
          \<and> located cl' me (\<lambda>_. me) bucketOf keys s')
    \<and> ((\<forall>k \<in> requested keys. loc k = me) \<longrightarrow>
        (\<exists>cl'. MergeManyMultiState e cl me keys (valuesOf val keys) (bucketsOf bucketOf keys) = Inr cl'
          \<and> (\<forall>k. keyedMap me bucketOf cl' k = (if k \<in> requested keys
               then Some (nilToEmpty (keyedMap me bucketOf cl k) @ nilToEmpty (val k)) else keyedMap me bucketOf cl k))))
    \<and> ((\<forall>k \<in> requested keys. inMap (StateLookupTableV2 s) (bucketOf k) k) \<longrightarrow>
        (\<exists>cl'. svc_DeleteMany e cl me keys (bucketsOf bucketOf keys) = Inr cl'
          \<and> (\<forall>k. keyedMap me bucketOf cl' k = (if k \<in> requested keys then None else keyedMap me bucketOf cl k))))"
proof (intro conjI allI impI)
  note ops = byKey_ops[OF e l ne] and taken = takenOver_map[OF l]
  have loc: "\<forall>k \<in> requested keys. GetWorkerID (StateLookupTableV2 s) k (bucketOf k) = Inr (loc k)" using l by (simp add: located_def)
  show "\<exists>cl' s'. SetManyMultiState e cl me keys (valuesOf val keys) (bucketsOf bucketOf keys) = Inr cl'
      \<and> (\<forall>k. keyedMap me bucketOf cl' k = (if k \<in> requested keys then Some (nilToEmpty (val k)) else keyedMap me bucketOf cl k))
      \<and> located cl' me (\<lambda>_. me) bucketOf keys s'"
  proof -
    obtain t where t: "SetManyMultiState e cl me keys (valuesOf val keys) (bucketsOf bucketOf keys)
        = Inr (cl(me \<mapsto> takenOver s (applyTo (setTo val) (requested keys) (Backend s)) t))"
      "movedTo me bucketOf (StateLookupTableV2 s) (requested keys) t"
      using ops(1) by blast
    note m = movedToD[OF t(2)]
    have "located (cl(me \<mapsto> takenOver s (applyTo (setTo val) (requested keys) (Backend s)) t)) me (\<lambda>_. me) bucketOf keys
        (takenOver s (applyTo (setTo val) (requested keys) (Backend s)) t)"
      unfolding takenOver_def by (rule located_taken[OF l m(1, 2)]) (use m(3) in simp)
    then show ?thesis using t(1) taken[OF m(3)] by (auto simp: applyTo_def setTo_def)
  qed
  show "\<exists>cl'. MergeManyMultiState e cl me keys (valuesOf val keys) (bucketsOf bucketOf keys) = Inr cl'
      \<and> (\<forall>k. keyedMap me bucketOf cl' k = (if k \<in> requested keys
           then Some (nilToEmpty (keyedMap me bucketOf cl k) @ nilToEmpty (val k)) else keyedMap me bucketOf cl k))"
    if lm: "\<forall>k \<in> requested keys. loc k = me"
  proof -
    obtain t where t: "MergeManyMultiState e cl me keys (valuesOf val keys) (bucketsOf bucketOf keys)
        = Inr (cl(me \<mapsto> takenOver s (applyTo (appendTo val) (requested keys) (Backend s)) t))"
      "movedTo me bucketOf (StateLookupTableV2 s) (requested keys) t"
      using ops(2) by blast
    then show ?thesis using taken[OF movedToD(3)[OF t(2)]] located_local[OF l] lm by (auto simp: applyTo_def appendTo_def)
  qed
  show "\<exists>cl'. svc_DeleteMany e cl me keys (bucketsOf bucketOf keys) = Inr cl'
      \<and> (\<forall>k. keyedMap me bucketOf cl' k = (if k \<in> requested keys then None else keyedMap me bucketOf cl k))"
    if im: "\<forall>k \<in> requested keys. inMap (StateLookupTableV2 s) (bucketOf k) k"
  proof -
    obtain t where t: "svc_DeleteMany e cl me keys (bucketsOf bucketOf keys)
        = Inr (cl(me \<mapsto> takenOver s (applyTo cleared (requested keys) (Backend s)) t))"
      "\<forall>k. GetWorkerID t k (bucketOf k) = (if k \<in> requested keys then Inr me else GetWorkerID (StateLookupTableV2 s) k (bucketOf k))"
      using ops(3)[OF im] by blast
    then show ?thesis using taken[OF t(2)] by (auto simp: applyTo_def cleared_def)
  qed
  fix bs assume bs: "\<forall>(st, ks) \<in> set keys. map bucketOf ks = bs"
  let ?D = "{k \<in> requested keys. loc k \<noteq> me}" and ?v = "\<lambda>k. seenFrom me cl (loc k) k"
  obtain t where t: "GetManyMultiState e cl me opID keys bs = Inr (cl(me \<mapsto> takenOver s (applyTo (setTo ?v) ?D (Backend s)) t), valuesOf ?v keys)"
    "movedTo me bucketOf (StateLookupTableV2 s) ?D t"
    using ops(4)[OF bs] by blast
  note m = movedToD[OF t(2)]
  have off: "\<forall>k. k \<notin> ?D \<longrightarrow> applyTo (setTo ?v) ?D (Backend s) k = Backend s k" by (simp add: applyTo_def)
  have vals: "valuesOf ?v keys = map (\<lambda>(st, ks). (st, map (\<lambda>k.
      if loc k = me then keyedMap me bucketOf cl k else Some (nilToEmpty (keyedMap me bucketOf cl k))) ks)) keys"
    using seenFrom_keyed[OF l] by (force simp: valuesOf_def requested_def)
  have "nilToEmpty (keyedMap me bucketOf (cl(me \<mapsto> takenOver s (applyTo (setTo ?v) ?D (Backend s)) t)) k)
      = nilToEmpty (keyedMap me bucketOf cl k)" for k
    unfolding taken[OF m(3) off] using seenFrom_keyed[OF l, of k] by (simp add: applyTo_def setTo_def)
  moreover have "located (cl(me \<mapsto> takenOver s (applyTo (setTo ?v) ?D (Backend s)) t)) me (\<lambda>_. me) bucketOf keys
      (takenOver s (applyTo (setTo ?v) ?D (Backend s)) t)"
    unfolding takenOver_def by (rule located_taken[OF l m(1, 2)]) (use m(3) loc in auto)
  ultimately show "\<exists>cl' s'. GetManyMultiState e cl me opID keys bs = Inr (cl', map (\<lambda>(st, ks). (st, map (\<lambda>k.
              if loc k = me then keyedMap me bucketOf cl k else Some (nilToEmpty (keyedMap me bucketOf cl k))) ks)) keys)
          \<and> (\<forall>k. nilToEmpty (keyedMap me bucketOf cl' k) = nilToEmpty (keyedMap me bucketOf cl k))
          \<and> located cl' me (\<lambda>_. me) bucketOf keys s'"
    using t(1) unfolding vals by blast
qed


text \<open>Worker 1 of two owns both buckets; the second key is still on worker 2.\<close>

definition keyedService :: "u16 \<Rightarrow> store \<Rightarrow> KeyLookupTableV2 \<Rightarrow> StateService" where
  "keyedService w m t = pairService w m\<lparr>StateLookupTableV2 := t\<rparr>"

definition keyedTable :: KeyLookupTableV2 where
  "keyedTable = \<lparr>k2_H = (\<lambda>_. 0), k2_Buckets = [\<lparr>WorkerID = 1, KeyMap = Some [([0], 1)]\<rparr>, \<lparr>WorkerID = 1, KeyMap = Some [([1], 2)]\<rparr>]\<rparr>"

definition keyedCluster :: cluster where
  "keyedCluster = [1 \<mapsto> keyedService 1 [[0] \<mapsto> [10]] keyedTable,
     2 \<mapsto> keyedService 2 [[1] \<mapsto> [20]] (keyedTable\<lparr>k2_Buckets := replicate 2 \<lparr>WorkerID = 1, KeyMap = None\<rparr>\<rparr>)]"

lemmas keyed_eval = keyedCluster_def keyedTable_def keyedService_def pairService_def

lemma keyed_located:
  "located keyedCluster 1 (\<lambda>k. if k = [0] then 1 else 2) (\<lambda>k. if k = [0] then 0 else 1) [(5, [[0], [1]])]
     (keyedService 1 [[0] \<mapsto> [10]] keyedTable)"
  by (simp add: located_def requested_def keyed_eval localMaps_def localBucket_def tracked_def GetWorkerID_def
      bucketMap_def at_int_def at_idx_def)

theorem by_key_one_map_witness:
  "\<exists>cl'. GetManyMultiState (pairEnv ''by-key'') keyedCluster 1 7 [(5, [[0], [1]])] [0, 1]
     = Inr (cl', [(5, [Some [10], Some [20]])])"
proof -
  have e: "byKey (pairEnv ''by-key'')" by (simp add: byKey_def pairEnv_def range_order_def)
  have v: "keyedMap 1 (\<lambda>k. if k = [0] then 0 else 1) keyedCluster [0] = Some [10]"
    "keyedMap 1 (\<lambda>k. if k = [0] then 0 else 1) keyedCluster [1] = Some [20]"
    by (simp_all add: keyedMap_def valueAt_def keyed_eval mem_Get_def GetWorkerID_def bucketMap_def at_int_def at_idx_def)
  show ?thesis
    using by_key_one_map[OF e keyed_located, where opID = 7, THEN conjunct1, rule_format, of "[0, 1]"] v
    by (auto simp: nilToEmpty_def)
qed


section \<open>Deleted state comes back\<close>

lemma Remove_not_inMap: "RemoveKey t k b = Inr t' \<Longrightarrow> \<not> inMap t' b k"
proof -
  assume a: "RemoveKey t k b = Inr t'"
  obtain bk m where m: "bucketMap t b ''Key map nil for removing key'' = Inr (bk, m)"
    "t' = setKeyMap t b bk (AList.delete k m)" using a by (auto simp: RemoveKey_def rbind_eq_Inr)
  then have "tracked t b" "bk = k2_Buckets t ! nat b" by (auto simp: bucketMap_Inr tracked_def)
  then show ?thesis by (simp add: m(2) inMap_setKeyMap)
qed


lemma GetWorkerID_not_inMap: "localMaps w t \<Longrightarrow> tracked t b \<Longrightarrow> \<not> inMap t b k \<Longrightarrow> GetWorkerID t k b = Inr w"
  using localMaps_owner by (fastforce simp: GetWorkerID_def tracked_bucketMap inMap_def)

lemma deleteOne: "RemoveKey (StateLookupTableV2 s) k b = Inr u \<Longrightarrow>
    deleteKeysFromLookupTable [(st, [k])] [(st, [b])] s = Inr (s\<lparr>StateLookupTableV2 := u\<rparr>)"
  by (simp add: deleteKeysFromLookupTable_def mslice_def at_idx_def)



end
