(* ===== verification/Local_Service.thy ===== *)
theory Local_Service
  imports By_Key
begin

text \<open>
  With the stop-and-restart protocol, the state of a worker is complete before it processes tuples: the state
  service reads and writes its own backend only, and keeps the contract of a key-value service.
\<close>

definition localMap :: "u16 \<Rightarrow> cluster \<Rightarrow> skey \<Rightarrow> bytes" where
  "localMap me cl k = (case cl me of None \<Rightarrow> [] | Some s \<Rightarrow> nilToEmpty (Backend s k))"

lemma localMap_upd: "localMap me (cl(me \<mapsto> onStore f s)) k = nilToEmpty (f (Backend s) k)"
  by (simp add: localMap_def onStore_def)

locale local_service =
  fixes e :: svcEnv
  assumes e: "ReconfigProtocol e \<noteq> ''lazy''"

sublocale local_service \<subseteq> lo: key_value_service "serviceApi e me" opID bucketOf "localMap me"
  "\<lambda>cl K. cl me \<noteq> None" "\<lambda>cl K. cl me \<noteq> None" "\<lambda>_ _. True" for me opID bucketOf
proof unfold_locales
  fix keys K and cl :: cluster and v :: "skey \<Rightarrow> bytes"
  assume q: "request keys" and "cl me \<noteq> None"
  then obtain s where s: "cl me = Some s" by blast
  have d: "distinct (map fst keys)" "distinct (concat (map snd keys))" "keys \<noteq> []" using q by (simp_all add: request_def)
  note wr = local_writes[OF d(1, 2)]
  note api = serviceApi_def GetManyMultiState_def SetManyMultiState_def MergeManyMultiState_def svc_DeleteMany_def onLocal_def peer_def
  have old: "localMap me cl k = nilToEmpty (Backend s k)" for k by (simp add: localMap_def s)
  show "\<exists>cl' v. apiGetMany (serviceApi e me) cl opID keys bs = Inr (cl', valuesOf v keys)
      \<and> (\<forall>k \<in> requested keys. nilToEmpty (v k) = localMap me cl k) \<and> localMap me cl' = localMap me cl
      \<and> cl' me \<noteq> None \<and> (\<forall>k. True \<longrightarrow> True)" for bs
    using e s readLocalState_eq[OF d(1), of s] old
    by (intro exI[of _ cl] exI[of _ "mem_Get (Backend s)"]) (simp add: api valuesOf_def mem_look)
  show "\<exists>cl'. apiSetMany (serviceApi e me) cl keys (valuesOf (\<lambda>k. Some (v k)) keys) (bucketsOf bucketOf keys) = Inr cl'
      \<and> localMap me cl' = (\<lambda>k. if k \<in> requested keys then v k else localMap me cl k) \<and> cl' me \<noteq> None \<and> (\<forall>k. True \<longrightarrow> True)"
    using e s d(3) by (auto simp: api wr localMap_upd old applyTo_def setTo_def)
  show "\<exists>cl'. apiMergeMany (serviceApi e me) cl keys (valuesOf (\<lambda>k. Some (v k)) keys) (bucketsOf bucketOf keys) = Inr cl'
      \<and> localMap me cl' = (\<lambda>k. if k \<in> requested keys then localMap me cl k @ v k else localMap me cl k) \<and> cl' me \<noteq> None
      \<and> (\<forall>k. True \<longrightarrow> True)"
    using e s d(3) by (auto simp: api wr localMap_upd old applyTo_def appendTo_def)
  show "\<exists>cl'. apiDeleteMany (serviceApi e me) cl keys (bucketsOf bucketOf keys) = Inr cl'
      \<and> localMap me cl' = (\<lambda>k. if k \<in> requested keys then [] else localMap me cl k) \<and> cl' me \<noteq> None"
    using e s d(3) by (auto simp: api wr localMap_upd old applyTo_def cleared_def nilToEmpty_def)
qed

context local_service
begin

lemma service: "key_value_service (serviceApi e me) opID bucketOf (localMap me) (\<lambda>cl K. cl me \<noteq> None) (\<lambda>cl K. cl me \<noteq> None) (\<lambda>_ _. True)"
  by unfold_locales

end

interpretation stopped: local_service "e\<lparr>ReconfigProtocol := ''stop-and-restart''\<rparr>" for e
  by unfold_locales simp

end
