(* ===== verification/State_Batches.thy ===== *)
theory State_Batches
  imports Client_Setup By_Key Local_Service
begin

text \<open>
  State client and state service together: a batch of a stateful operator under every protocol. The caches, the
  encodings, the choice between overwriting and appending, and the place where a key lives do not show: a batch
  reads the stored tuples and leaves what the operations of the user mean.
\<close>

text \<open>C3. A batch of a simple state client under the \<open>by-key\<close> protocol. For keys of buckets that the worker
  tracks, wherever their states are: the fetch returns, every cached state is the stored list of tuples, the operations
  of the user succeed, and after the flush the map of all workers has for every fetched state and key the encoding of
  the tuples that the operations leave (nothing when the state was cleared), and is unchanged elsewhere. A state
  that is cleared after it had tuples must be in the key map of its bucket.\<close>

theorem by_key_batch:
  assumes "byKey e" "range_order ord" and "batch isSimple mu kk b P tb sc ids keys A script"
    and "stateClientType sc = SimpleStateClient" "\<forall>k \<in> set keys. hasKind kk k"
    and "keysAt me bucketOfKey loc cl (cellKeys (simpleKey mu kk sc) ids keys)"
    and "\<forall>st \<in> set ids. \<forall>u \<in> set keys. nilToEmpty (keyedMap me bucketOfKey cl (simpleKey mu kk sc st u)) = listBytes (tb st) (A st u)
        \<and> (ClearS \<in> set (cellOps script st u) \<and> foldl absOp (A st u) (cellOps script st u) \<noteq> [] \<longrightarrow>
             inKeyMap me bucketOfKey cl (simpleKey mu kk sc st u))"
  shows "\<exists>sc1 cl1 n sc2 cl2 m. FetchSimpleState (serviceApi e me) sc cl keys ids = Some (Inr (sc1, cl1, n))
    \<and> (\<forall>st \<in> set ids. \<forall>u \<in> set keys. GetSimpleState sc1 st u = Inr (fetched (cacheKind (b st)) (A st u)))
    \<and> rfold (\<lambda>sc x. useSimple x sc) sc1 script = Inr sc2
    \<and> FlushSimpleState ord (serviceApi e me) sc2 cl1 = Inr (cl2, m)
    \<and> (\<forall>st \<in> set ids. \<forall>u \<in> set keys. nilToEmpty (keyedMap me bucketOfKey cl2 (simpleKey mu kk sc st u))
         = listBytes (tb st) (opsResult (cellOps script st u) (A st u)))
    \<and> (\<forall>k. k \<notin> cellKeys (simpleKey mu kk sc) ids keys \<longrightarrow>
         nilToEmpty (keyedMap me bucketOfKey cl2 k) = nilToEmpty (keyedMap me bucketOfKey cl k))"
  using key_value_service.simple_batch[OF by_key_service.service[OF by_key_service.intro[OF assms(1)]] assms(3-5) refl refl assms(2)] assms(6, 7)
  by blast

text \<open>A client with one registered state, and a worker that owns the only bucket.\<close>

definition demoConfig :: clientConfig where
  "demoConfig = \<lparr>cfgHash = (\<lambda>_. 0), cfgNumBuckets = 1, StateBackendType = ''pebble''\<rparr>"

definition demoSetup :: "StateClientType \<Rightarrow> stateKind \<Rightarrow> StateClient res" where
  "demoSetup ty k = sc_Setup wideMus KindInt64 (\<lambda>_. [KindInt64]) 7 demoConfig (fst (RegisterState k (NewStateClient ty)))"

definition soloCluster :: cluster where
  "soloCluster = [1 \<mapsto> keyedService 1 Map.empty \<lparr>k2_H = (\<lambda>_. 0), k2_Buckets = [\<lparr>WorkerID = 1, KeyMap = Some []\<rparr>]\<rparr>]"

definition demoTuple :: "int \<Rightarrow> tupleVal" where
  "demoTuple i = \<lparr>tupFields = [NumV i], timestamp = 1000\<rparr>"

lemma demo_batch:
  assumes us: "us \<noteq> []" and A: "\<forall>u \<in> set us. stored k (tuple_ok [KindInt64]) (A 0 u)"
    and scr: "\<forall>(st, u, op) \<in> set script. st = 0 \<and> u \<in> set us \<and> opOk k (tuple_ok [KindInt64]) op"
  shows "\<exists>sc b. demoSetup ty k = Inr sc \<and> stateClientType sc = ty \<and> sc_operatorID sc = 7 \<and> cacheKind (b 0) = k
    \<and> batch (\<lambda>c. isSimple c = (ty = SimpleStateClient)) wideMus KindInt64 b (\<lambda>_. tuple_ok [KindInt64]) (\<lambda>_. tupleBytes wideMus [KindInt64]) sc [0] us A script
    \<and> (\<forall>st kb rest. bucketOfKey (cellKey sc st kb rest) = 0)"
proof -
  let ?c = "(case ty of SimpleStateClient \<Rightarrow> NewSimpleStateCache k | WindowStateClient \<Rightarrow> NewWindowStateCache k) :: fieldVal StateCache"
  let ?i = "StateBackendType demoConfig \<noteq> ''tikv'' \<and> StateBackendType demoConfig \<noteq> ''memory'' \<and> StateBackendType demoConfig \<noteq> ''remote-pebble''"
  let ?sc0 = "fst (RegisterState k (NewStateClient ty))"
  have c0: "sc_cache ?sc0 = [(0, ?c)]" "stateClientType ?sc0 = ty" by (simp_all add: RegisterState_def NewStateClient_def Let_def)
  have isS: "isSimple ?c = (ty = SimpleStateClient)" "cacheKind (cacheBase ?c) = k"
    by (cases ty; simp add: NewSimpleStateCache_def NewWindowStateCache_def newStateCacheBase_def)+
  have pre: "SupportedKind KindInt64" "0 < cfgNumBuckets demoConfig" "cfgNumBuckets demoConfig \<le> 2 ^ 32" "sc_cache ?sc0 \<noteq> []"
    "list_all SupportedKind [KindInt64]"
    using c0(1) by (simp_all add: SupportedKind_def demoConfig_def)
  obtain sc where sc: "demoSetup ty k = Inr sc" "clientOk wideMus KindInt64 sc" "map fst (sc_cache sc) = [0]" "stateClientType sc = ty"
    "sc_operatorID sc = 7"
    and cache: "\<And>st c. map_of (sc_cache ?sc0) st = Some c \<Longrightarrow> \<exists>c' cd. map_of (sc_cache sc) st = Some c' \<and> isSimple c' = isSimple c
       \<and> cacheBase c' = (cacheBase c)\<lparr>cacheCodec := Some cd, allowIncrementalSerialization := ?i\<rparr>
       \<and> codecOk cd (tuple_ok [KindInt64]) (tupleBytes wideMus [KindInt64])"
    unfolding demoSetup_def using setup_ok[where tk = "\<lambda>_. [KindInt64]" and opid = 7, OF wideMus_ok pre] c0 by fastforce
  have "map_of (sc_cache ?sc0) 0 = Some ?c" using c0(1) by simp
  from cache[OF this] obtain c' cd where c1: "map_of (sc_cache sc) 0 = Some c'" "isSimple c' = isSimple ?c"
    "cacheBase c' = (cacheBase ?c)\<lparr>cacheCodec := Some cd, allowIncrementalSerialization := ?i\<rparr>"
    "codecOk cd (tuple_ok [KindInt64]) (tupleBytes wideMus [KindInt64])"
    by blast
  have c': "map_of (sc_cache sc) 0 = Some c'" "isSimple c' = (ty = SimpleStateClient)" "cacheKind (cacheBase c') = k"
    "cacheCodec (cacheBase c') = Some cd" "codecOk cd (tuple_ok [KindInt64]) (tupleBytes wideMus [KindInt64])"
    using c1(1, 2, 4) isS unfolding c1(3) by simp_all
  have "batch (\<lambda>c. isSimple c = (ty = SimpleStateClient)) wideMus KindInt64 (\<lambda>_. cacheBase c') (\<lambda>_. tuple_ok [KindInt64]) (\<lambda>_. tupleBytes wideMus [KindInt64]) sc [0] us A script"
    unfolding batch_def typed_def using sc c' us A scr by auto
  moreover have "sc_numBuckets sc = 1" using sc(1) by (auto simp: demoSetup_def sc_Setup_def Let_def demoConfig_def res_elims split: if_splits)
  then have "bucketOfKey (cellKey sc st kb rest) = 0" for st kb rest
    using bucketOfKey_cell[OF sc(2), of st kb rest] by (simp add: bucketFor_def)
  ultimately show ?thesis using sc(1, 4, 5) c'(3) by (intro exI[of _ sc] exI[of _ "\<lambda>_. cacheBase c'"]) simp
qed

lemma demo_tuples: "tuple_ok [KindInt64] (demoTuple 1)" "tuple_ok [KindInt64] (demoTuple 2)"
  by (simp_all add: tuple_ok_def demoTuple_def SupportedKind_def)

theorem by_key_batch_witness:
  "\<exists>sc sc1 cl1 n sc2 cl2 m. demoSetup SimpleStateClient ListKind = Inr sc
    \<and> FetchSimpleState (serviceApi (pairEnv ''by-key'') 1) sc soloCluster [NumV 5, NumV 5] [0] = Some (Inr (sc1, cl1, n))
    \<and> rfold (\<lambda>sc x. useSimple x sc) sc1 [(0, NumV 5, AddL (demoTuple 1)), (0, NumV 5, AddL (demoTuple 2))] = Inr sc2
    \<and> FlushSimpleState rev (serviceApi (pairEnv ''by-key'') 1) sc2 cl1 = Inr (cl2, m)
    \<and> nilToEmpty (keyedMap 1 bucketOfKey cl2 (simpleKey wideMus KindInt64 sc 0 (NumV 5)))
        = tupleBytes wideMus [KindInt64] (demoTuple 1) @ tupleBytes wideMus [KindInt64] (demoTuple 2)"
proof -
  let ?scr = "[(0, NumV 5, AddL (demoTuple 1)), (0, NumV 5, AddL (demoTuple 2))]" and ?keys = "[NumV 5, NumV 5]"
  obtain sc b where d: "demoSetup SimpleStateClient ListKind = Inr sc" "stateClientType sc = SimpleStateClient" "cacheKind (b 0) = ListKind"
    "batch isSimple wideMus KindInt64 b (\<lambda>_. tuple_ok [KindInt64]) (\<lambda>_. tupleBytes wideMus [KindInt64]) sc [0] ?keys (\<lambda>_ _. []) ?scr"
    "\<forall>st kb rest. bucketOfKey (cellKey sc st kb rest) = 0"
    using demo_batch[of ?keys ListKind "\<lambda>_ _. []" ?scr SimpleStateClient] demo_tuples by (auto simp: stored_def opOk_def)
  have e: "byKey (pairEnv ''by-key'')" by (simp add: byKey_def pairEnv_def range_order_def)
  have at: "keysAt 1 bucketOfKey (\<lambda>_. 1) soloCluster (cellKeys (simpleKey wideMus KindInt64 sc) [0] ?keys)"
    using d(5) by (auto simp: keysAt_def soloCluster_def keyedService_def pairService_def tracked_def localMaps_def localBucket_def
        cellKeys_def simpleKey_def GetWorkerID_def bucketMap_def at_int_def at_idx_def)
  have "nilToEmpty (keyedMap 1 bucketOfKey soloCluster k) = []" for k
    by (auto simp: keyedMap_def soloCluster_def keyedService_def pairService_def valueAt_def mem_look nilToEmpty_def split: sum.splits)
  then have con: "\<forall>st \<in> set [0]. \<forall>u \<in> set ?keys. nilToEmpty (keyedMap 1 bucketOfKey soloCluster (simpleKey wideMus KindInt64 sc st u))
        = listBytes (tupleBytes wideMus [KindInt64]) []
      \<and> (ClearS \<in> set (cellOps ?scr st u) \<and> foldl absOp [] (cellOps ?scr st u) \<noteq> [] \<longrightarrow>
           inKeyMap 1 bucketOfKey soloCluster (simpleKey wideMus KindInt64 sc st u))"
    by (simp add: cellOps_def)
  have r: "range_order (rev :: (u16 \<times> bytes list) list \<Rightarrow> _)" by (simp add: range_order_def)
  have k: "\<forall>k \<in> set ?keys. hasKind KindInt64 k" by simp
  obtain sc1 cl1 n sc2 cl2 m where f: "FetchSimpleState (serviceApi (pairEnv ''by-key'') 1) sc soloCluster ?keys [0] = Some (Inr (sc1, cl1, n))"
    "rfold (\<lambda>sc x. useSimple x sc) sc1 ?scr = Inr sc2" "FlushSimpleState rev (serviceApi (pairEnv ''by-key'') 1) sc2 cl1 = Inr (cl2, m)"
    "\<forall>st \<in> set [0]. \<forall>u \<in> set ?keys. nilToEmpty (keyedMap 1 bucketOfKey cl2 (simpleKey wideMus KindInt64 sc st u))
       = listBytes (tupleBytes wideMus [KindInt64]) (opsResult (cellOps ?scr st u) [])"
    using by_key_batch[OF e r d(4, 2) k at con] by blast
  have "nilToEmpty (keyedMap 1 bucketOfKey cl2 (simpleKey wideMus KindInt64 sc 0 (NumV 5)))
        = tupleBytes wideMus [KindInt64] (demoTuple 1) @ tupleBytes wideMus [KindInt64] (demoTuple 2)"
    using f(4) by (simp add: cellOps_def opsResult_def)
  then show ?thesis using d(1) f(1-3) by blast
qed


text \<open>C4. A batch of a window state client under the \<open>no-migration\<close> protocol: for keys with window start times whose
  buckets the worker can route, wherever their owners are, the fetch returns, every cached state is the stored list of
  tuples, the operations of the user succeed, and after the flush the map of all owners has for every fetched state, key and
  window the encoding of the tuples that the operations leave, and is unchanged elsewhere.\<close>

theorem no_migration_window_batch:
  assumes "noMigration e" "range_order ord" and "batch (\<lambda>c. \<not> isSimple c) mu kk b P tb sc ids us A script"
    and "stateClientType sc = WindowStateClient" "\<forall>u \<in> set us. hasKind kk (fst u) \<and> inKind KindInt64 (snd u)"
    and "served me own bucketOfKey cl (cellKeys (windowKey mu kk sc) ids us)"
    and "\<forall>st \<in> set ids. \<forall>u \<in> set us. nilToEmpty (ownerMap own bucketOfKey cl (windowKey mu kk sc st u)) = listBytes (tb st) (A st u)"
  shows "\<exists>sc1 cl1 n sc2 cl2 m. FetchWindowState mu (serviceApi e me) sc cl (map fst us) (map snd us) ids = Some (Inr (sc1, cl1, n))
    \<and> (\<forall>st \<in> set ids. \<forall>u \<in> set us. GetWindowState sc1 st (fst u) (snd u) = Inr (fetched (cacheKind (b st)) (A st u)))
    \<and> rfold (\<lambda>sc x. useWindow x sc) sc1 script = Inr sc2
    \<and> FlushWindowState ord (serviceApi e me) sc2 cl1 = Inr (cl2, m)
    \<and> (\<forall>st \<in> set ids. \<forall>u \<in> set us. nilToEmpty (ownerMap own bucketOfKey cl2 (windowKey mu kk sc st u))
         = listBytes (tb st) (opsResult (cellOps script st u) (A st u)))
    \<and> (\<forall>k. k \<notin> cellKeys (windowKey mu kk sc) ids us \<longrightarrow>
         nilToEmpty (ownerMap own bucketOfKey cl2 k) = nilToEmpty (ownerMap own bucketOfKey cl k))"
  using key_value_service.window_batch[OF no_migration_service.service[OF no_migration_service.intro[OF assms(1)]] assms(3-5) refl refl assms(2)] assms(6, 7)
  by blast

text \<open>Worker 1 sets the values of two windows of a key whose bucket is on worker 2, and clears one of them.\<close>

definition awayCluster :: cluster where
  "awayCluster = (let s = \<lambda>w. pairService w Map.empty\<lparr>StateLookupTable := \<lparr>kl_H = (\<lambda>_. 0), kl_Buckets = [Some \<lparr>b_WorkerID = 2\<rparr>]\<rparr>\<rparr> in [1 \<mapsto> s 1, 2 \<mapsto> s 2])"

theorem no_migration_window_batch_witness:
  "\<exists>sc sc1 cl1 n sc2 cl2 m. demoSetup WindowStateClient ValueKind = Inr sc
    \<and> FetchWindowState wideMus (serviceApi (pairEnv ''no-migration'') 1) sc awayCluster [NumV 5, NumV 5] [0, 60] [0] = Some (Inr (sc1, cl1, n))
    \<and> rfold (\<lambda>sc x. useWindow x sc) sc1 [(0, (NumV 5, 60), SetV (demoTuple 1)), (0, (NumV 5, 0), SetV (demoTuple 2)), (0, (NumV 5, 0), ClearS)] = Inr sc2
    \<and> FlushWindowState rev (serviceApi (pairEnv ''no-migration'') 1) sc2 cl1 = Inr (cl2, m)
    \<and> nilToEmpty (ownerMap (\<lambda>_. 2) bucketOfKey cl2 (windowKey wideMus KindInt64 sc 0 (NumV 5, 60))) = tupleBytes wideMus [KindInt64] (demoTuple 1)
    \<and> nilToEmpty (ownerMap (\<lambda>_. 2) bucketOfKey cl2 (windowKey wideMus KindInt64 sc 0 (NumV 5, 0))) = []"
proof -
  let ?scr = "[(0, (NumV 5, 60), SetV (demoTuple 1)), (0, (NumV 5, 0), SetV (demoTuple 2)), (0, (NumV 5, 0), ClearS)]"
  let ?us = "[(NumV 5, 0), (NumV 5, 60)] :: (fieldVal \<times> int) list" and ?own = "\<lambda>_ :: int. 2 :: u16"
  obtain sc b where d: "demoSetup WindowStateClient ValueKind = Inr sc" "stateClientType sc = WindowStateClient"
    "batch (\<lambda>c. \<not> isSimple c) wideMus KindInt64 b (\<lambda>_. tuple_ok [KindInt64]) (\<lambda>_. tupleBytes wideMus [KindInt64]) sc [0] ?us (\<lambda>_ _. []) ?scr"
    "\<forall>st kb rest. bucketOfKey (cellKey sc st kb rest) = 0"
    using demo_batch[of ?us ValueKind "\<lambda>_ _. []" ?scr WindowStateClient] demo_tuples by (auto simp: stored_def opOk_def)
  have e: "noMigration (pairEnv ''no-migration'')" by (simp add: noMigration_def pairEnv_def range_order_def)
  have at: "served 1 ?own bucketOfKey awayCluster (cellKeys (windowKey wideMus KindInt64 sc) [0] ?us)"
    using d(4) by (auto simp: served_def awayCluster_def pairService_def cellKeys_def windowKey_def kl_BucketIdxToWorkerID_def at_idx_def Let_def)
  have con: "\<forall>st \<in> set [0]. \<forall>u \<in> set ?us. nilToEmpty (ownerMap ?own bucketOfKey awayCluster (windowKey wideMus KindInt64 sc st u))
        = listBytes (tupleBytes wideMus [KindInt64]) []"
    by (simp add: ownerMap_def awayCluster_def pairService_def valueAt_def mem_look nilToEmpty_def Let_def)
  have r: "range_order (rev :: (u16 \<times> bytes list) list \<Rightarrow> _)" by (simp add: range_order_def)
  have k: "\<forall>u \<in> set ?us. hasKind KindInt64 (fst u) \<and> inKind KindInt64 (snd u)" by simp
  obtain sc1 cl1 n sc2 cl2 m where f: "FetchWindowState wideMus (serviceApi (pairEnv ''no-migration'') 1) sc awayCluster (map fst ?us) (map snd ?us) [0]
        = Some (Inr (sc1, cl1, n))"
    "rfold (\<lambda>sc x. useWindow x sc) sc1 ?scr = Inr sc2" "FlushWindowState rev (serviceApi (pairEnv ''no-migration'') 1) sc2 cl1 = Inr (cl2, m)"
    "\<forall>st \<in> set [0]. \<forall>u \<in> set ?us. nilToEmpty (ownerMap ?own bucketOfKey cl2 (windowKey wideMus KindInt64 sc st u))
       = listBytes (tupleBytes wideMus [KindInt64]) (opsResult (cellOps ?scr st u) [])"
    using no_migration_window_batch[OF e r d(3, 2) k at con] by blast
  have "nilToEmpty (ownerMap ?own bucketOfKey cl2 (windowKey wideMus KindInt64 sc 0 (NumV 5, 60))) = tupleBytes wideMus [KindInt64] (demoTuple 1)"
    "nilToEmpty (ownerMap ?own bucketOfKey cl2 (windowKey wideMus KindInt64 sc 0 (NumV 5, 0))) = []"
    using f(4) by (simp_all add: cellOps_def opsResult_def)
  moreover have "FetchWindowState wideMus (serviceApi (pairEnv ''no-migration'') 1) sc awayCluster [NumV 5, NumV 5] [0, 60] [0] = Some (Inr (sc1, cl1, n))"
    using f(1) by simp
  ultimately show ?thesis using d(1) f(2, 3) by blast
qed


text \<open>C5. A batch of a simple state client where no protocol moves states while the query runs (\<open>stop-and-restart\<close>):
  the client works on the backend of its own worker and leaves there, for every fetched state and key, the encoding of the tuples
  that the operations of the user leave, and the other keys as they were.\<close>

theorem stopped_batch:
  assumes "ReconfigProtocol e \<noteq> ''lazy''" "range_order ord" and "batch isSimple mu kk b P tb sc ids keys A script"
    and "stateClientType sc = SimpleStateClient" "\<forall>k \<in> set keys. hasKind kk k" "cl me \<noteq> None"
    and "\<forall>st \<in> set ids. \<forall>u \<in> set keys. localMap me cl (simpleKey mu kk sc st u) = listBytes (tb st) (A st u)"
  shows "\<exists>sc1 cl1 n sc2 cl2 m. FetchSimpleState (serviceApi e me) sc cl keys ids = Some (Inr (sc1, cl1, n))
    \<and> (\<forall>st \<in> set ids. \<forall>u \<in> set keys. GetSimpleState sc1 st u = Inr (fetched (cacheKind (b st)) (A st u)))
    \<and> rfold (\<lambda>sc x. useSimple x sc) sc1 script = Inr sc2
    \<and> FlushSimpleState ord (serviceApi e me) sc2 cl1 = Inr (cl2, m)
    \<and> (\<forall>st \<in> set ids. \<forall>u \<in> set keys. localMap me cl2 (simpleKey mu kk sc st u)
         = listBytes (tb st) (opsResult (cellOps script st u) (A st u)))
    \<and> (\<forall>k. k \<notin> cellKeys (simpleKey mu kk sc) ids keys \<longrightarrow> localMap me cl2 k = localMap me cl k)"
  using key_value_service.simple_batch[OF local_service.service[OF local_service.intro[OF assms(1)]] assms(3-5) refl refl assms(2)] assms(6, 7)
  by blast

theorem stopped_batch_witness:
  "\<exists>sc sc1 cl1 n sc2 cl2 m. demoSetup SimpleStateClient ListKind = Inr sc
    \<and> FetchSimpleState (serviceApi ((pairEnv ''by-key'')\<lparr>ReconfigProtocol := ''stop-and-restart''\<rparr>) 1) sc soloCluster [NumV 5, NumV 6] [0] = Some (Inr (sc1, cl1, n))
    \<and> rfold (\<lambda>sc x. useSimple x sc) sc1 [(0, NumV 5, UpdateL [demoTuple 1]), (0, NumV 6, AddL (demoTuple 1)), (0, NumV 6, ClearS)] = Inr sc2
    \<and> FlushSimpleState rev (serviceApi ((pairEnv ''by-key'')\<lparr>ReconfigProtocol := ''stop-and-restart''\<rparr>) 1) sc2 cl1 = Inr (cl2, m)
    \<and> localMap 1 cl2 (simpleKey wideMus KindInt64 sc 0 (NumV 5)) = tupleBytes wideMus [KindInt64] (demoTuple 1)
    \<and> localMap 1 cl2 (simpleKey wideMus KindInt64 sc 0 (NumV 6)) = []"
proof -
  let ?scr = "[(0, NumV 5, UpdateL [demoTuple 1]), (0, NumV 6, AddL (demoTuple 1)), (0, NumV 6, ClearS)]" and ?keys = "[NumV 5, NumV 6]"
  let ?e = "(pairEnv ''by-key'')\<lparr>ReconfigProtocol := ''stop-and-restart''\<rparr>"
  obtain sc b where d: "demoSetup SimpleStateClient ListKind = Inr sc" "stateClientType sc = SimpleStateClient"
    "batch isSimple wideMus KindInt64 b (\<lambda>_. tuple_ok [KindInt64]) (\<lambda>_. tupleBytes wideMus [KindInt64]) sc [0] ?keys (\<lambda>_ _. []) ?scr"
    using demo_batch[of ?keys ListKind "\<lambda>_ _. []" ?scr SimpleStateClient] demo_tuples by (auto simp: stored_def opOk_def)
  have con: "\<forall>st \<in> set [0]. \<forall>u \<in> set ?keys. localMap 1 soloCluster (simpleKey wideMus KindInt64 sc st u) = listBytes (tupleBytes wideMus [KindInt64]) []"
    by (simp add: localMap_def soloCluster_def keyedService_def pairService_def valueAt_def mem_look nilToEmpty_def)
  have side: "ReconfigProtocol ?e \<noteq> ''lazy''" "\<forall>k \<in> set ?keys. hasKind KindInt64 k" "soloCluster 1 \<noteq> None" by (simp_all add: soloCluster_def)
  have r: "range_order (rev :: (u16 \<times> bytes list) list \<Rightarrow> _)" by (simp add: range_order_def)
  obtain sc1 cl1 n sc2 cl2 m where f: "FetchSimpleState (serviceApi ?e 1) sc soloCluster ?keys [0] = Some (Inr (sc1, cl1, n))"
    "rfold (\<lambda>sc x. useSimple x sc) sc1 ?scr = Inr sc2" "FlushSimpleState rev (serviceApi ?e 1) sc2 cl1 = Inr (cl2, m)"
    "\<forall>st \<in> set [0]. \<forall>u \<in> set ?keys. localMap 1 cl2 (simpleKey wideMus KindInt64 sc st u)
       = listBytes (tupleBytes wideMus [KindInt64]) (opsResult (cellOps ?scr st u) [])"
    using stopped_batch[OF side(1) r d(3, 2) side(2, 3) con] by blast
  have "localMap 1 cl2 (simpleKey wideMus KindInt64 sc 0 (NumV 5)) = tupleBytes wideMus [KindInt64] (demoTuple 1)"
    "localMap 1 cl2 (simpleKey wideMus KindInt64 sc 0 (NumV 6)) = []"
    using f(4) by (simp_all add: cellOps_def opsResult_def)
  then show ?thesis using d(1) f(1-3) by blast
qed

end
