(* ===== verification/Client_Facts.thy ===== *)
theory Client_Facts
  imports Client_Setup
begin

text \<open>
  The keys and the values that a state client stores, on their own: the place of a key, the bytes of a state,
  and what the flush refuses.
\<close>

lemma GetBucketIdx_ok:
  assumes c: "clientOk mu kk sc" and k: "hasKind kk key"
  shows "\<exists>b. GetBucketIdx sc key = Inr b \<and> unat b = bucketFor sc (fieldBytes mu kk key)"
proof -
  let ?kb = "fieldBytes mu kk key"
  have mu: "mus_ok mu" using c by (simp add: clientOk_def)
  have s: "keySizer sc key = Inr (length ?kb)" "keyEncoder sc key = Inr ?kb"
    using field_codec[OF mu k] c by (simp_all add: clientOk_def)
  obtain b where "bucketOfBytes sc ?kb = Inr b" "unat b = bucketFor sc ?kb" using bucketOfBytes_ok(1)[OF c] by blast
  then show ?thesis using writeAt_exact[of "replicate (length ?kb) 0" ?kb "[]" "[]"] by (simp add: GetBucketIdx_def s)
qed

text \<open>C6. The key under which a state client stores a state: the client that \<open>Setup\<close> returns encodes every key of the
  registered type, and every window of it, to a key that starts with the operator and with the bucket of the key, which is
  the hash of the key modulo the number of buckets, is within bounds and is the one that \<open>GetBucketIdx\<close> reports.
  Writing another state ID into the key gives the key of that state. Two keys are equal only for the same state, key and
  window.\<close>

theorem state_keys:
  assumes mu: "mus_ok mu" and set_up: "sc_Setup mu kk tk op cfg sc0 = Inr sc" "0 < cfgNumBuckets cfg" "cfgNumBuckets cfg \<le> 2 ^ 32"
    and k: "hasKind kk key" "inKind KindInt64 t"
  shows "\<exists>b sk wk i. encodeSimpleKey sc key st = Inr (sk, b) \<and> encodeWindowKey mu sc key t st = Inr (wk, b)
    \<and> 0 \<le> b \<and> b < cfgNumBuckets cfg \<and> b = uint (cfgHash cfg (fieldBytes mu kk key)) mod cfgNumBuckets cfg
    \<and> GetBucketIdx sc key = Inr i \<and> uint i = b
    \<and> take 6 sk = bePut 2 (unat op) @ bePut 4 (nat b) \<and> take 6 wk = bePut 2 (unat op) @ bePut 4 (nat b)
    \<and> (\<forall>st'. \<exists>sk' wk'. encodeStateID sk st' = Inr sk' \<and> encodeSimpleKey sc key st' = Inr (sk', b)
          \<and> encodeStateID wk st' = Inr wk' \<and> encodeWindowKey mu sc key t st' = Inr (wk', b))
    \<and> (\<forall>st' key' b'. hasKind kk key' \<and> encodeSimpleKey sc key' st' = Inr (sk, b') \<longrightarrow> st' = st \<and> key' = key)
    \<and> (\<forall>st' key' t' b'. hasKind kk key' \<and> inKind KindInt64 t' \<and> encodeWindowKey mu sc key' t' st' = Inr (wk, b') \<longrightarrow>
          st' = st \<and> key' = key \<and> t' = t)"
proof -
  let ?kb = "fieldBytes mu kk key" and ?b = "bucketFor sc (fieldBytes mu kk key)"
  have f: "SupportedKind kk" "keyEncoder sc = EncodeFuncFromKind mu kk" "keySizer sc = TupleSizeFuncFromKind mu kk"
    "sc_numBuckets sc = cfgNumBuckets cfg" "keyHashFunc sc = cfgHash cfg" "sc_operatorID sc = op"
    using set_up(1) by (auto simp: sc_Setup_def Let_def res_elims split: if_splits)
  have c: "clientOk mu kk sc" using mu set_up f by (simp add: clientOk_def)
  note enc = encodeSimpleKey_eq[OF c] encodeWindowKey_eq[OF c]
  have b: "int ?b = uint (cfgHash cfg ?kb) mod cfgNumBuckets cfg" "int ?b < cfgNumBuckets cfg" "?b < 2 ^ 32"
    using bucketOfBytes_ok(2, 3)[OF c, of ?kb] set_up(2) f(4, 5) by (simp_all add: bucketFor_def zmod_int)
  obtain i where i: "GetBucketIdx sc key = Inr i" "uint i = int ?b"
    using GetBucketIdx_ok[OF c k(1)] by (metis uint_nat)
  have pre: "take 6 (cellKey sc st ?kb rest) = bePut 2 (unat op) @ bePut 4 (nat (int ?b))" for rest
    using b(3) f(6) by (simp add: cellKey_def storedKey_def unat_of_nat)
  show ?thesis
    by (rule exI[of _ "int ?b"], rule exI[of _ "cellKey sc st ?kb []"], rule exI[of _ "cellKey sc st ?kb (MarshalNum mu KindInt64 t)"],
        rule exI[of _ i])
      (use b i pre k encodeStateID_cell time_inject[OF mu] cellKey_inject[OF mu] in \<open>auto simp: enc\<close>)
qed

theorem state_keys_witness:
  "\<exists>sc b sk wk i. sc_Setup wideMus KindInt64 (\<lambda>_. [KindInt64]) 7 \<lparr>cfgHash = (\<lambda>k. of_nat (length k)), cfgNumBuckets = 5, StateBackendType = ''pebble''\<rparr>
        (fst (RegisterState ListKind (NewStateClient SimpleStateClient))) = Inr sc
    \<and> encodeSimpleKey sc (NumV 3) 0 = Inr (sk, b) \<and> encodeWindowKey wideMus sc (NumV 3) 60 0 = Inr (wk, b)
    \<and> b = 3 \<and> GetBucketIdx sc (NumV 3) = Inr i \<and> uint i = b"
proof -
  let ?cfg = "\<lparr>cfgHash = (\<lambda>k. of_nat (length k)), cfgNumBuckets = 5, StateBackendType = ''pebble''\<rparr>"
  let ?sc0 = "fst (RegisterState ListKind (NewStateClient SimpleStateClient))"
  have "SupportedKind KindInt64" "0 < cfgNumBuckets ?cfg" "cfgNumBuckets ?cfg \<le> 2 ^ 32" "sc_cache ?sc0 \<noteq> []" "list_all SupportedKind [KindInt64]"
    by (simp_all add: SupportedKind_def RegisterState_def NewStateClient_def Let_def)
  then obtain sc where sc: "sc_Setup wideMus KindInt64 (\<lambda>_. [KindInt64]) 7 ?cfg ?sc0 = Inr sc"
    using setup_ok[where tk = "\<lambda>_. [KindInt64]", OF wideMus_ok] by blast
  have "uint (of_nat (length (fieldBytes wideMus KindInt64 (NumV 3))) :: u64) mod 5 = 3"
    by (simp add: fieldBytes_def EncodeFuncFromKind_def wideMus_def)
  then show ?thesis using sc state_keys[OF wideMus_ok sc, of "NumV 3" 60 0] by fastforce
qed

text \<open>C7. Round trip of a state: the bytes of a value state are read back to the tuple; the bytes of a list state are read back
  to its tuples, in order. When tuples are appended to a list that was read from storage, the incremental serialization yields
  exactly the bytes to append: the stored bytes followed by it are the serialization of the whole list.\<close>

theorem state_roundtrip:
  assumes mu: "mus_ok mu" and c: "GetTupleCodec mu kinds = Inr c"
    and ts: "list_all (tuple_ok kinds) ts" "ts \<noteq> []" and new: "list_all (tuple_ok kinds) new" "new \<noteq> []"
  shows "\<exists>bs l inc. Serialize c (ListSt (ls_Update ts ls_New)) = Inr bs \<and> bs \<noteq> [] \<and> ls_Deserialize c bs ls_New = Some (Inr l)
    \<and> ls_Get l = ts \<and> HasValue (ListSt l) \<and> \<not> IsUpdated (ListSt l) \<and> \<not> IsAppended (ListSt l)
    \<and> SerializeInc c (ListSt (ls_AddAll new l)) = Inr inc \<and> Serialize c (ListSt (ls_AddAll new l)) = Inr (bs @ inc)
    \<and> (\<exists>l'. ls_Deserialize c (bs @ inc) ls_New = Some (Inr l') \<and> ls_Get l' = ts @ new)
    \<and> (\<exists>vb v. Serialize c (ValueSt (vs_Set (Some (hd ts)) vs_New)) = Inr vb \<and> vs_Deserialize c vb vs_New = Inr v \<and> vs_Get v = (Some (hd ts), True)
         \<and> \<not> IsUpdated (ValueSt v))"
proof -
  let ?tb = "tupleBytes mu kinds"
  have "list_all SupportedKind kinds" using ts by (cases ts) (simp_all add: tuple_ok_def)
  then have ok: "codecOk c (tuple_ok kinds) ?tb" using GetTupleCodec_ok[OF mu, of kinds] c by force
  note ser = serializeFromIndex_ok[OF ok] and de = decodeLoop_ok[OF ok, where pre = "[]" and acc = "[]", simplified]
  let ?l = "ls_New\<lparr>ls_state := ts, ls_base := (ls_base ls_New)\<lparr>hasValue := True\<rparr>, appendStartIdx := length ts\<rparr>"
  let ?v = "vs_New\<lparr>vs_state := Some (hd ts), vs_base := (vs_base vs_New)\<lparr>hasValue := True\<rparr>\<rparr>"
  have h: "tuple_ok kinds (hd ts)" using ts by (cases ts) simp_all
  note v = codecOkD[OF ok h]
  have bs: "listBytes ?tb ts \<noteq> []" using listBytes_empty[OF ok ts(1)] ts(2) by simp
  have "Serialize c (ListSt (ls_Update ts ls_New)) = Inr (listBytes ?tb ts)" using ser[of "ls_Update ts ls_New" 0] ts by (simp add: ls_Update_def)
  moreover have "ls_Deserialize c (listBytes ?tb ts) ls_New = Some (Inr ?l)" using de[OF ts(1)] by (simp add: ls_Deserialize_def ls_New_def)
  moreover have "SerializeInc c (ListSt (ls_AddAll new ?l)) = Inr (listBytes ?tb new)"
    "Serialize c (ListSt (ls_AddAll new ?l)) = Inr (listBytes ?tb ts @ listBytes ?tb new)"
    using ser[of "ls_AddAll new ?l" "length ts"] ser[of "ls_AddAll new ?l" 0] ts new by (simp_all add: ls_AddAll_def)
  moreover have "\<exists>l'. ls_Deserialize c (listBytes ?tb ts @ listBytes ?tb new) ls_New = Some (Inr l') \<and> ls_Get l' = ts @ new"
    using de[of "ts @ new"] ts new by (simp add: ls_Deserialize_def ls_New_def ls_Get_def)
  moreover have "Serialize c (ValueSt (vs_Set (Some (hd ts)) vs_New)) = Inr (?tb (hd ts))" "vs_Deserialize c (?tb (hd ts)) vs_New = Inr ?v"
    using v(2) v(3)[of "replicate (length (?tb (hd ts))) 0"] v(4)[of "[]"] by (simp_all add: vs_Set_def vs_Serialize_def deref_def vs_Deserialize_def)
  then have "\<exists>vb v. Serialize c (ValueSt (vs_Set (Some (hd ts)) vs_New)) = Inr vb \<and> vs_Deserialize c vb vs_New = Inr v \<and> vs_Get v = (Some (hd ts), True)
      \<and> \<not> IsUpdated (ValueSt v)"
    by (intro exI[of _ "?tb (hd ts)"] exI[of _ ?v]) (simp add: IsUpdated_def vs_New_def emptyBase_def vs_Get_def)
  moreover have "ls_Get ?l = ts" "HasValue (ListSt ?l)" "\<not> IsUpdated (ListSt ?l)" "\<not> IsAppended (ListSt ?l)"
    by (simp_all add: ls_Get_def HasValue_def IsUpdated_def ls_New_def emptyBase_def)
  ultimately show ?thesis using bs by blast
qed

theorem state_roundtrip_witness:
  "\<exists>c bs l inc. GetTupleCodec wideMus [KindInt64] = Inr c
    \<and> Serialize c (ListSt (ls_Update [\<lparr>tupFields = [NumV 4], timestamp = 9\<rparr>] ls_New)) = Inr bs \<and> ls_Deserialize c bs ls_New = Some (Inr l)
    \<and> SerializeInc c (ListSt (ls_AddAll [\<lparr>tupFields = [NumV 5], timestamp = 8\<rparr>] l)) = Inr inc
    \<and> Serialize c (ListSt (ls_AddAll [\<lparr>tupFields = [NumV 5], timestamp = 8\<rparr>] l)) = Inr (bs @ inc)"
proof -
  have k: "list_all SupportedKind [KindInt64]" by (simp add: SupportedKind_def)
  obtain c where c: "GetTupleCodec wideMus [KindInt64] = Inr c" using GetTupleCodec_ok[OF wideMus_ok k] by blast
  have t: "list_all (tuple_ok [KindInt64]) [\<lparr>tupFields = [NumV 4], timestamp = 9\<rparr>]" "[\<lparr>tupFields = [NumV 4], timestamp = 9\<rparr>] \<noteq> []"
    "list_all (tuple_ok [KindInt64]) [\<lparr>tupFields = [NumV 5], timestamp = 8\<rparr>]" "[\<lparr>tupFields = [NumV 5], timestamp = 8\<rparr>] \<noteq> []"
    by (simp_all add: tuple_ok_def SupportedKind_def)
  show ?thesis using state_roundtrip[OF wideMus_ok c t] c by blast
qed

text \<open>C28. Reading a state terminates on every stored value, also on bytes that no codec wrote: when the library
  reads no number from zero bytes, deserializing a value or list state returns a state or stops with an error.\<close>

theorem deserialize_terminates:
  assumes c: "GetTupleCodec mu kinds = Inr c" and num: "\<forall>bs v n. UnmarshalNum mu KindInt64 bs = (v, n, False) \<longrightarrow> 0 < n"
  shows "\<exists>r. Deserialize c bs st = Some r"
proof -
  have "0 < n" if d: "valueDecoder c bs = Inr (Some t, n)" for bs t n
  proof -
    have dec: "CreateDecoder mu kinds = Inr (valueDecoder c)" using c by (auto simp: GetTupleCodec_def res_elims)
    have "(case CreateDecoder mu kinds of Inl e \<Rightarrow> Inl e | Inr dec \<Rightarrow> dec bs) = Inr (Some t, n)" using d by (simp add: dec)
    then show ?thesis
      using num by (auto simp: CreateDecoder_def checkKinds_ok res_elims case_prod_beta split: if_splits option.splits)
        (metis add_gr_0 prod.collapse)
  qed
  then have "decodeLoop c bs pos acc \<noteq> None" for pos acc by (rule decodeLoop_returns)
  then show ?thesis
    by (cases st) (auto simp: ls_Deserialize_def obind_def split: option.splits sum.splits)
qed

theorem deserialize_terminates_witness:
  "\<exists>c r. GetTupleCodec wideMus [KindString] = Inr c \<and> Deserialize c [3, 1, 4, 1, 5] (New ListKind) = Some r"
proof -
  have k: "list_all SupportedKind [KindString]" by (simp add: SupportedKind_def)
  obtain c where c: "GetTupleCodec wideMus [KindString] = Inr c" using GetTupleCodec_ok[OF wideMus_ok k] by blast
  have "\<forall>bs v n. UnmarshalNum wideMus KindInt64 bs = (v, n, False) \<longrightarrow> 0 < n" by (simp add: wideMus_def Let_def)
  from deserialize_terminates[OF c this] c show ?thesis by blast
qed



end
