(* ===== verification/Steady_Service.thy ===== *)
theory Steady_Service
  imports Client_Setup No_Migration Local_Service
begin

text \<open>
  Services on which a client can work batch after batch: while \<open>good\<close> holds, every key of \<open>U\<close> can be read and
  changed, and all calls keep it. Over such a service, a window state client keeps a map from cells (a user key with a
  start time) to lists of tuples; the lemmas here are what the window operators rely on.
\<close>

locale steady_service = key_value_service api opID bucketOf content "\<lambda>cl K. good cl \<and> K \<subseteq> U" "\<lambda>cl K. good cl \<and> K \<subseteq> U" "\<lambda>_ _. True"
  for api :: "'c stateApi" and opID :: u16 and bucketOf :: "skey \<Rightarrow> int" and content :: "'c \<Rightarrow> skey \<Rightarrow> bytes"
    and good :: "'c \<Rightarrow> bool" and U :: "skey set"

context local_service
begin

lemma steady: "steady_service (serviceApi e me) opID bucketOf (localMap me) (\<lambda>cl. cl me \<noteq> None) UNIV"
  using lo.key_value_service_axioms by (simp add: steady_service_def)

end

context no_migration_service
begin

lemma steady:
  "steady_service (serviceApi e me) opID bucketOf (\<lambda>cl k. nilToEmpty (ownerMap own bucketOf cl k)) (\<lambda>cl. served me own bucketOf cl U) U"
proof -
  have sub: "served me own bucketOf cl K" if "served me own bucketOf cl U" "K \<subseteq> U" for cl K
    using that unfolding served_def by blast
  show ?thesis
  proof unfold_locales
    fix keys cl bs assume q: "request keys" and h: "served me own bucketOf cl U \<and> requested keys \<subseteq> U"
      and bs: "\<forall>(st, ks) \<in> set keys. map bucketOf ks = bs"
    let ?v = "\<lambda>k. if own (bucketOf k) = me then ownerMap own bucketOf cl k else Some (nilToEmpty (ownerMap own bucketOf cl k))"
    have "routed cl me own bucketOf keys" using served_routed[OF _ q] h by blast
    then have "apiGetMany (serviceApi e me) cl opID keys bs = Inr (cl, valuesOf ?v keys)"
      using noMigration_get[OF e _ _ bs, of cl me own] q by (simp add: serviceApi_def request_def valuesOf_def)
    moreover have "\<forall>k. nilToEmpty (?v k) = nilToEmpty (ownerMap own bucketOf cl k)" by (simp add: nilToEmpty_def)
    ultimately show "\<exists>cl' v. apiGetMany (serviceApi e me) cl opID keys bs = Inr (cl', valuesOf v keys)
        \<and> (\<forall>k \<in> requested keys. nilToEmpty (v k) = nilToEmpty (ownerMap own bucketOf cl k))
        \<and> (\<lambda>k. nilToEmpty (ownerMap own bucketOf cl' k)) = (\<lambda>k. nilToEmpty (ownerMap own bucketOf cl k))
        \<and> (served me own bucketOf cl' U \<and> requested keys \<subseteq> U) \<and> (\<forall>k. True \<longrightarrow> True)"
      using h by blast
  next
    fix keys cl K and v :: "skey \<Rightarrow> bytes"
    assume q: "request keys" and h: "served me own bucketOf cl U \<and> K \<subseteq> U" and k: "requested keys \<subseteq> K"
    then have U: "served me own bucketOf cl U" "requested keys \<subseteq> U" by blast+
    show "\<exists>cl'. apiSetMany (serviceApi e me) cl keys (valuesOf (\<lambda>k. Some (v k)) keys) (bucketsOf bucketOf keys) = Inr cl'
        \<and> (\<lambda>k. nilToEmpty (ownerMap own bucketOf cl' k)) = (\<lambda>k. if k \<in> requested keys then v k else nilToEmpty (ownerMap own bucketOf cl k))
        \<and> (served me own bucketOf cl' U \<and> K \<subseteq> U) \<and> (\<forall>k. True \<longrightarrow> True)"
      using nm.set[OF q U, of v] h by blast
    show "\<exists>cl'. apiMergeMany (serviceApi e me) cl keys (valuesOf (\<lambda>k. Some (v k)) keys) (bucketsOf bucketOf keys) = Inr cl'
        \<and> (\<lambda>k. nilToEmpty (ownerMap own bucketOf cl' k))
            = (\<lambda>k. if k \<in> requested keys then nilToEmpty (ownerMap own bucketOf cl k) @ v k else nilToEmpty (ownerMap own bucketOf cl k))
        \<and> (served me own bucketOf cl' U \<and> K \<subseteq> U) \<and> (\<forall>k. True \<longrightarrow> True)"
      using nm.merge[OF q U, of v] h by blast
    show "\<exists>cl'. apiDeleteMany (serviceApi e me) cl keys (bucketsOf bucketOf keys) = Inr cl'
        \<and> (\<lambda>k. nilToEmpty (ownerMap own bucketOf cl' k)) = (\<lambda>k. if k \<in> requested keys then [] else nilToEmpty (ownerMap own bucketOf cl k))
        \<and> (served me own bucketOf cl' U \<and> K \<subseteq> U)"
      using nm.delete[OF q U] h by blast
  qed
qed

end

interpretation stopped_store: steady_service "serviceApi (e\<lparr>ReconfigProtocol := ''stop-and-restart''\<rparr>) me" opID bucketOf "localMap me" "\<lambda>cl. cl me \<noteq> None" UNIV
  for e me opID bucketOf
  by (rule stopped.steady)

end
