(* ===== verification/Window_Store.thy ===== *)
theory Window_Store
  imports Steady_Service
begin

text \<open>
  What the window operators rely on: over a steady service, a window state client keeps a map \<open>C\<close> from cells (a
  user key with a start time) to lists of tuples. A fetch caches cells, a flush stores the changed ones, and a delete
  empties them.
\<close>

section \<open>States and the tuples they stand for\<close>

text \<open>\<open>CopyFrom\<close> of the two state types.\<close>

definition CopyFrom :: "StateType \<Rightarrow> StateType \<Rightarrow> StateType res" where
  "CopyFrom other s = (case s of
       ValueSt v \<Rightarrow> rbind (vs_CopyFrom other v) (\<lambda>v. Inr (ValueSt v))
     | ListSt l \<Rightarrow> rbind (ls_CopyFrom other l) (\<lambda>l. Inr (ListSt l)))"

definition denotes :: "stateKind \<Rightarrow> tupleVal list \<Rightarrow> StateType \<Rightarrow> bool" where
  "denotes k xs s \<longleftrightarrow> HasValue s \<and> \<not> IsDeleted s \<and> (case s of
       ValueSt v \<Rightarrow> k = ValueKind \<and> (\<exists>t. vs_state v = Some t \<and> xs = [t])
     | ListSt l \<Rightarrow> k = ListKind \<and> ls_state l = xs)"

definition ofKind :: "stateKind \<Rightarrow> StateType \<Rightarrow> bool" where
  "ofKind k s \<longleftrightarrow> (case s of ValueSt v \<Rightarrow> k = ValueKind | ListSt l \<Rightarrow> k = ListKind)"

lemma denotes_kind: "denotes k xs s \<Longrightarrow> ofKind k s"
  by (auto simp: denotes_def ofKind_def split: StateType.splits)

lemma fetched_kind: "ofKind k (fetched k xs)"
  by (cases k) (simp_all add: ofKind_def fetched_def)

lemma CopyFrom_same: "ofKind k s \<Longrightarrow> ofKind k s' \<Longrightarrow> CopyFrom s' s = Inr s'"
  by (auto simp: CopyFrom_def ofKind_def vs_CopyFrom_def ls_CopyFrom_def split: StateType.splits)

lemma fetched_denotes: "stored k P xs \<Longrightarrow> xs \<noteq> [] \<Longrightarrow> denotes k xs (fetched k xs)"
  by (cases k; cases xs) (simp_all add: stored_def denotes_def fetched_def HasValue_def IsDeleted_def emptyBase_def)

lemma fetched_HasValue: "HasValue (fetched k xs) \<longleftrightarrow> xs \<noteq> []"
  by (cases k) (simp_all add: fetched_def HasValue_def vs_New_def ls_New_def emptyBase_def)

lemma fetched_flush: "flushAction b (fetched k xs) = Inr Keep"
  by (cases k) (simp_all add: flushAction_def fetched_def HasValue_def IsDeleted_def IsUpdated_def vs_New_def ls_New_def emptyBase_def)

lemma updated_flush:
  assumes "cacheCodec b = Some cd" "codecOk cd P tb" "denotes k xs s" "IsUpdated s" "list_all P xs" "xs \<noteq> []"
  shows "flushAction b s = Inr (Overwrite (listBytes tb xs))"
proof (cases s)
  case (ValueSt v)
  then obtain t where t: "vs_state v = Some t" "xs = [t]" using assms(3) by (auto simp: denotes_def)
  then have "vs_Serialize cd v = Inr (tb t)" using codecOkD(2, 3)[OF assms(2), of t] assms(5) by (simp add: vs_Serialize_def)
  then show ?thesis using ValueSt assms(1, 3, 4) t by (simp add: flushAction_def denotes_def)
next
  case (ListSt l)
  then have "ls_state l = xs" using assms(3) by (simp add: denotes_def)
  then have "serializeFromIndex cd 0 l = Inr (listBytes tb xs)" using serializeFromIndex_ok[OF assms(2), of l 0] assms(5, 6) by simp
  then show ?thesis using ListSt assms(1, 3, 4) by (simp add: flushAction_def denotes_def)
qed


section \<open>The store of a window state client\<close>

definition validCell :: "kind \<Rightarrow> fieldVal \<times> int \<Rightarrow> bool" where
  "validCell kk u \<longleftrightarrow> hasKind kk (fst u) \<and> inKind KindInt64 (snd u)"

definition windowClient :: "mus \<Rightarrow> kind \<Rightarrow> u16 \<Rightarrow> StateCacheBase \<Rightarrow> (tupleVal \<Rightarrow> bool) \<Rightarrow> (tupleVal \<Rightarrow> bytes) \<Rightarrow> StateClient \<Rightarrow> bool" where
  "windowClient mu kk st b P tb sc \<longleftrightarrow> clientOk mu kk sc \<and> stateClientType sc = WindowStateClient \<and> distinct (map fst (sc_cache sc))
     \<and> (\<exists>c. map_of (sc_cache sc) st = Some c \<and> \<not> isSimple c \<and> cacheBase c = b) \<and> (\<exists>cd. cacheCodec b = Some cd \<and> codecOk cd P tb)"

definition windowStore :: "('c \<Rightarrow> skey \<Rightarrow> bytes) \<Rightarrow> ('c \<Rightarrow> bool) \<Rightarrow> skey set \<Rightarrow> mus \<Rightarrow> kind \<Rightarrow> u16 \<Rightarrow> StateCacheBase \<Rightarrow> (tupleVal \<Rightarrow> bool) \<Rightarrow>
    (tupleVal \<Rightarrow> bytes) \<Rightarrow> (fieldVal \<times> int \<Rightarrow> tupleVal list) \<Rightarrow> StateClient \<Rightarrow> 'c \<Rightarrow> bool" where
  "windowStore content good U mu kk st b P tb C sc cl \<longleftrightarrow> windowClient mu kk st b P tb sc \<and> good cl
     \<and> (\<forall>u. validCell kk u \<longrightarrow> windowKey mu kk sc st u \<in> U \<and> content cl (windowKey mu kk sc st u) = listBytes tb (C u)
          \<and> stored (cacheKind b) P (C u))"

abbreviation cellBucket :: "mus \<Rightarrow> kind \<Rightarrow> StateClient \<Rightarrow> fieldVal \<times> int \<Rightarrow> int" where
  "cellBucket mu kk sc u \<equiv> int (bucketFor sc (fieldBytes mu kk (fst u)))"

definition cached :: "mus \<Rightarrow> kind \<Rightarrow> u16 \<Rightarrow> StateCacheBase \<Rightarrow> (fieldVal \<times> int) list \<Rightarrow> (fieldVal \<times> int \<Rightarrow> StateType) \<Rightarrow> StateClient \<Rightarrow> bool" where
  "cached mu kk st b us val sc \<longleftrightarrow> holding windowEnt (\<lambda>_. b) [st] us (\<lambda>_. val) sc \<and> distinct us \<and> us \<noteq> [] \<and> (\<forall>u \<in> set us. validCell kk u)
     \<and> dedupedKeys sc = map fst us \<and> dedupedWindowStartTimes sc = map snd us
     \<and> serializedKeys sc = [(st, map (windowKey mu kk sc st) us)] \<and> sc_bucketIDs sc = map (cellBucket mu kk sc) us"

lemma windowKey_upd [simp]:
  "windowKey mu kk (sc\<lparr>sc_cache := cs\<rparr>) = windowKey mu kk sc"
  "windowKey mu kk (sc\<lparr>dedupedKeys := ks\<rparr>) = windowKey mu kk sc" "windowKey mu kk (sc\<lparr>sc_bucketIDs := bs\<rparr>) = windowKey mu kk sc"
  "windowKey mu kk (sc\<lparr>serializedKeys := sks\<rparr>) = windowKey mu kk sc" "windowKey mu kk (sc\<lparr>dedupedWindowStartTimes := ts\<rparr>) = windowKey mu kk sc"
  by (simp_all add: windowKey_def cellKey_def bucketFor_def fun_eq_iff)

lemma bucketFor_upd [simp]:
  "bucketFor (sc\<lparr>sc_cache := cs\<rparr>) = bucketFor sc"
  "bucketFor (sc\<lparr>dedupedKeys := ks\<rparr>) = bucketFor sc" "bucketFor (sc\<lparr>sc_bucketIDs := bs\<rparr>) = bucketFor sc"
  "bucketFor (sc\<lparr>serializedKeys := sks\<rparr>) = bucketFor sc" "bucketFor (sc\<lparr>dedupedWindowStartTimes := ts\<rparr>) = bucketFor sc"
  by (simp_all add: bucketFor_def fun_eq_iff)

lemma clientOk_upd [simp]:
  "clientOk mu kk (sc\<lparr>sc_cache := cs\<rparr>) = clientOk mu kk sc"
  "clientOk mu kk (sc\<lparr>dedupedKeys := ks\<rparr>) = clientOk mu kk sc" "clientOk mu kk (sc\<lparr>sc_bucketIDs := bs\<rparr>) = clientOk mu kk sc"
  "clientOk mu kk (sc\<lparr>serializedKeys := sks\<rparr>) = clientOk mu kk sc" "clientOk mu kk (sc\<lparr>dedupedWindowStartTimes := ts\<rparr>) = clientOk mu kk sc"
  by (simp_all add: clientOk_def)

lemma cached_get: "cached mu kk st b us val sc \<Longrightarrow> u \<in> set us \<Longrightarrow> GetWindowState sc st (fst u) (snd u) = Inr (val u)"
  unfolding cached_def using holding_window[of "\<lambda>_. b" "[st]" us "\<lambda>_. val" sc st u] by simp

definition putState :: "u16 \<Rightarrow> fieldVal \<Rightarrow> int \<Rightarrow> StateType \<Rightarrow> StateClient \<Rightarrow> StateClient" where
  "putState st key t s sc = onCache st (storeWindow key t s) sc"

lemma putState_windowClient: 
  assumes "windowClient mu kk st b P tb sc"
  shows "windowClient mu kk st b P tb (putState st key t s sc)"
proof -
  obtain c where c: "map_of (sc_cache sc) st = Some c" "\<not> isSimple c" "cacheBase c = b" using assms by (auto simp: windowClient_def)
  then obtain d where d: "c = WindowCache d" by (cases c) auto
  have "map_of (sc_cache (putState st key t s sc)) st = Some (storeWindow key t s c)"
    using c(1) by (simp add: putState_def map_of_onCache)
  moreover have "map fst (sc_cache (putState st key t s sc)) = map fst (sc_cache sc)"
    by (simp add: putState_def onCache_def case_prod_beta o_def)
  moreover have "clientOk mu kk (putState st key t s sc) = clientOk mu kk sc" "stateClientType (putState st key t s sc) = stateClientType sc"
    by (simp_all add: putState_def onCache_def)
  ultimately show ?thesis using assms c(3) d unfolding windowClient_def by auto
qed

lemma cached_put:
  assumes c: "cached mu kk st b us val sc" and u: "(key, t) \<in> set us"
  shows "cached mu kk st b us (val((key, t) := s)) (putState st key t s sc)"
proof -
  have h: "holding windowEnt (\<lambda>_. b) [st] us (\<lambda>_. val) sc" using c by (simp add: cached_def)
  have "holding windowEnt (\<lambda>_. b) [st] us (\<lambda>st' w. if st' = st \<and> w = (key, t) then s else val w) (putState st key t s sc)"
    unfolding putState_def
  proof (rule onCache_holding[OF h _ u])
    fix c w assume "windowEnt (key, t) c \<noteq> None"
    then obtain d m where d: "c = WindowCache d" "w_cache d = Some m"
      by (auto simp: windowEnt_def windowEntry_def split: StateCache.splits option.splits)
    then show "cacheBase (storeWindow key t s c) = cacheBase c
        \<and> windowEnt w (storeWindow key t s c) = (if w = (key, t) then Some s else windowEnt w c)"
      using windowAt_set[of m key t s w] by (simp add: windowEnt_def windowEntry_def windowAt_def split: option.splits)
  qed simp
  then have "holding windowEnt (\<lambda>_. b) [st] us (\<lambda>_. val((key, t) := s)) (putState st key t s sc)"
    by (auto simp: holding_def)
  then show ?thesis using c unfolding cached_def putState_def onCache_def by simp
qed

lemma windowKey_inj:
  assumes "clientOk mu kk sc" "validCell kk u" "validCell kk u'" "windowKey mu kk sc st u = windowKey mu kk sc st u'"
  shows "u = u'"
proof (rule ccontr)
  assume "u \<noteq> u'"
  then have "cells (windowKey mu kk sc) (cellBucket mu kk sc) bucketOfKey [st] [u, u']"
    using window_cells[of mu kk sc "[u, u']" "[st]"] assms(1-3) by (cases u; cases u') (simp add: validCell_def)
  from cells_inj[OF this, of st st u u'] show False using assms(4) \<open>u \<noteq> u'\<close> by simp
qed

lemma ofold_fst:
  assumes "ofold (\<lambda>cs (st, c). obind (f st c) (\<lambda>c. Some (Inr (cs @ [(st, c)])))) acc xs = Some (Inr cs)"
  shows "map fst cs = map fst acc @ map fst xs"
  using assms
proof (induction xs arbitrary: acc)
  case (Cons x xs)
  obtain st c where x: "x = (st, c)" by (cases x)
  from Cons.prems obtain c' where "ofold (\<lambda>cs (st, c). obind (f st c) (\<lambda>c. Some (Inr (cs @ [(st, c)])))) (acc @ [(st, c')]) xs = Some (Inr cs)"
    unfolding x by (auto simp: obind_eq_Some_Inr)
  from Cons.IH[OF this] show ?case by (simp add: x)
qed simp

lemma fetch_fst: "FetchWindowState mu api sc cl keys ts ids = Some (Inr (sc', cl', n)) \<Longrightarrow> map fst (sc_cache sc') = map fst (sc_cache sc)"
  unfolding FetchWindowState_def refreshCaches_def
  by (auto simp: obind_eq_Some_Inr res_elims Let_def dest: ofold_fst)

lemma range_single: "range_order ord \<Longrightarrow> ord [x] = [x]"
  using range_orderD(1)[of ord "[x]"] by simp

lemma store_put:
  "windowStore content good U mu kk st b P tb C sc cl \<Longrightarrow> windowStore content good U mu kk st b P tb C (putState st key t s sc) cl"
  using putState_windowClient[of mu kk st b P tb sc key t s]
  by (simp add: windowStore_def) (simp add: putState_def onCache_def)

section \<open>Deleting cells\<close>

definition delGroup :: "u16 \<Rightarrow> 'u list \<Rightarrow> ('u \<Rightarrow> 'a) \<Rightarrow> 'u list \<Rightarrow> (u16 \<times> 'a list) list" where
  "delGroup st pairs f xs = (let ys = filter (\<lambda>u. u \<in> set pairs) xs in if ys = [] then [] else [(st, map f ys)])"

lemma delete_fold:
  assumes us: "distinct us" and sc: "dedupedWindowStartTimes sc = map snd us" "serializedKeys sc = [(st, map sk us)]" "sc_bucketIDs sc = map bk us"
    and ord: "range_order ord" and p: "us = pre @ rest"
  shows "rfold (deleteStep ord sc) (delGroup st pairs sk pre, delGroup st pairs bk pre, filter (\<lambda>u. u \<notin> set pre) pairs) (enumerate (length pre) (map fst rest))
    = Inr (delGroup st pairs sk us, delGroup st pairs bk us, filter (\<lambda>u. u \<notin> set us) pairs)"
  using p
proof (induction rest arbitrary: pre)
  case (Cons u rest)
  have i: "us ! length pre = u" "length pre < length us" "u \<notin> set pre" using Cons.prems us by auto
  have at: "at_idx (map snd us) (length pre) = Inr (snd u)" "at_idx (map sk us) (length pre) = Inr (sk u)" "at_idx (map bk us) (length pre) = Inr (bk u)"
    using i(1, 2) by (simp_all add: at_idx_def)
  have "deleteStep ord sc (delGroup st pairs sk pre, delGroup st pairs bk pre, filter (\<lambda>u. u \<notin> set pre) pairs) (length pre, fst u)
      = Inr (delGroup st pairs sk (pre @ [u]), delGroup st pairs bk (pre @ [u]), filter (\<lambda>v. v \<notin> set (pre @ [u])) pairs)"
  proof (cases "u \<in> set pairs")
    case True
    have "removeAll u (filter (\<lambda>v. v \<notin> set pre) pairs) = filter (\<lambda>v. v \<notin> set (pre @ [u])) pairs" by (induction pairs) auto
    then show ?thesis using True i(3) at
      by (simp add: deleteStep_def sc range_single[OF ord] delGroup_def Let_def pushKey_def mslice_def)
  next
    case False
    have "filter (\<lambda>v. v \<notin> set pre) pairs = filter (\<lambda>v. v \<notin> set (pre @ [u])) pairs" using False by (intro filter_cong) auto
    then show ?thesis using False at(1) by (simp add: deleteStep_def sc(1) delGroup_def Let_def)
  qed
  then show ?case using Cons.IH[of "pre @ [u]"] Cons.prems by simp
qed (simp add: delGroup_def)


section \<open>Fetch, flush and delete over a steady service\<close>

lemma windowStoreD:
  assumes "windowStore content good U mu kk st b P tb C sc cl"
  shows "windowClient mu kk st b P tb sc" "clientOk mu kk sc" "stateClientType sc = WindowStateClient" "good cl"
    "\<exists>cd. cacheCodec b = Some cd \<and> codecOk cd P tb"
    "validCell kk u \<Longrightarrow> content cl (windowKey mu kk sc st u) = listBytes tb (C u)" "validCell kk u \<Longrightarrow> stored (cacheKind b) P (C u)"
  using assms unfolding windowStore_def windowClient_def by blast+

lemma cell_keys_in:
  assumes "windowStore content good U mu kk st b P tb C sc cl" "\<forall>u \<in> set us. validCell kk u"
  shows "cellKeys (windowKey mu kk sc) [st] us \<subseteq> U"
  using assms unfolding windowStore_def cellKeys_def by auto

lemma window_cells':
  assumes "clientOk mu kk sc" "\<forall>u \<in> set us. validCell kk u" "distinct us"
  shows "cells (windowKey mu kk sc) (cellBucket mu kk sc) bucketOfKey [st] us"
  by (rule window_cells[OF assms(1) _ assms(3)]) (use assms(2) in \<open>auto simp: validCell_def\<close>)

text \<open>The store after the cells of \<open>us\<close> changed from \<open>C\<close> to \<open>C'\<close>.\<close>

lemma store_changed:
  assumes w: "windowStore content good U mu kk st b P tb C sc cl" and us: "\<forall>u \<in> set us. validCell kk u"
    and good: "good cl'" and new: "\<forall>u \<in> set us. content cl' (windowKey mu kk sc st u) = listBytes tb (C' u) \<and> stored (cacheKind b) P (C' u)"
    and rest: "\<forall>k. k \<notin> cellKeys (windowKey mu kk sc) [st] us \<longrightarrow> content cl' k = content cl k"
  shows "windowStore content good U mu kk st b P tb (\<lambda>u. if u \<in> set us then C' u else C u) sc cl'"
proof -
  have "windowKey mu kk sc st u \<notin> cellKeys (windowKey mu kk sc) [st] us" if "validCell kk u" "u \<notin> set us" for u
    using windowKey_inj[OF windowStoreD(2)[OF w]] that us by (fastforce simp: cellKeys_def)
  then show ?thesis using w good new rest unfolding windowStore_def by simp
qed

context steady_service
begin

lemma fetch_cells:
  assumes w: "windowStore content good U mu kk st b P tb C sc cl" and op: "opID = sc_operatorID sc" and bo: "bucketOf = bucketOfKey"
    and us: "us \<noteq> []" "\<forall>u \<in> set us. validCell kk u"
  shows "\<exists>sc1 cl1 n. FetchWindowState mu api sc cl (map fst us) (map snd us) [st] = Some (Inr (sc1, cl1, n))
    \<and> windowStore content good U mu kk st b P tb C sc1 cl1 \<and> cached mu kk st b (dedup us) (\<lambda>u. fetched (cacheKind b) (C u)) sc1
    \<and> windowKey mu kk sc1 = windowKey mu kk sc \<and> sc_operatorID sc1 = sc_operatorID sc"
proof -
  note d = dedup_ok[of us] and c = windowStoreD[OF w]
  have batch: "batch (\<lambda>c. \<not> isSimple c) mu kk (\<lambda>_. b) (\<lambda>_. P) (\<lambda>_. tb) sc [st] us (\<lambda>_. C) []"
    using w us(1) c(7) us(2) by (auto simp: batch_def windowStore_def windowClient_def typed_def)
  have cs: "cells (windowKey mu kk sc) (cellBucket mu kk sc) bucketOf [st] (dedup us)"
    unfolding bo by (rule window_cells'[OF c(2)]) (use us d in simp_all)
  let ?sc = "\<lambda>cs. sc\<lparr>dedupedKeys := map fst (dedup us), dedupedWindowStartTimes := map snd (dedup us),
      serializedKeys := map (\<lambda>st. (st, map (windowKey mu kk sc st) (dedup us))) [st], sc_bucketIDs := map (cellBucket mu kk sc) (dedup us)\<rparr>\<lparr>sc_cache := cs\<rparr>"
  have key: "\<forall>u \<in> set us. hasKind kk (fst u) \<and> inKind KindInt64 (snd u)" using us(2) by (simp add: validCell_def)
  have r: "good cl \<and> cellKeys (windowKey mu kk sc) [st] us \<subseteq> U" using c(4) cell_keys_in[OF w us(2)] by blast
  have con: "\<forall>st' \<in> set [st]. \<forall>u \<in> set us. content cl (windowKey mu kk sc st' u) = listBytes tb (C u)" using c(6) us(2) by simp
  obtain cs1 cl1 n where f: "FetchWindowState mu api sc cl (map fst us) (map snd us) [st] = Some (Inr (?sc cs1, cl1, n))"
    "holding windowEnt (\<lambda>_. b) [st] (dedup us) (\<lambda>_ u. fetched (cacheKind b) (C u)) (?sc cs1)" "content cl1 = content cl" "good cl1"
    using fetch_window[OF batch c(3) key op cs r con] by auto
  have hold: "cached mu kk st b (dedup us) (\<lambda>u. fetched (cacheKind b) (C u)) (?sc cs1)"
    using f(2) us d unfolding cached_def by auto
  obtain ca where ca: "map_of (sc_cache (?sc cs1)) st = Some ca" "cacheBase ca = b" "\<forall>u \<in> set us. windowEnt u ca \<noteq> None"
    using f(2) d(2) unfolding holding_def by auto
  have "\<not> isSimple ca" using ca(3) us(1) by (cases ca; cases us) (auto simp: windowEnt_def)
  then have "windowClient mu kk st b P tb (?sc cs1)"
    using c(1) fetch_fst[OF f(1)] ca(1, 2) unfolding windowClient_def by simp
  then have "windowStore content good U mu kk st b P tb C (?sc cs1) cl1"
    using w f(3, 4) unfolding windowStore_def by simp
  then show ?thesis using f(1) hold by fastforce
qed

lemma flush_window_cells:
  assumes w: "windowStore content good U mu kk st b P tb C sc cl" and bo: "bucketOf = bucketOfKey" and ord: "range_order ord"
    and ca: "cached mu kk st b us val sc"
    and new: "\<forall>u \<in> set us. val u = fetched (cacheKind b) (C u) \<and> C' u = C u
        \<or> denotes (cacheKind b) (C' u) (val u) \<and> IsUpdated (val u) \<and> list_all P (C' u) \<and> C' u \<noteq> []"
  shows "\<exists>cl' m. FlushWindowState ord api sc cl = Inr (cl', m)
    \<and> windowStore content good U mu kk st b P tb (\<lambda>u. if u \<in> set us then C' u else C u) sc cl'"
proof -
  note c = windowStoreD[OF w]
  have us: "distinct us" "us \<noteq> []" "\<forall>u \<in> set us. validCell kk u" and hold: "holding windowEnt (\<lambda>_. b) [st] us (\<lambda>_. val) sc"
    using ca by (simp_all add: cached_def)
  obtain cd where cd: "cacheCodec b = Some cd" "codecOk cd P tb" using c(5) by blast
  let ?act = "\<lambda>u. if val u = fetched (cacheKind b) (C u) \<and> C' u = C u then Keep else Overwrite (listBytes tb (C' u))"
  have act: "flushAction b (val u) = Inr (?act u)" if "u \<in> set us" for u
    using fetched_flush[of b] updated_flush[OF cd] new that by auto
  obtain d where d: "map_of (sc_cache sc) st = Some d" "cacheBase d = b" "\<forall>u \<in> set us. windowEnt u d = Some (val u)"
    using hold unfolding holding_def by auto
  have cs: "cells (windowKey mu kk sc) (cellBucket mu kk sc) bucketOf [st] us" unfolding bo by (rule window_cells'[OF c(2) us(3, 1)])
  have "GetWindowStateFlushData (map fst us) (map snd us) (map (windowKey mu kk sc st) us) (map (cellBucket mu kk sc) us) d
      = Inr (actData (windowKey mu kk sc st) (cellBucket mu kk sc) ?act us)"
    by (rule window_flush[where val = val, OF us(2) d(2)]) (use d(3) act in blast)
  then have fl: "FlushWindowState ord api sc cl = flushRequests api cl [(st, actData (windowKey mu kk sc st) (cellBucket mu kk sc) ?act us)]"
    using ca d(1) c(3) by (simp add: FlushWindowState_def cached_def range_single[OF ord] gatherFlush_def)
  have h: "good cl \<and> cellKeys (windowKey mu kk sc) [st] us \<subseteq> U" using c(4) cell_keys_in[OF w us(3)] by blast
  obtain cl' nw nm nd where cl': "flushRequests api cl [(st, actData (windowKey mu kk sc st) (cellBucket mu kk sc) ?act us)] = Inr (cl', nw, nm, nd)"
    "\<forall>u \<in> set us. content cl' (windowKey mu kk sc st u) = actOn (?act u) (content cl (windowKey mu kk sc st u))"
    "\<forall>k. k \<notin> cellKeys (windowKey mu kk sc) [st] us \<longrightarrow> content cl' k = content cl k" "good cl'"
    using flush_cells[OF cs h, of "\<lambda>_. ?act"] by auto
  have "\<forall>u \<in> set us. content cl' (windowKey mu kk sc st u) = listBytes tb (C' u) \<and> stored (cacheKind b) P (C' u)"
  proof
    fix u assume u: "u \<in> set us"
    then have "content cl (windowKey mu kk sc st u) = listBytes tb (C u)" "stored (cacheKind b) P (C u)" using c(6, 7) us(3) by blast+
    moreover have "stored (cacheKind b) P (C' u)" if "denotes (cacheKind b) (C' u) (val u)" "list_all P (C' u)"
      using that by (auto simp: stored_def denotes_def split: StateType.splits)
    ultimately show "content cl' (windowKey mu kk sc st u) = listBytes tb (C' u) \<and> stored (cacheKind b) P (C' u)"
      using cl'(2) u new by auto
  qed
  from store_changed[OF w us(3) cl'(4) this cl'(3)] show ?thesis unfolding fl cl'(1) by blast
qed

lemma delete_cells:
  assumes w: "windowStore content good U mu kk st b P tb C sc cl" and bo: "bucketOf = bucketOfKey"
    and us: "us \<noteq> []" "distinct us" "\<forall>u \<in> set us. validCell kk u"
  shows "\<exists>cl'. apiDeleteMany api cl [(st, map (windowKey mu kk sc st) us)] [(st, map (cellBucket mu kk sc) us)] = Inr cl'
    \<and> windowStore content good U mu kk st b P tb (\<lambda>u. if u \<in> set us then [] else C u) sc cl'"
proof -
  note c = windowStoreD[OF w]
  have cs: "cells (windowKey mu kk sc) (cellBucket mu kk sc) bucketOf [st] us" unfolding bo by (rule window_cells'[OF c(2) us(3, 2)])
  have ch: "chosen (\<lambda>_ _. True) (windowKey mu kk sc) [st] us = [(st, map (windowKey mu kk sc st) us)]"
    using us(1) by (cases us) (auto simp: chosen_def)
  let ?k = "[(st, map (windowKey mu kk sc st) us)]"
  have q: "request ?k" using chosen_request[OF cs, of "\<lambda>_ _. True"] ch by simp
  have K: "requested ?k = cellKeys (windowKey mu kk sc) [st] us" by (auto simp: requested_def cellKeys_def)
  have bs: "bucketsOf bucketOf ?k = [(st, map (cellBucket mu kk sc) us)]" using cs by (auto simp: bucketsOf_def cells_def)
  obtain cl' where cl': "apiDeleteMany api cl ?k (bucketsOf bucketOf ?k) = Inr cl'"
    "content cl' = (\<lambda>k. if k \<in> requested ?k then [] else content cl k)" "good cl'"
    using delete[OF q, of cl U] c(4) cell_keys_in[OF w us(3)] K by auto
  have "\<forall>u \<in> set us. content cl' (windowKey mu kk sc st u) = listBytes tb [] \<and> stored (cacheKind b) P []"
    unfolding cl'(2) K by (auto simp: cellKeys_def stored_def)
  from store_changed[OF w us(3) cl'(3) this] show ?thesis using cl'(1, 2) unfolding bs K by auto
qed

lemma delete_all_cells:
  assumes w: "windowStore content good U mu kk st b P tb C sc cl" and bo: "bucketOf = bucketOfKey" and ca: "cached mu kk st b us val sc"
  shows "\<exists>cl'. DeleteAllAndFlush api sc cl = Inr cl' \<and> windowStore content good U mu kk st b P tb (\<lambda>u. if u \<in> set us then [] else C u) sc cl'"
  using delete_cells[OF w bo, of us] ca by (simp add: DeleteAllAndFlush_def cached_def)

lemma delete_many_cells:
  assumes w: "windowStore content good U mu kk st b P tb C sc cl" and bo: "bucketOf = bucketOfKey" and ord: "range_order ord"
    and ca: "cached mu kk st b us val sc" and p: "pairs \<noteq> []" "set pairs \<subseteq> set us"
  shows "\<exists>cl'. DeleteManyAndFlush ord api sc pairs cl = Inr cl' \<and> windowStore content good U mu kk st b P tb (\<lambda>u. if u \<in> set pairs then [] else C u) sc cl'"
proof -
  let ?us = "filter (\<lambda>u. u \<in> set pairs) us"
  have us: "distinct us" "\<forall>u \<in> set us. validCell kk u" using ca by (simp_all add: cached_def)
  have ne: "?us \<noteq> []" and eq: "set ?us = set pairs" using p by (cases pairs; auto simp: filter_empty_conv)+
  have none: "filter (\<lambda>u. u \<notin> set us) pairs = []" using p(2) by (auto simp: filter_empty_conv)
  have "rfold (deleteStep ord sc) ([], [], pairs) (enumerate 0 (dedupedKeys sc))
      = Inr ([(st, map (windowKey mu kk sc st) ?us)], [(st, map (cellBucket mu kk sc) ?us)], [])"
    using delete_fold[OF us(1), of sc st "windowKey mu kk sc st" "cellBucket mu kk sc" ord "[]" us pairs] ca ord ne none
    by (simp add: cached_def delGroup_def Let_def)
  then have "DeleteManyAndFlush ord api sc pairs cl = apiDeleteMany api cl [(st, map (windowKey mu kk sc st) ?us)] [(st, map (cellBucket mu kk sc) ?us)]"
    by (simp add: DeleteManyAndFlush_def)
  moreover have "distinct ?us" "\<forall>u \<in> set ?us. validCell kk u" using us by simp_all
  ultimately show ?thesis using delete_cells[OF w bo ne] unfolding eq by metis
qed

end

end
