(* ===== verification/Window_Index.thy ===== *)
theory Window_Index
  imports Request_Groups Tuple_Codec
begin

text \<open>
  Start times of windows and panes, and the indices of active windows (\<open>tumblingWindow.go\<close>, \<open>slidingWindow.go\<close>).
  An index is a Go map from start times to maps from keys; both kinds of window share that shape.
\<close>

section \<open>Start times\<close>

text \<open>The remainder of Go truncates towards zero.\<close>

definition goRem :: "int \<Rightarrow> int \<Rightarrow> int" where
  "goRem a b = sgn a * (\<bar>a\<bar> mod \<bar>b\<bar>)"

definition getWindowStartTime :: "int \<Rightarrow> int \<Rightarrow> int" where
  "getWindowStartTime duration ts = ts - goRem ts duration"

definition GetPaneStartTime :: "int \<Rightarrow> int \<Rightarrow> int" where
  "GetPaneStartTime ts slide = ts - goRem ts slide"

text \<open>The loop that lists the start times of the windows of a pane; it ends because the slide is positive.\<close>

function upFrom :: "int \<Rightarrow> int \<Rightarrow> int \<Rightarrow> int list" where
  "upFrom i upper slide = (if 0 < slide \<and> i \<le> upper then i # upFrom (i + slide) upper slide else [])"
  by pat_completeness auto
termination by (relation "measure (\<lambda>(i, upper, slide). nat (upper - i + 1))") auto

declare upFrom.simps [simp del]

definition GetSlidingWindowStartTimes :: "int \<Rightarrow> int \<Rightarrow> int \<Rightarrow> int list res" where
  "GetSlidingWindowStartTimes paneStartTime duration slide =
     rbind (fatal_if (goRem duration slide \<noteq> 0) ''Duration must be a multiple of slide'') (\<lambda>_.
     Inr (upFrom (paneStartTime - duration + slide) paneStartTime slide))"

lemma start_floor:
  assumes "0 \<le> t" "0 < d"
  shows "t - goRem t d = d * (t div d)"
  using assms by (simp add: goRem_def sgn_if minus_mod_eq_mult_div)

lemma start_bounds:
  assumes "0 \<le> t" "0 < d"
  shows "0 \<le> t - goRem t d" "t - goRem t d \<le> t" "t < t - goRem t d + d" "d dvd t - goRem t d"
proof -
  show "d dvd t - goRem t d" using start_floor[OF assms] by simp
  have "t - goRem t d = t - t mod d" using assms by (simp add: goRem_def sgn_if)
  then show "0 \<le> t - goRem t d" "t - goRem t d \<le> t" "t < t - goRem t d + d"
    using assms pos_mod_bound[of d t] zmod_le_nonneg_dividend[of t d] pos_mod_sign[of d t] by linarith+
qed

lemma start_unique:
  assumes "0 < (d :: int)" "d dvd w" "w \<le> t" "t < w + d" "0 \<le> t"
  shows "t - goRem t d = w"
proof -
  obtain q where q: "w = d * q" using assms(2) by blast
  have "t div d = q" by (rule int_div_pos_eq[of t d q "t - w"]) (use assms(3, 4) q in simp_all)
  then show ?thesis using start_floor[OF assms(5, 1)] q by simp
qed


lemma upFrom_set:
  assumes "0 < slide"
  shows "set (upFrom i upper slide) = {w. i \<le> w \<and> w \<le> upper \<and> slide dvd w - i}"
  using assms
proof (induction i upper slide rule: upFrom.induct)
  case (1 i upper slide)
  show ?case
  proof (cases "i \<le> upper")
    case True
    have "w = i \<or> i + slide \<le> w" if w: "i \<le> w" "slide dvd w - i" for w
    proof (cases "w = i")
      case False
      then have "slide \<le> w - i" using w zdvd_imp_le[of slide "w - i"] by linarith
      then show ?thesis by linarith
    qed simp
    moreover have "slide dvd w - (i + slide) \<longleftrightarrow> slide dvd w - i" for w
    proof -
      have "w - i = w - (i + slide) + slide" by simp
      then show ?thesis by (metis dvd_add_triv_right_iff)
    qed
    ultimately have "{w. i \<le> w \<and> w \<le> upper \<and> slide dvd w - i} = insert i {w. i + slide \<le> w \<and> w \<le> upper \<and> slide dvd w - (i + slide)}"
      using True 1(2) by auto
    then show ?thesis using 1(1)[OF _ 1(2)] True 1(2) by (subst upFrom.simps) simp
  next
    case False
    then show ?thesis by (subst upFrom.simps) auto
  qed
qed

lemma upFrom_distinct: "distinct (upFrom i upper slide)"
proof (induction i upper slide rule: upFrom.induct)
  case (1 i upper slide)
  then show ?case
  proof (cases "0 < slide \<and> i \<le> upper")
    case True
    then have "distinct (upFrom (i + slide) upper slide)" "i \<notin> set (upFrom (i + slide) upper slide)"
      using 1 by (simp_all add: upFrom_set)
    then show ?thesis by (subst upFrom.simps) simp
  qed (subst upFrom.simps, auto)
qed

text \<open>The windows of a pane: all that start at a multiple of the slide and contain it.\<close>

lemma window_starts:
  assumes "0 < slide" "slide dvd duration" "slide dvd p"
  shows "\<exists>ws. GetSlidingWindowStartTimes p duration slide = Inr ws \<and> distinct ws
    \<and> set ws = {w. slide dvd w \<and> w \<le> p \<and> p + slide \<le> w + duration}"
proof -
  have "goRem duration slide = 0" using assms(2) by (auto simp: goRem_def sgn_if dvd_eq_mod_eq_0[symmetric])
  moreover have "slide dvd w - (p - duration + slide) \<longleftrightarrow> slide dvd w" for w
    using dvd_diff_left_iff[of slide "p - duration + slide" w] assms(2, 3) by auto
  ultimately show ?thesis using upFrom_set[OF assms(1), of "p - duration + slide" p] upFrom_distinct
    by (intro exI[of _ "upFrom (p - duration + slide) p slide"]) (auto simp: GetSlidingWindowStartTimes_def)
qed


section \<open>Nested maps\<close>

type_synonym 'p windowMap = "(int, (fieldVal, 'p) gomap) gomap"

definition entry :: "'p windowMap \<Rightarrow> int \<Rightarrow> fieldVal \<Rightarrow> 'p option" where
  "entry idx t k = (case map_of idx t of None \<Rightarrow> None | Some m \<Rightarrow> map_of m k)"

definition wfIndex :: "'p windowMap \<Rightarrow> bool" where
  "wfIndex idx \<longleftrightarrow> distinct (map fst idx) \<and> (\<forall>(t, m) \<in> set idx. distinct (map fst m))"

text \<open>Remove a window, and its start time with the last window that has it. The two indices have the same code.\<close>

definition idx_Remove :: "fieldVal \<Rightarrow> int \<Rightarrow> 'p windowMap \<Rightarrow> 'p windowMap" where
  "idx_Remove key t idx = (case map_of idx t of
       None \<Rightarrow> idx
     | Some windows \<Rightarrow> (let windows = AList.delete key windows in
         if length windows = 0 then AList.delete t idx else AList.update t windows idx))"

definition idx_put :: "fieldVal \<Rightarrow> int \<Rightarrow> 'p \<Rightarrow> 'p windowMap \<Rightarrow> 'p windowMap" where
  "idx_put key t v idx = AList.update t (AList.update key v (mslice idx t)) idx"

lemma entry_empty [simp]: "entry [] t k = None"
  by (simp add: entry_def)

lemma entry_put: "entry (idx_put key t v idx) t' k = (if t' = t \<and> k = key then Some v else entry idx t' k)"
  by (auto simp: entry_def idx_put_def mslice_def split: option.splits)

lemma entry_Remove: "entry (idx_Remove key t idx) t' k = (if t' = t \<and> k = key then None else entry idx t' k)"
proof (cases "map_of idx t")
  case (Some m)
  have "map_of m k = None" if "AList.delete key m = []" "k \<noteq> key" for k
    using map_of_delete[of key m] that by (metis fun_upd_other map_of.simps(1))
  then show ?thesis using Some by (auto simp: entry_def idx_Remove_def Let_def)
qed (auto simp: entry_def idx_Remove_def)

lemma set_delete: "x \<in> set (AList.delete k m) \<longleftrightarrow> x \<in> set m \<and> fst x \<noteq> k"
  by (induction m) auto

lemma set_update_sub: "x \<in> set (AList.update k v m) \<Longrightarrow> x \<in> set m \<or> x = (k, v)"
  by (induction m) (auto split: if_splits)

lemma wf_put: "wfIndex idx \<Longrightarrow> wfIndex (idx_put key t v idx)"
  by (auto simp: wfIndex_def idx_put_def mslice_def dest!: set_update_sub split: option.splits dest: map_of_SomeD)

lemma wf_Remove: "wfIndex idx \<Longrightarrow> wfIndex (idx_Remove key t idx)"
proof (cases "map_of idx t")
  case (Some m)
  assume w: "wfIndex idx"
  then have "distinct (map fst m)" using Some by (auto simp: wfIndex_def dest: map_of_SomeD)
  then have d: "distinct (map fst (AList.delete key m))" by (simp add: distinct_delete)
  show ?thesis using w d Some
    by (auto simp: wfIndex_def idx_Remove_def Let_def set_delete distinct_delete dest!: set_update_sub)
qed (simp add: idx_Remove_def)

lemma entry_mem:
  assumes "wfIndex idx"
  shows "entry idx t k = Some v \<longleftrightarrow> (\<exists>m. (t, m) \<in> set idx \<and> (k, v) \<in> set m)"
proof
  show "entry idx t k = Some v \<Longrightarrow> \<exists>m. (t, m) \<in> set idx \<and> (k, v) \<in> set m"
    by (auto simp: entry_def split: option.splits dest: map_of_SomeD)
  assume "\<exists>m. (t, m) \<in> set idx \<and> (k, v) \<in> set m"
  then obtain m where m: "(t, m) \<in> set idx" "(k, v) \<in> set m" by blast
  then have "map_of idx t = Some m" "map_of m k = Some v" using assms by (auto simp: wfIndex_def)
  then show "entry idx t k = Some v" by (simp add: entry_def)
qed

text \<open>The windows that end at the watermark or before, in the order in which the two ranges visit them.\<close>

definition dueWindows :: "(('p windowMap) \<Rightarrow> 'p windowMap) \<Rightarrow> ((fieldVal, 'p) gomap \<Rightarrow> (fieldVal, 'p) gomap) \<Rightarrow> int \<Rightarrow> 'p windowMap \<Rightarrow>
    (fieldVal \<times> int \<times> 'p) list" where
  "dueWindows ordT ordK threshold idx =
     concat (map (\<lambda>(t, m). if t \<le> threshold then map (\<lambda>(k, v). (k, t, v)) (ordK m) else []) (ordT idx))"

lemma set_dueWindows:
  assumes "range_order ordT" "range_order ordK" "wfIndex idx"
  shows "set (dueWindows ordT ordK threshold idx) = {(k, t, v). entry idx t k = Some v \<and> t \<le> threshold}"
  unfolding dueWindows_def using range_orderD(2)[OF assms(1)] range_orderD(2)[OF assms(2)] entry_mem[OF assms(3)]
  by (fastforce split: if_splits)

lemma distinct_dueWindows:
  assumes "range_order ordT" "range_order ordK" "wfIndex idx"
  shows "distinct (map (\<lambda>(k, t, v). (k, t)) (dueWindows ordT ordK threshold idx))"
proof -
  let ?f = "\<lambda>(t, m). if t \<le> threshold then map (\<lambda>(k, v). (k, t)) (ordK m) else []"
  have "map (\<lambda>(k, t, v). (k, t)) (dueWindows ordT ordK threshold idx) = concat (map ?f (ordT idx))"
    by (auto simp: dueWindows_def map_concat o_def intro!: arg_cong[where f = concat])
  moreover have "distinct (concat (map ?f xs))" if "distinct (map fst xs)" "\<forall>(t, m) \<in> set xs. distinct (map fst m)" for xs
    using that
  proof (induction xs)
    case (Cons x xs)
    obtain t m where x: "x = (t, m)" by (cases x)
    have "mset (map fst (ordK m)) = mset (map fst m)" using range_orderD(1)[OF assms(2), of m] by (simp only: mset_map)
    then have "distinct (map fst (ordK m))" using Cons.prems(2) x by (metis case_prodD list.set_intros(1) mset_eq_imp_distinct_iff)
    then have "distinct (map (\<lambda>k. (k, t)) (map fst (ordK m)))" 
      by (subst distinct_map) (auto simp: inj_on_def simp del: map_map)
    then have "distinct (map (\<lambda>(k, v). (k, t)) (ordK m))" by (simp add: case_prod_beta' o_def)
    moreover have "snd ` set (?f x) \<subseteq> {t}" "t \<notin> snd ` set (concat (map ?f xs))" using Cons.prems(1) x by (force split: if_splits)+
    ultimately show ?case using Cons x by (fastforce split: if_splits)
  qed simp
  moreover have "distinct (map fst (ordT idx))" "\<forall>(t, m) \<in> set (ordT idx). distinct (map fst m)"
    using assms(3) range_orderD(1, 2)[OF assms(1), of idx] unfolding wfIndex_def
    by (metis mset_eq_imp_distinct_iff mset_map, simp)
  ultimately show ?thesis by simp
qed

end
