(* ===== verification/Window_Batch.thy ===== *)
theory Window_Batch
  imports Window_Store Window_Index
begin

text \<open>
  What the window operators share: the aggregator with the functions of the user (\<open>aggregator.go\<close>), the records that an
  operator emits, and \<open>ProcessBatch\<close>, which is the same for tumbling and sliding windows up to the start time of a record
  and the index.
\<close>

section \<open>Aggregators and emitted records\<close>

record Aggregator =
  NewFunc :: StateType
  AddFunc :: "StateType \<Rightarrow> tupleVal \<Rightarrow> StateType"
  OutFunc :: "StateType \<Rightarrow> tupleVal"
  MergeFunc :: "StateType \<Rightarrow> StateType \<Rightarrow> StateType"

text \<open>What an operator hands to its collector: \<open>Emit\<close> stamps a record with the current timestamp.\<close>

record emitter =
  CurrentTimestamp :: int
  emitted :: "tupleVal list"

definition SetCurrentTimestamp :: "int \<Rightarrow> emitter \<Rightarrow> emitter" where
  "SetCurrentTimestamp t c = c\<lparr>CurrentTimestamp := t\<rparr>"

definition Emit :: "tupleVal \<Rightarrow> emitter \<Rightarrow> emitter" where
  "Emit r c = c\<lparr>emitted := emitted c @ [r\<lparr>timestamp := CurrentTimestamp c\<rparr>]\<rparr>"

text \<open>The contract of the user functions: they work on the tuples of a state. \<open>new\<close>, \<open>add\<close>, \<open>merge\<close> and \<open>out\<close> say how, for
  records \<open>R\<close>; an accumulator that has seen a record is marked as updated and has tuples, all of the registered type.\<close>

definition aggOk :: "stateKind \<Rightarrow> (tupleVal \<Rightarrow> bool) \<Rightarrow> (tupleVal \<Rightarrow> bool) \<Rightarrow> Aggregator \<Rightarrow> tupleVal list \<Rightarrow> (tupleVal list \<Rightarrow> tupleVal \<Rightarrow> tupleVal list) \<Rightarrow>
    (tupleVal list \<Rightarrow> tupleVal list \<Rightarrow> tupleVal list) \<Rightarrow> (tupleVal list \<Rightarrow> tupleVal) \<Rightarrow> bool" where
  "aggOk k P R agg new add merge out \<longleftrightarrow> denotes k new (NewFunc agg)
     \<and> (\<forall>xs s r. denotes k xs s \<and> R r \<longrightarrow> denotes k (add xs r) (AddFunc agg s r) \<and> IsUpdated (AddFunc agg s r))
     \<and> (\<forall>xs r. (xs = new \<or> list_all P xs) \<and> R r \<longrightarrow> list_all P (add xs r) \<and> add xs r \<noteq> [])
     \<and> (\<forall>xs s ys s'. denotes k xs s \<and> denotes k ys s' \<longrightarrow> denotes k (merge xs ys) (MergeFunc agg s s'))
     \<and> (\<forall>xs s. denotes k xs s \<longrightarrow> OutFunc agg s = out xs)"


section \<open>Processing a batch\<close>

text \<open>One record: \<open>addIdx\<close> adds a new cell to the index, \<open>cell\<close> is the key and the start time of a record.\<close>

definition addRecord :: "u16 \<Rightarrow> Aggregator \<Rightarrow> (fieldVal \<Rightarrow> int \<Rightarrow> 'i \<Rightarrow> 'i res) \<Rightarrow> (tupleVal \<Rightarrow> fieldVal \<times> int) \<Rightarrow>
    StateClient \<times> 'i \<Rightarrow> tupleVal \<Rightarrow> (StateClient \<times> 'i) res" where
  "addRecord stateID agg addIdx cell = (\<lambda>(sc, idx) record. case cell record of (key, start) \<Rightarrow>
     rbind (GetWindowState sc stateID key start) (\<lambda>curState.
     rbind (if \<not> HasValue curState
            then rbind (CopyFrom (NewFunc agg) curState) (\<lambda>curState. rbind (addIdx key start idx) (\<lambda>idx. Inr (curState, idx)))
            else Inr (curState, idx)) (\<lambda>(curState, idx).
     rbind (CopyFrom (AddFunc agg curState record) curState) (\<lambda>curState.
     Inr (putState stateID key start curState sc, idx)))))"

definition aggregateBatch :: "((u16 \<times> bytes list) list \<Rightarrow> (u16 \<times> bytes list) list) \<Rightarrow> mus \<Rightarrow> 'c stateApi \<Rightarrow> u16 \<Rightarrow> Aggregator \<Rightarrow>
    (fieldVal \<Rightarrow> int \<Rightarrow> 'i \<Rightarrow> 'i res) \<Rightarrow> (tupleVal \<Rightarrow> fieldVal \<times> int) \<Rightarrow> StateClient \<times> 'i \<Rightarrow> 'c \<Rightarrow> tupleVal list \<Rightarrow>
    (StateClient \<times> 'i \<times> 'c) run" where
  "aggregateBatch ordS mu api stateID agg addIdx cell = (\<lambda>(sc, idx) cl records.
     obind (FetchWindowState mu api sc cl (map (fst \<circ> cell) records) (map (snd \<circ> cell) records) [stateID]) (\<lambda>(sc, cl, _).
     obind (Some (rfold (addRecord stateID agg addIdx cell) (sc, idx) records)) (\<lambda>(sc, idx).
     obind (Some (FlushWindowState ordS api sc cl)) (\<lambda>(cl, _).
     Some (Inr (sc, idx, cl))))))"


section \<open>Cells and their records\<close>

lemma ofold_append: "ofold f s (xs @ ys) = obind (ofold f s xs) (\<lambda>s. ofold f s ys)"
proof (induction xs arbitrary: s)
  case (Cons x xs)
  then show ?case by (cases "f s x") (auto simp: obind_def split: option.splits sum.splits)
qed simp

definition cellRecs :: "('r \<Rightarrow> 'u) \<Rightarrow> 'r list \<Rightarrow> 'u \<Rightarrow> 'r list" where
  "cellRecs cell rs u = filter (\<lambda>r. cell r = u) rs"

lemma cellRecs_append [simp]: "cellRecs cell (xs @ ys) u = cellRecs cell xs u @ cellRecs cell ys u"
  by (simp add: cellRecs_def)

lemma cellRecs_empty: "cellRecs cell rs u = [] \<longleftrightarrow> u \<notin> cell ` set rs"
  by (auto simp: cellRecs_def filter_empty_conv)

lemma dedup_snoc: "dedup (xs @ [x]) = (if x \<in> set xs then dedup xs else dedup xs @ [x])"
  using dedup_ok(2)[of xs] by (simp add: dedup_def)

lemma dedup_distinct: "distinct xs \<Longrightarrow> dedup xs = xs"
  by (induction xs rule: rev_induct) (simp_all add: dedup_snoc, simp add: dedup_def)

definition accumulated :: "tupleVal list \<Rightarrow> (tupleVal list \<Rightarrow> tupleVal \<Rightarrow> tupleVal list) \<Rightarrow> tupleVal list \<Rightarrow> tupleVal list \<Rightarrow> tupleVal list" where
  "accumulated new add xs rs = (if rs = [] then xs else foldl add (if xs = [] then new else xs) rs)"

lemma accumulated_ok:
  assumes a: "aggOk k P R agg new add merge out" and "list_all P xs" "list_all R rs" "rs \<noteq> []"
  shows "list_all P (accumulated new add xs rs)" "accumulated new add xs rs \<noteq> []"
proof -
  have step: "\<And>xs r. (xs = new \<or> list_all P xs) \<and> R r \<Longrightarrow> list_all P (add xs r) \<and> add xs r \<noteq> []" using a unfolding aggOk_def by blast
  have "list_all P (foldl add ys rs) \<and> foldl add ys rs \<noteq> []" if "ys = new \<or> list_all P ys" for ys
    using assms(3, 4) that
  proof (induction rs rule: rev_induct)
    case (snoc r rs)
    show ?case
    proof (cases "rs = []")
      case True
      then show ?thesis using step[of ys r] snoc.prems by simp
    next
      case False
      then show ?thesis using snoc step[of "foldl add ys rs" r] by simp
    qed
  qed simp
  then show "list_all P (accumulated new add xs rs)" "accumulated new add xs rs \<noteq> []"
    using assms(2, 4) by (simp_all add: accumulated_def)
qed

lemma accumulated_append:
  assumes "aggOk k P R agg new add merge out" "list_all P xs" "list_all R rs"
  shows "accumulated new add (accumulated new add xs rs) rs' = accumulated new add xs (rs @ rs')"
  using accumulated_ok(2)[OF assms] by (cases "rs = []") (auto simp: accumulated_def)


section \<open>A batch over a steady service\<close>

text \<open>After some records: the cached states stand for the accumulated tuples, the new cells are in the index.\<close>

lemma records_added:
  assumes agg: "aggOk (cacheKind b) P R agg new add merge out"
    and w: "windowStore content good U mu kk st b P tb C sc cl" and ca: "cached mu kk st b us (\<lambda>u. fetched (cacheKind b) (C u)) sc"
    and rs: "list_all R rs" "cell ` set rs \<subseteq> set us"
    and idx: "rfold (\<lambda>i u. addIdx (fst u) (snd u) i) idx (filter (\<lambda>u. C u = []) (dedup (map cell rs))) = Inr idx'"
  shows "\<exists>sc' val. rfold (addRecord st agg addIdx cell) (sc, idx) rs = Inr (sc', idx')
    \<and> windowStore content good U mu kk st b P tb C sc' cl \<and> cached mu kk st b us val sc'
    \<and> windowKey mu kk sc' = windowKey mu kk sc \<and> sc_operatorID sc' = sc_operatorID sc
    \<and> (\<forall>u \<in> set us. if cellRecs cell rs u = [] then val u = fetched (cacheKind b) (C u)
         else denotes (cacheKind b) (accumulated new add (C u) (cellRecs cell rs u)) (val u) \<and> IsUpdated (val u))"
  using rs idx
proof (induction rs arbitrary: idx' rule: rev_induct)
  case Nil
  then show ?case using w ca by (auto simp: cellRecs_def dedup_def)
next
  case (snoc r rs)
  obtain key t where u: "cell r = (key, t)" by (cases "cell r")
  let ?u = "(key, t)"
  let ?new = "C ?u = [] \<and> ?u \<notin> cell ` set rs"
  have ded: "filter (\<lambda>u. C u = []) (dedup (map cell (rs @ [r]))) = filter (\<lambda>u. C u = []) (dedup (map cell rs)) @ (if ?new then [?u] else [])"
    using u by (auto simp: dedup_snoc)
  then obtain i where i: "rfold (\<lambda>i u. addIdx (fst u) (snd u) i) idx (filter (\<lambda>u. C u = []) (dedup (map cell rs))) = Inr i"
    "if ?new then addIdx key t i = Inr idx' else idx' = i"
    using snoc.prems(3) by (auto simp: rfold_append res_elims split: if_splits)
  obtain sc' val where IH: "rfold (addRecord st agg addIdx cell) (sc, idx) rs = Inr (sc', i)"
    "windowStore content good U mu kk st b P tb C sc' cl" "cached mu kk st b us val sc'"
    "windowKey mu kk sc' = windowKey mu kk sc" "sc_operatorID sc' = sc_operatorID sc"
    "\<forall>u \<in> set us. if cellRecs cell rs u = [] then val u = fetched (cacheKind b) (C u)
         else denotes (cacheKind b) (accumulated new add (C u) (cellRecs cell rs u)) (val u) \<and> IsUpdated (val u)"
    using snoc.IH[OF _ _ i(1)] snoc.prems(1, 2) by auto
  have us: "?u \<in> set us" using snoc.prems(2) u by force
  have valid: "validCell kk ?u" using us ca by (simp add: cached_def)
  note st = windowStoreD(7)[OF w valid]
  let ?k = "cacheKind b" and ?xs = "if C ?u = [] \<and> cellRecs cell rs ?u = [] then new else accumulated new add (C ?u) (cellRecs cell rs ?u)"
  have A: "denotes ?k new (NewFunc agg)" "\<And>xs s. denotes ?k xs s \<Longrightarrow> denotes ?k (add xs r) (AddFunc agg s r) \<and> IsUpdated (AddFunc agg s r)"
    using agg snoc.prems(1) unfolding aggOk_def by auto
  have get: "GetWindowState sc' st key t = Inr (val ?u)" using cached_get[OF IH(3) us] by simp
  have seen: "HasValue (val ?u) = (\<not> ?new)" "denotes ?k ?xs (if ?new then NewFunc agg else val ?u)" "ofKind ?k (val ?u)"
  proof -
    show "HasValue (val ?u) = (\<not> ?new)"
      using IH(6) us by (auto simp: cellRecs_empty fetched_HasValue denotes_def split: if_splits)
    show "denotes ?k ?xs (if ?new then NewFunc agg else val ?u)"
      using IH(6) us A(1) fetched_denotes[OF st] by (auto simp: cellRecs_empty accumulated_def split: if_splits)
    show "ofKind ?k (val ?u)" using IH(6) us fetched_kind denotes_kind by (metis (no_types))
  qed
  let ?s = "if ?new then NewFunc agg else val ?u" and ?s' = "AddFunc agg (if ?new then NewFunc agg else val ?u) r"
  have s': "denotes ?k (add ?xs r) ?s'" "IsUpdated ?s'" using A(2)[OF seen(2)] by blast+
  have cp: "CopyFrom (NewFunc agg) (val ?u) = Inr (NewFunc agg)" "CopyFrom ?s' ?s = Inr ?s'"
    using CopyFrom_same[OF seen(3) denotes_kind[OF A(1)]] CopyFrom_same[OF denotes_kind[OF seen(2)] denotes_kind[OF s'(1)]] by auto
  have "addRecord st agg addIdx cell (sc', i) r = Inr (putState st key t ?s' sc', idx')"
    using get seen(1) cp i(2) u by (auto simp: addRecord_def split: if_splits)
  then have run: "rfold (addRecord st agg addIdx cell) (sc, idx) (rs @ [r]) = Inr (putState st key t ?s' sc', idx')"
    using IH(1) by (simp add: rfold_append)
  have ca': "cached mu kk st b us (val(?u := ?s')) (putState st key t ?s' sc')" by (rule cached_put[OF IH(3) us])
  have acc: "accumulated new add (C ?u) (cellRecs cell (rs @ [r]) ?u) = add ?xs r" "cellRecs cell (rs @ [r]) ?u \<noteq> []"
    using u by (auto simp: accumulated_def cellRecs_def)
  have "\<forall>v \<in> set us. if cellRecs cell (rs @ [r]) v = [] then (val(?u := ?s')) v = fetched ?k (C v)
      else denotes ?k (accumulated new add (C v) (cellRecs cell (rs @ [r]) v)) ((val(?u := ?s')) v) \<and> IsUpdated ((val(?u := ?s')) v)"
  proof
    fix v assume v: "v \<in> set us"
    show "if cellRecs cell (rs @ [r]) v = [] then (val(?u := ?s')) v = fetched ?k (C v)
      else denotes ?k (accumulated new add (C v) (cellRecs cell (rs @ [r]) v)) ((val(?u := ?s')) v) \<and> IsUpdated ((val(?u := ?s')) v)"
    proof (cases "v = ?u")
      case True
      show ?thesis unfolding True fun_upd_same acc(1) if_not_P[OF acc(2)] using s' by (rule conjI)
    next
      case False
      then have "cellRecs cell (rs @ [r]) v = cellRecs cell rs v" using u by (simp add: cellRecs_def)
      then show ?thesis using IH(6) v False by simp
    qed
  qed
  moreover have "windowKey mu kk (putState st key t ?s' sc') = windowKey mu kk sc" "sc_operatorID (putState st key t ?s' sc') = sc_operatorID sc"
    using IH(4, 5) by (simp_all add: putState_def onCache_def)
  ultimately show ?case using run store_put[OF IH(2)] ca' by blast
qed

context steady_service
begin

lemma batch_aggregated:
  assumes agg: "aggOk (cacheKind b) P R agg new add merge out" and ord: "range_order ordS"
    and w: "windowStore content good U mu kk st b P tb C sc cl" and op: "opID = sc_operatorID sc" and bo: "bucketOf = bucketOfKey"
    and rs: "list_all R rs" "rs \<noteq> []" "\<forall>r \<in> set rs. validCell kk (cell r)"
    and idx: "rfold (\<lambda>i u. addIdx (fst u) (snd u) i) idx (filter (\<lambda>u. C u = []) (dedup (map cell rs))) = Inr idx'"
  shows "\<exists>sc' cl'. aggregateBatch ordS mu api st agg addIdx cell (sc, idx) cl rs = Some (Inr (sc', idx', cl'))
    \<and> windowStore content good U mu kk st b P tb (\<lambda>u. accumulated new add (C u) (cellRecs cell rs u)) sc' cl'
    \<and> sc_operatorID sc' = sc_operatorID sc"
proof -
  let ?us = "map cell rs"
  have us: "?us \<noteq> []" "\<forall>u \<in> set ?us. validCell kk u" using rs(2, 3) by auto
  obtain sc1 cl1 n where f: "FetchWindowState mu api sc cl (map fst ?us) (map snd ?us) [st] = Some (Inr (sc1, cl1, n))"
    "windowStore content good U mu kk st b P tb C sc1 cl1" "cached mu kk st b (dedup ?us) (\<lambda>u. fetched (cacheKind b) (C u)) sc1"
    "sc_operatorID sc1 = sc_operatorID sc"
    using fetch_cells[OF w op bo us] by blast
  have sub: "cell ` set rs \<subseteq> set (dedup ?us)" by (simp add: dedup_ok)
  obtain sc2 val where r: "rfold (addRecord st agg addIdx cell) (sc1, idx) rs = Inr (sc2, idx')"
    "windowStore content good U mu kk st b P tb C sc2 cl1" "cached mu kk st b (dedup ?us) val sc2" "sc_operatorID sc2 = sc_operatorID sc1"
    "\<forall>u \<in> set (dedup ?us). if cellRecs cell rs u = [] then val u = fetched (cacheKind b) (C u)
         else denotes (cacheKind b) (accumulated new add (C u) (cellRecs cell rs u)) (val u) \<and> IsUpdated (val u)"
    using records_added[OF agg f(2, 3) rs(1) sub idx] by blast
  let ?C = "\<lambda>u. accumulated new add (C u) (cellRecs cell rs u)"
  have new: "\<forall>u \<in> set (dedup ?us). val u = fetched (cacheKind b) (C u) \<and> ?C u = C u
      \<or> denotes (cacheKind b) (?C u) (val u) \<and> IsUpdated (val u) \<and> list_all P (?C u) \<and> ?C u \<noteq> []"
  proof
    fix u assume u: "u \<in> set (dedup ?us)"
    then have ne: "cellRecs cell rs u \<noteq> []" by (simp add: cellRecs_empty dedup_ok)
    have "validCell kk u" using u us(2) unfolding dedup_ok by blast
    then have "list_all P (C u)" using windowStoreD(7)[OF w] by (simp add: stored_def)
    moreover have "list_all R (cellRecs cell rs u)" using rs(1) by (auto simp: cellRecs_def list_all_iff)
    ultimately have "list_all P (?C u)" "?C u \<noteq> []" using accumulated_ok[OF agg] ne by blast+
    then show "val u = fetched (cacheKind b) (C u) \<and> ?C u = C u
      \<or> denotes (cacheKind b) (?C u) (val u) \<and> IsUpdated (val u) \<and> list_all P (?C u) \<and> ?C u \<noteq> []" using r(5) u ne by auto
  qed
  obtain cl' m where fl: "FlushWindowState ordS api sc2 cl1 = Inr (cl', m)"
    "windowStore content good U mu kk st b P tb (\<lambda>u. if u \<in> set (dedup ?us) then ?C u else C u) sc2 cl'"
    using flush_window_cells[OF r(2) bo ord r(3) new] by blast
  have "(\<lambda>u. if u \<in> set (dedup ?us) then ?C u else C u) = ?C"
    using cellRecs_empty[of cell rs] by (auto simp: fun_eq_iff dedup_ok accumulated_def)
  then show ?thesis using f(1, 4) r(1, 4) fl by (auto simp: aggregateBatch_def)
qed

end

end
