(* ===== verification/Tumbling_Window.thy ===== *)
theory Tumbling_Window
  imports Window_Batch
begin

text \<open>
  Tumbling windows (\<open>tumblingWindow.go\<close>): the index of active windows, processing a batch, and firing the windows that a
  watermark closes. Over a steady service the operator emits what a naive operator emits that buffers all records.
\<close>

section \<open>The index\<close>

type_synonym tumblingIndex = "unit windowMap"

definition ti_Exists :: "fieldVal \<Rightarrow> int \<Rightarrow> tumblingIndex \<Rightarrow> bool" where
  "ti_Exists key t idx = (case map_of idx t of None \<Rightarrow> False | Some windows \<Rightarrow> map_of windows key \<noteq> None)"

definition ti_Add :: "fieldVal \<Rightarrow> int \<Rightarrow> tumblingIndex \<Rightarrow> tumblingIndex" where
  "ti_Add key t idx =
     (let idx = (if map_of idx t = None then AList.update t [] idx else idx) in
      AList.update t (AList.update key () (mslice idx t)) idx)"

definition ti_GetWindowsToBeFired :: "(tumblingIndex \<Rightarrow> tumblingIndex) \<Rightarrow> ((fieldVal, unit) gomap \<Rightarrow> (fieldVal, unit) gomap) \<Rightarrow>
    int \<Rightarrow> int \<Rightarrow> tumblingIndex \<Rightarrow> fieldVal list \<times> int list" where
  "ti_GetWindowsToBeFired ordT ordK curTime winDuration idx =
     (let threshold = curTime - winDuration in
      foldl (\<lambda>(keys, timestamps) (winStartTime, windows).
        if winStartTime \<le> threshold
        then foldl (\<lambda>(keys, timestamps) (key, _). (keys @ [key], timestamps @ [winStartTime])) (keys, timestamps) (ordK windows)
        else (keys, timestamps)) ([], []) (ordT idx))"


section \<open>The operator\<close>

record TumblingWindow =
  tw_StateID :: u16
  tw_Aggregator :: Aggregator
  tw_Duration :: int
  tw_Index :: tumblingIndex
  tw_KeyAssigner :: "tupleVal \<Rightarrow> fieldVal"
  tw_StateClient :: StateClient
  tw_Collector :: emitter

definition NewTumblingWindow :: "(tupleVal \<Rightarrow> fieldVal) \<Rightarrow> Aggregator \<Rightarrow> stateKind \<Rightarrow> int \<Rightarrow> TumblingWindow res" where
  "NewTumblingWindow keyAssigner aggregator kind duration =
     rbind (fatal_if (duration \<le> 0) ''Duration should be positive'') (\<lambda>_.
     case RegisterState kind (NewStateClient WindowStateClient) of (sc, stateID) \<Rightarrow>
       Inr \<lparr>tw_StateID = stateID, tw_Aggregator = aggregator, tw_Duration = duration, tw_Index = [], tw_KeyAssigner = keyAssigner,
            tw_StateClient = sc, tw_Collector = \<lparr>CurrentTimestamp = -1, emitted = []\<rparr>\<rparr>)"

definition tw_cell :: "TumblingWindow \<Rightarrow> tupleVal \<Rightarrow> fieldVal \<times> int" where
  "tw_cell tw record = (tw_KeyAssigner tw record, getWindowStartTime (tw_Duration tw) (timestamp record))"

definition tw_ProcessBatch :: "((u16 \<times> bytes list) list \<Rightarrow> (u16 \<times> bytes list) list) \<Rightarrow> mus \<Rightarrow> 'c stateApi \<Rightarrow> TumblingWindow \<Rightarrow> 'c \<Rightarrow>
    tupleVal list \<Rightarrow> (TumblingWindow \<times> 'c) run" where
  "tw_ProcessBatch ordS mu api tw cl records =
     obind (aggregateBatch ordS mu api (tw_StateID tw) (tw_Aggregator tw) (\<lambda>key t idx. Inr (ti_Add key t idx)) (tw_cell tw)
              (tw_StateClient tw, tw_Index tw) cl records) (\<lambda>(sc, idx, cl).
     Some (Inr (tw\<lparr>tw_StateClient := sc, tw_Index := idx\<rparr>, cl)))"

definition tw_fire :: "TumblingWindow \<Rightarrow> fieldVal \<times> int \<Rightarrow> TumblingWindow res" where
  "tw_fire tw = (\<lambda>(key, t).
     rbind (GetWindowState (tw_StateClient tw) (tw_StateID tw) key t) (\<lambda>closedWindow.
     Inr (tw\<lparr>tw_Collector := Emit (OutFunc (tw_Aggregator tw) closedWindow) (SetCurrentTimestamp (t + tw_Duration tw) (tw_Collector tw)),
             tw_Index := idx_Remove key t (tw_Index tw)\<rparr>)))"

definition tw_ProcessProgressedWatermark :: "(tumblingIndex \<Rightarrow> tumblingIndex) \<Rightarrow> ((fieldVal, unit) gomap \<Rightarrow> (fieldVal, unit) gomap) \<Rightarrow> mus \<Rightarrow>
    'c stateApi \<Rightarrow> TumblingWindow \<Rightarrow> 'c \<Rightarrow> int \<Rightarrow> (TumblingWindow \<times> 'c) run" where
  "tw_ProcessProgressedWatermark ordT ordK mu api tw cl wm =
     (case ti_GetWindowsToBeFired ordT ordK wm (tw_Duration tw) (tw_Index tw) of (keys, timestamps) \<Rightarrow>
        if length keys = 0 then Some (Inr (tw, cl))
        else obind (FetchWindowState mu api (tw_StateClient tw) cl keys timestamps [tw_StateID tw]) (\<lambda>(sc, cl, _).
             obind (Some (rfold tw_fire (tw\<lparr>tw_StateClient := sc\<rparr>) (zip keys timestamps))) (\<lambda>tw.
             obind (Some (DeleteAllAndFlush api (tw_StateClient tw) cl)) (\<lambda>cl.
             Some (Inr (tw, cl))))))"

text \<open>The task hands batches and progressed watermarks to the operator.\<close>

datatype winEvent = Records "tupleVal list" | Progress int

record winOrders =
  ordStates :: "(u16 \<times> bytes list) list \<Rightarrow> (u16 \<times> bytes list) list"
  ordStarts :: "tumblingIndex \<Rightarrow> tumblingIndex"
  ordKeys :: "(fieldVal, unit) gomap \<Rightarrow> (fieldVal, unit) gomap"

definition tw_handle :: "winOrders \<Rightarrow> mus \<Rightarrow> 'c stateApi \<Rightarrow> TumblingWindow \<times> 'c \<Rightarrow> winEvent \<Rightarrow> (TumblingWindow \<times> 'c) run" where
  "tw_handle ords mu api = (\<lambda>(tw, cl) ev. case ev of
       Records records \<Rightarrow> tw_ProcessBatch (ordStates ords) mu api tw cl records
     | Progress wm \<Rightarrow> tw_ProcessProgressedWatermark (ordStarts ords) (ordKeys ords) mu api tw cl wm)"


section \<open>Lemmas on the index\<close>

lemma ti_Exists_entry: "ti_Exists key t idx \<longleftrightarrow> entry idx t key \<noteq> None"
  by (auto simp: ti_Exists_def entry_def split: option.splits)

lemma ti_Add_put: "entry (ti_Add key t idx) t' k = entry (idx_put key t () idx) t' k" "wfIndex idx \<Longrightarrow> wfIndex (ti_Add key t idx)"
proof -
  have "ti_Add key t idx = (if map_of idx t = None then idx_put key t () (AList.update t [] idx) else idx_put key t () idx)"
    by (simp add: ti_Add_def idx_put_def)
  moreover have "wfIndex (AList.update t [] idx)" if "wfIndex idx" using that by (auto simp: wfIndex_def dest!: set_update_sub)
  moreover have "entry (AList.update t [] idx) t' k = entry idx t' k" if "map_of idx t = None" for t' k
    using that by (auto simp: entry_def)
  ultimately show "entry (ti_Add key t idx) t' k = entry (idx_put key t () idx) t' k" "wfIndex idx \<Longrightarrow> wfIndex (ti_Add key t idx)"
    using wf_put by (auto simp: entry_put)
qed

lemma fired_due:
  "ti_GetWindowsToBeFired ordT ordK wm d idx
    = (map fst (map (\<lambda>(k, t, v). (k, t)) (dueWindows ordT ordK (wm - d) idx)), map snd (map (\<lambda>(k, t, v). (k, t)) (dueWindows ordT ordK (wm - d) idx)))"
proof -
  have inner: "foldl (\<lambda>(keys, timestamps) (key, _). (keys @ [key], timestamps @ [t])) (ks, ts) m
      = (ks @ map fst m, ts @ map (\<lambda>_. t) m)" for ks ts t and m :: "(fieldVal, unit) gomap"
    by (induction m arbitrary: ks ts) auto
  have outer: "foldl (\<lambda>(keys, timestamps) (winStartTime, windows).
        if winStartTime \<le> wm - d
        then foldl (\<lambda>(keys, timestamps) (key, _). (keys @ [key], timestamps @ [winStartTime])) (keys, timestamps) (ordK windows)
        else (keys, timestamps)) (ks, ts) xs
      = (ks @ map fst (concat (map (\<lambda>(t, m). if t \<le> wm - d then map (\<lambda>(k, v). (k, t)) (ordK m) else []) xs)),
         ts @ map snd (concat (map (\<lambda>(t, m). if t \<le> wm - d then map (\<lambda>(k, v). (k, t)) (ordK m) else []) xs)))" for ks ts xs
  proof (induction xs arbitrary: ks ts)
    case (Cons x xs)
    obtain t m where x: "x = (t, m)" by (cases x)
    have e: "map (fst \<circ> (\<lambda>(k, v). (k, t))) (ordK m) = map fst (ordK m)" "map (snd \<circ> (\<lambda>(k, v). (k, t))) (ordK m) = map (\<lambda>_. t) (ordK m)"
      by auto
    show ?case using Cons.IH by (simp add: x inner e)
  qed simp
  have "map (\<lambda>(k, t, v). (k, t)) (dueWindows ordT ordK (wm - d) idx)
      = concat (map (\<lambda>(t, m). if t \<le> wm - d then map (\<lambda>(k, v). (k, t)) (ordK m) else []) (ordT idx))"
    by (auto simp: dueWindows_def map_concat o_def intro!: arg_cong[where f = concat])
  then show ?thesis using outer[of "[]" "[]"] by (simp add: ti_GetWindowsToBeFired_def)
qed


lemma ti_Add_all:
  assumes "wfIndex idx"
  shows "wfIndex (foldl (\<lambda>i u. ti_Add (fst u) (snd u) i) idx us)"
    and "entry (foldl (\<lambda>i u. ti_Add (fst u) (snd u) i) idx us) t k \<noteq> None \<longleftrightarrow> entry idx t k \<noteq> None \<or> (k, t) \<in> set us"
  using assms by (induction us arbitrary: idx) (auto simp: ti_Add_put entry_put)

lemma Remove_all:
  shows "wfIndex idx \<Longrightarrow> wfIndex (foldl (\<lambda>i u. idx_Remove (fst u) (snd u) i) idx us)"
    and "entry (foldl (\<lambda>i u. idx_Remove (fst u) (snd u) i) idx us) t k = (if (k, t) \<in> set us then None else entry idx t k)"
  by (induction us arbitrary: idx) (auto simp: wf_Remove entry_Remove)


section \<open>The naive operator\<close>

text \<open>It buffers all records and, at a watermark, emits the result \<open>f\<close> of the records of every window that has ended.\<close>

fun naiveWindows :: "(tupleVal \<Rightarrow> fieldVal \<times> int) \<Rightarrow> int \<Rightarrow> (tupleVal list \<Rightarrow> tupleVal) \<Rightarrow> tupleVal list \<times> tupleVal list \<Rightarrow> winEvent \<Rightarrow>
    tupleVal list \<times> tupleVal list" where
  "naiveWindows cell d f (buf, outs) (Records rs) = (buf @ rs, outs)"
| "naiveWindows cell d f (buf, outs) (Progress wm) =
     (filter (\<lambda>r. wm < snd (cell r) + d) buf,
      outs @ map (\<lambda>u. (f (cellRecs cell buf u))\<lparr>timestamp := snd u + d\<rparr>) (remdups (map cell (filter (\<lambda>r. snd (cell r) + d \<le> wm) buf))))"

definition twInv :: "('c \<Rightarrow> skey \<Rightarrow> bytes) \<Rightarrow> ('c \<Rightarrow> bool) \<Rightarrow> skey set \<Rightarrow> mus \<Rightarrow> kind \<Rightarrow> StateCacheBase \<Rightarrow> (tupleVal \<Rightarrow> bool) \<Rightarrow> (tupleVal \<Rightarrow> bytes) \<Rightarrow>
    (tupleVal \<Rightarrow> bool) \<Rightarrow> tupleVal list \<Rightarrow> (tupleVal list \<Rightarrow> tupleVal \<Rightarrow> tupleVal list) \<Rightarrow> tupleVal list \<Rightarrow> TumblingWindow \<Rightarrow> 'c \<Rightarrow> bool" where
  "twInv content good U mu kk b P tb R new add buf tw cl \<longleftrightarrow>
     windowStore content good U mu kk (tw_StateID tw) b P tb (\<lambda>u. accumulated new add [] (cellRecs (tw_cell tw) buf u)) (tw_StateClient tw) cl
     \<and> wfIndex (tw_Index tw) \<and> (\<forall>t k. entry (tw_Index tw) t k \<noteq> None \<longleftrightarrow> (k, t) \<in> tw_cell tw ` set buf)
     \<and> list_all R buf \<and> (\<forall>r \<in> set buf. validCell kk (tw_cell tw r))"

definition sameWindow :: "TumblingWindow \<Rightarrow> TumblingWindow \<Rightarrow> bool" where
  "sameWindow tw tw' \<longleftrightarrow> tw_StateID tw' = tw_StateID tw \<and> tw_Aggregator tw' = tw_Aggregator tw \<and> tw_Duration tw' = tw_Duration tw
     \<and> tw_KeyAssigner tw' = tw_KeyAssigner tw \<and> sc_operatorID (tw_StateClient tw') = sc_operatorID (tw_StateClient tw)"

lemma sameWindow_cell: "sameWindow tw tw' \<Longrightarrow> tw_cell tw' = tw_cell tw"
  by (simp add: sameWindow_def tw_cell_def fun_eq_iff)

lemma fire_all:
  assumes "cached mu kk (tw_StateID tw) b us val (tw_StateClient tw)" "set ps \<subseteq> set us"
  shows "\<exists>c. rfold tw_fire tw ps = Inr (tw\<lparr>tw_Collector := c, tw_Index := foldl (\<lambda>i u. idx_Remove (fst u) (snd u) i) (tw_Index tw) ps\<rparr>)
    \<and> emitted c = emitted (tw_Collector tw) @ map (\<lambda>u. (OutFunc (tw_Aggregator tw) (val u))\<lparr>timestamp := snd u + tw_Duration tw\<rparr>) ps"
  using assms
proof (induction ps arbitrary: tw)
  case (Cons p ps tw)
  obtain key t where p: "p = (key, t)" by (cases p)
  let ?c = "Emit (OutFunc (tw_Aggregator tw) (val p)) (SetCurrentTimestamp (t + tw_Duration tw) (tw_Collector tw))"
  let ?tw = "tw\<lparr>tw_Collector := ?c, tw_Index := idx_Remove key t (tw_Index tw)\<rparr>"
  have "tw_fire tw p = Inr ?tw" using cached_get[OF Cons.prems(1), of p] Cons.prems(2) by (simp add: tw_fire_def p)
  moreover have "emitted ?c = emitted (tw_Collector tw) @ [(OutFunc (tw_Aggregator tw) (val p))\<lparr>timestamp := t + tw_Duration tw\<rparr>]"
    by (simp add: Emit_def SetCurrentTimestamp_def)
  ultimately show ?case using Cons.IH[of ?tw] Cons.prems p by auto
next
  case (Nil tw)
  then show ?case by (intro exI[of _ "tw_Collector tw"]) simp
qed

context steady_service
begin

lemma tw_batch:
  assumes agg: "aggOk (cacheKind b) P R (tw_Aggregator tw) new add merge out" and ord: "range_order ordS"
    and inv: "twInv content good U mu kk b P tb R new add buf tw cl"
    and op: "opID = sc_operatorID (tw_StateClient tw)" and bo: "bucketOf = bucketOfKey"
    and rs: "list_all R rs" "rs \<noteq> []" "\<forall>r \<in> set rs. validCell kk (tw_cell tw r)"
  shows "\<exists>tw' cl'. tw_ProcessBatch ordS mu api tw cl rs = Some (Inr (tw', cl')) \<and> twInv content good U mu kk b P tb R new add (buf @ rs) tw' cl'
    \<and> sameWindow tw tw' \<and> tw_Collector tw' = tw_Collector tw"
proof -
  let ?C = "\<lambda>u. accumulated new add [] (cellRecs (tw_cell tw) buf u)" and ?st = "tw_StateID tw"
  have w: "windowStore content good U mu kk ?st b P tb ?C (tw_StateClient tw) cl" and wf: "wfIndex (tw_Index tw)"
    and ent: "\<forall>t k. entry (tw_Index tw) t k \<noteq> None \<longleftrightarrow> (k, t) \<in> tw_cell tw ` set buf" and buf: "list_all R buf"
    using inv by (simp_all add: twInv_def)
  let ?new = "filter (\<lambda>u. ?C u = []) (dedup (map (tw_cell tw) rs))"
  let ?idx = "foldl (\<lambda>i u. ti_Add (fst u) (snd u) i) (tw_Index tw) ?new"
  have idx: "rfold (\<lambda>i u. (\<lambda>key t idx. Inr (ti_Add key t idx)) (fst u) (snd u) i) (tw_Index tw) ?new = Inr ?idx"
    by (simp add: rfold_pure)
  obtain sc' cl' where b: "aggregateBatch ordS mu api ?st (tw_Aggregator tw) (\<lambda>key t idx. Inr (ti_Add key t idx)) (tw_cell tw)
        (tw_StateClient tw, tw_Index tw) cl rs = Some (Inr (sc', ?idx, cl'))"
    "windowStore content good U mu kk ?st b P tb (\<lambda>u. accumulated new add (?C u) (cellRecs (tw_cell tw) rs u)) sc' cl'"
    "sc_operatorID sc' = sc_operatorID (tw_StateClient tw)"
    using batch_aggregated[OF agg ord w op bo rs, of "\<lambda>key t idx. Inr (ti_Add key t idx)", OF idx] by blast
  let ?tw = "tw\<lparr>tw_StateClient := sc', tw_Index := ?idx\<rparr>"
  have cell: "tw_cell ?tw = tw_cell tw" by (simp add: tw_cell_def fun_eq_iff)
  have R: "list_all R (cellRecs (tw_cell tw) buf u)" for u using buf by (auto simp: cellRecs_def list_all_iff)
  have C: "(\<lambda>u. accumulated new add (?C u) (cellRecs (tw_cell tw) rs u)) = (\<lambda>u. accumulated new add [] (cellRecs (tw_cell tw) (buf @ rs) u))"
    using accumulated_append[OF agg _ R] by (simp add: fun_eq_iff)
  have empty: "?C u = [] \<longleftrightarrow> u \<notin> tw_cell tw ` set buf" for u
    using accumulated_ok(2)[OF agg _ R, of "[]"] cellRecs_empty[of "tw_cell tw" buf u] by (auto simp: accumulated_def)
  have "entry ?idx t k \<noteq> None \<longleftrightarrow> (k, t) \<in> tw_cell tw ` set (buf @ rs)" for t k
    unfolding ti_Add_all(2)[OF wf] using ent empty by (auto simp: dedup_ok)
  then have "twInv content good U mu kk b P tb R new add (buf @ rs) ?tw cl'"
    using inv rs b(2) ti_Add_all(1)[OF wf] unfolding twInv_def cell C by auto
  then show ?thesis using b(1, 3) by (auto simp: tw_ProcessBatch_def sameWindow_def)
qed

lemma tw_watermark:
  fixes wm :: int
  assumes agg: "aggOk (cacheKind b) P R (tw_Aggregator tw) new add merge out" and ord: "range_order ordT" "range_order ordK"
    and inv: "twInv content good U mu kk b P tb R new add buf tw cl"
    and op: "opID = sc_operatorID (tw_StateClient tw)" and bo: "bucketOf = bucketOfKey"
  defines "late \<equiv> filter (\<lambda>r. snd (tw_cell tw r) + tw_Duration tw \<le> wm) buf"
  shows "\<exists>tw' cl' ps. tw_ProcessProgressedWatermark ordT ordK mu api tw cl wm = Some (Inr (tw', cl'))
    \<and> twInv content good U mu kk b P tb R new add (filter (\<lambda>r. wm < snd (tw_cell tw r) + tw_Duration tw) buf) tw' cl' \<and> sameWindow tw tw'
    \<and> distinct ps \<and> set ps = tw_cell tw ` set late
    \<and> emitted (tw_Collector tw') = emitted (tw_Collector tw)
        @ map (\<lambda>u. (out (accumulated new add [] (cellRecs (tw_cell tw) buf u)))\<lparr>timestamp := snd u + tw_Duration tw\<rparr>) ps"
proof -
  let ?C = "\<lambda>u. accumulated new add [] (cellRecs (tw_cell tw) buf u)" and ?st = "tw_StateID tw" and ?d = "tw_Duration tw"
  let ?keep = "filter (\<lambda>r. wm < snd (tw_cell tw r) + ?d) buf"
  have w: "windowStore content good U mu kk ?st b P tb ?C (tw_StateClient tw) cl" and wf: "wfIndex (tw_Index tw)"
    and ent: "\<And>t k. entry (tw_Index tw) t k \<noteq> None \<longleftrightarrow> (k, t) \<in> tw_cell tw ` set buf" and buf: "list_all R buf"
    and valid: "\<forall>r \<in> set buf. validCell kk (tw_cell tw r)"
    using inv by (simp_all add: twInv_def)
  define ps where "ps = map (\<lambda>(k, t, v). (k, t)) (dueWindows ordT ordK (wm - ?d) (tw_Index tw))"
  have fired: "ti_GetWindowsToBeFired ordT ordK wm ?d (tw_Index tw) = (map fst ps, map snd ps)" unfolding ps_def by (rule fired_due)
  have dist: "distinct ps" unfolding ps_def by (rule distinct_dueWindows[OF ord wf])
  have "set ps = {u. entry (tw_Index tw) (snd u) (fst u) \<noteq> None \<and> snd u \<le> wm - ?d}"
    unfolding ps_def using set_dueWindows[OF ord wf] by force
  then have set: "set ps = tw_cell tw ` set late" using ent by (auto simp: late_def)
  have kept: "cellRecs (tw_cell tw) ?keep u = (if u \<in> set ps then [] else cellRecs (tw_cell tw) buf u)" for u
  proof (cases "u \<in> set ps")
    case True
    then have "snd u + ?d \<le> wm" using set by (auto simp: late_def)
    then show ?thesis using True by (auto simp: cellRecs_def filter_empty_conv)
  next
    case False
    then have "\<forall>r \<in> set buf. tw_cell tw r = u \<longrightarrow> wm < snd u + ?d" using set by (auto simp: late_def)
    then have "filter (\<lambda>r. tw_cell tw r = u) ?keep = filter (\<lambda>r. tw_cell tw r = u) buf" by (auto intro: filter_cong)
    then show ?thesis using False by (simp add: cellRecs_def)
  qed
  have ent': "(k, t) \<in> tw_cell tw ` set ?keep \<longleftrightarrow> (k, t) \<in> tw_cell tw ` set buf \<and> (k, t) \<notin> set ps" for k t
    using kept[of "(k, t)"] cellRecs_empty[of "tw_cell tw"] by metis
  have C': "(\<lambda>u. accumulated new add [] (cellRecs (tw_cell tw) ?keep u)) = (\<lambda>u. if u \<in> set ps then [] else ?C u)"
    by (simp add: kept fun_eq_iff accumulated_def)
  show ?thesis
  proof (cases "ps = []")
    case True
    then have "?keep = buf" using set unfolding late_def by (auto simp: filter_empty_conv intro!: filter_True)
    then show ?thesis using True inv set dist fired
      by (intro exI[of _ tw] exI[of _ cl] exI[of _ "[]"]) (simp add: tw_ProcessProgressedWatermark_def sameWindow_def)
  next
    case False
    have v: "\<forall>u \<in> set ps. validCell kk u" using set valid by (auto simp: late_def)
    obtain sc1 cl1 n where f: "FetchWindowState mu api (tw_StateClient tw) cl (map fst ps) (map snd ps) [?st] = Some (Inr (sc1, cl1, n))"
      "windowStore content good U mu kk ?st b P tb ?C sc1 cl1" "cached mu kk ?st b ps (\<lambda>u. fetched (cacheKind b) (?C u)) sc1"
      "sc_operatorID sc1 = sc_operatorID (tw_StateClient tw)"
      using fetch_cells[OF w op bo False v] dedup_distinct[OF dist] by auto
    let ?tw = "tw\<lparr>tw_StateClient := sc1\<rparr>"
    obtain c where c: "rfold tw_fire ?tw ps = Inr (?tw\<lparr>tw_Collector := c, tw_Index := foldl (\<lambda>i u. idx_Remove (fst u) (snd u) i) (tw_Index tw) ps\<rparr>)"
      "emitted c = emitted (tw_Collector tw) @ map (\<lambda>u. (OutFunc (tw_Aggregator tw) (fetched (cacheKind b) (?C u)))\<lparr>timestamp := snd u + ?d\<rparr>) ps"
      using fire_all[of mu kk ?tw b ps "\<lambda>u. fetched (cacheKind b) (?C u)" ps] f(3) by auto
    obtain cl2 where d: "DeleteAllAndFlush api sc1 cl1 = Inr cl2"
      "windowStore content good U mu kk ?st b P tb (\<lambda>u. if u \<in> set ps then [] else ?C u) sc1 cl2"
      using delete_all_cells[OF f(2) bo f(3)] by blast
    let ?tw' = "?tw\<lparr>tw_Collector := c, tw_Index := foldl (\<lambda>i u. idx_Remove (fst u) (snd u) i) (tw_Index tw) ps\<rparr>"
    have run: "tw_ProcessProgressedWatermark ordT ordK mu api tw cl wm = Some (Inr (?tw', cl2))"
      using fired False f(1) c(1) d(1) by (simp add: tw_ProcessProgressedWatermark_def zip_map_fst_snd)
    have cell: "tw_cell ?tw' = tw_cell tw" by (simp add: tw_cell_def fun_eq_iff)
    have "entry (tw_Index ?tw') t k \<noteq> None \<longleftrightarrow> (k, t) \<in> tw_cell tw ` set ?keep" for t k
      unfolding ent' using ent[of t k] by (cases "(k, t) \<in> set ps") (simp_all add: Remove_all(2))
    moreover have "list_all R ?keep" "\<forall>r \<in> set ?keep. validCell kk (tw_cell tw r)" using buf valid by (simp_all add: list_all_iff)
    ultimately have "twInv content good U mu kk b P tb R new add ?keep ?tw' cl2"
      unfolding twInv_def cell C' using d(2) Remove_all(1)[OF wf] by simp
    moreover have "OutFunc (tw_Aggregator tw) (fetched (cacheKind b) (?C u)) = out (?C u)" if "u \<in> set ps" for u
    proof -
      have "list_all R (cellRecs (tw_cell tw) buf u)" using buf by (auto simp: cellRecs_def list_all_iff)
      moreover have "cellRecs (tw_cell tw) buf u \<noteq> []" using that set by (auto simp: cellRecs_empty late_def)
      ultimately have "?C u \<noteq> []" using accumulated_ok(2)[OF agg, of "[]"] by simp
      then have "denotes (cacheKind b) (?C u) (fetched (cacheKind b) (?C u))"
        using fetched_denotes windowStoreD(7)[OF w] v that by blast
      then show ?thesis using agg unfolding aggOk_def by blast
    qed
    then have "emitted (tw_Collector ?tw') = emitted (tw_Collector tw) @ map (\<lambda>u. (out (?C u))\<lparr>timestamp := snd u + ?d\<rparr>) ps"
      using c(2) by simp
    ultimately show ?thesis using run set dist f(4) by (intro exI[of _ ?tw'] exI[of _ cl2] exI[of _ ps]) (simp add: sameWindow_def)
  qed
qed

text \<open>Any sequence of batches and watermarks.\<close>

lemma tw_run:
  assumes agg: "aggOk (cacheKind b) P R (tw_Aggregator tw) new add merge out" and bo: "bucketOf = bucketOfKey"
    and ord: "range_order (ordStates ords)" "range_order (ordStarts ords)" "range_order (ordKeys ords)"
    and inv: "twInv content good U mu kk b P tb R new add [] tw cl" and op: "opID = sc_operatorID (tw_StateClient tw)"
    and evs: "\<forall>rs. Records rs \<in> set evs \<longrightarrow> rs \<noteq> [] \<and> list_all R rs \<and> (\<forall>r \<in> set rs. validCell kk (tw_cell tw r))"
  shows "\<exists>tw' cl' buf outs. ofold (tw_handle ords mu api) (tw, cl) evs = Some (Inr (tw', cl'))
    \<and> foldl (naiveWindows (tw_cell tw) (tw_Duration tw) (\<lambda>rs. out (foldl add new rs))) ([], []) evs = (buf, outs)
    \<and> mset (emitted (tw_Collector tw')) = mset (emitted (tw_Collector tw)) + mset outs
    \<and> twInv content good U mu kk b P tb R new add buf tw' cl' \<and> sameWindow tw tw'"
  using evs
proof (induction evs rule: rev_induct)
  case Nil
  then show ?case using inv by (simp add: sameWindow_def)
next
  case (snoc ev evs)
  let ?f = "\<lambda>rs. out (foldl add new rs)"
  obtain tw1 cl1 buf outs where IH: "ofold (tw_handle ords mu api) (tw, cl) evs = Some (Inr (tw1, cl1))"
    "foldl (naiveWindows (tw_cell tw) (tw_Duration tw) ?f) ([], []) evs = (buf, outs)"
    "mset (emitted (tw_Collector tw1)) = mset (emitted (tw_Collector tw)) + mset outs"
    "twInv content good U mu kk b P tb R new add buf tw1 cl1" "sameWindow tw tw1"
    using snoc.IH snoc.prems by auto
  have same: "tw_cell tw1 = tw_cell tw" "tw_Duration tw1 = tw_Duration tw" "opID = sc_operatorID (tw_StateClient tw1)"
    "aggOk (cacheKind b) P R (tw_Aggregator tw1) new add merge out"
    using sameWindow_cell[OF IH(5)] IH(5) op agg by (simp_all add: sameWindow_def)
  have trans: "sameWindow tw tw2" if "sameWindow tw1 tw2" for tw2 using IH(5) that by (simp add: sameWindow_def)
  show ?case
  proof (cases ev)
    case (Records rs)
    then have rs: "list_all R rs" "rs \<noteq> []" "\<forall>r \<in> set rs. validCell kk (tw_cell tw1 r)" using snoc.prems same(1) by auto
    obtain tw2 cl2 where "tw_ProcessBatch (ordStates ords) mu api tw1 cl1 rs = Some (Inr (tw2, cl2))"
      "twInv content good U mu kk b P tb R new add (buf @ rs) tw2 cl2" "sameWindow tw1 tw2" "tw_Collector tw2 = tw_Collector tw1"
      using tw_batch[OF same(4) ord(1) IH(4) same(3) bo rs] by blast
    then show ?thesis using IH(1-3) trans Records by (simp add: ofold_append tw_handle_def)
  next
    case (Progress wm)
    obtain tw2 cl2 ps where p: "tw_ProcessProgressedWatermark (ordStarts ords) (ordKeys ords) mu api tw1 cl1 wm = Some (Inr (tw2, cl2))"
      "twInv content good U mu kk b P tb R new add (filter (\<lambda>r. wm < snd (tw_cell tw1 r) + tw_Duration tw1) buf) tw2 cl2" "sameWindow tw1 tw2"
      "distinct ps" "set ps = tw_cell tw1 ` set (filter (\<lambda>r. snd (tw_cell tw1 r) + tw_Duration tw1 \<le> wm) buf)"
      "emitted (tw_Collector tw2) = emitted (tw_Collector tw1)
        @ map (\<lambda>u. (out (accumulated new add [] (cellRecs (tw_cell tw1) buf u)))\<lparr>timestamp := snd u + tw_Duration tw1\<rparr>) ps"
      using tw_watermark[OF same(4) ord(2, 3) IH(4) same(3) bo, of wm] by blast
    let ?ws = "remdups (map (tw_cell tw) (filter (\<lambda>r. snd (tw_cell tw r) + tw_Duration tw \<le> wm) buf))"
    have "mset ps = mset ?ws" using p(4, 5) unfolding same(1, 2) by (intro set_eq_iff_mset_eq_distinct[THEN iffD1]) simp_all
    moreover have "accumulated new add [] (cellRecs (tw_cell tw) buf u) = foldl add new (cellRecs (tw_cell tw) buf u)" if "u \<in> set ps" for u
      using that p(5) cellRecs_empty[of "tw_cell tw" buf u] unfolding same(1, 2) by (auto simp: accumulated_def)
    then have "map (\<lambda>u. (out (accumulated new add [] (cellRecs (tw_cell tw) buf u)))\<lparr>timestamp := snd u + tw_Duration tw\<rparr>) ps
        = map (\<lambda>u. (?f (cellRecs (tw_cell tw) buf u))\<lparr>timestamp := snd u + tw_Duration tw\<rparr>) ps" by simp
    ultimately have "mset (map (\<lambda>u. (out (accumulated new add [] (cellRecs (tw_cell tw) buf u)))\<lparr>timestamp := snd u + tw_Duration tw\<rparr>) ps)
        = mset (map (\<lambda>u. (?f (cellRecs (tw_cell tw) buf u))\<lparr>timestamp := snd u + tw_Duration tw\<rparr>) ?ws)"
      by (simp only: mset_map)
    then show ?thesis using IH(1-3) trans[OF p(3)] p(1, 2, 6) Progress unfolding same(1, 2)
      by (simp add: ofold_append tw_handle_def)
  qed
qed

end

end
