(* ===== verification/Window_Facts.thy ===== *)
theory Window_Facts
  imports Tumbling_Window State_Batches
begin

text \<open>
  The window operators over a state service.
\<close>

section \<open>Tumbling windows\<close>

lemma naive_cong:
  assumes "\<forall>rs. Records rs \<in> set evs \<longrightarrow> (\<forall>r \<in> set rs. cell r = cell' r)"
  shows "foldl (naiveWindows cell d f) ([], []) evs = foldl (naiveWindows cell' d f) ([], []) evs
    \<and> (\<forall>r \<in> set (fst (foldl (naiveWindows cell d f) ([], []) evs)). cell r = cell' r)"
  using assms
proof (induction evs rule: rev_induct)
  case (snoc ev evs)
  obtain buf outs where s: "foldl (naiveWindows cell d f) ([], []) evs = (buf, outs)" by fastforce
  have IH: "foldl (naiveWindows cell' d f) ([], []) evs = (buf, outs)" "\<forall>r \<in> set buf. cell r = cell' r" using snoc s by auto
  show ?case
  proof (cases ev)
    case (Records rs)
    then show ?thesis using s IH snoc.prems by auto
  next
    case (Progress wm)
    have f: "filter (\<lambda>r. wm < snd (cell r) + d) buf = filter (\<lambda>r. wm < snd (cell' r) + d) buf"
      "filter (\<lambda>r. snd (cell r) + d \<le> wm) buf = filter (\<lambda>r. snd (cell' r) + d \<le> wm) buf"
      "\<And>u. filter (\<lambda>r. cell r = u) buf = filter (\<lambda>r. cell' r = u) buf"
      using IH(2) by (auto intro!: filter_cong)
    have "map cell (filter (\<lambda>r. snd (cell' r) + d \<le> wm) buf) = map cell' (filter (\<lambda>r. snd (cell' r) + d \<le> wm) buf)"
      using IH(2) by simp
    then show ?thesis using s IH Progress by (simp add: cellRecs_def f del: map_eq_conv)
  qed
qed simp

definition cellSet :: "mus \<Rightarrow> kind \<Rightarrow> StateClient \<Rightarrow> u16 \<Rightarrow> skey set" where
  "cellSet mu kk sc st = {windowKey mu kk sc st u |u. validCell kk u}"

lemma window_client_ready:
  assumes mu: "mus_ok mu" and kinds: "list_all SupportedKind kinds"
    and reg: "RegisterState k (NewStateClient WindowStateClient) = (sc0, st)"
    and sc: "sc_Setup mu kk (\<lambda>_. kinds) op cfg sc0 = Inr sc" and n: "0 < cfgNumBuckets cfg" "cfgNumBuckets cfg \<le> 2 ^ 32"
  shows "\<exists>b. windowClient mu kk st b (tuple_ok kinds) (tupleBytes mu kinds) sc \<and> cacheKind b = k \<and> sc_operatorID sc = op"
proof -
  have c0: "sc_cache sc0 = [(st, NewWindowStateCache k)]" "stateClientType sc0 = WindowStateClient" "sc_cache sc0 \<noteq> []"
    using reg by (auto simp: RegisterState_def NewStateClient_def Let_def)
  have kk: "SupportedKind kk" using sc unfolding sc_Setup_def by (cases "SupportedKind kk") simp_all
  let ?i = "StateBackendType cfg \<noteq> ''tikv'' \<and> StateBackendType cfg \<noteq> ''memory'' \<and> StateBackendType cfg \<noteq> ''remote-pebble''"
  have mf: "map fst (sc_cache sc0) = [st]" using c0(1) by simp
  let ?Q = "\<lambda>s. \<forall>st c. map_of (sc_cache sc0) st = Some c \<longrightarrow> (\<exists>c' cd. map_of (sc_cache s) st = Some c' \<and> isSimple c' = isSimple c
       \<and> cacheBase c' = (cacheBase c)\<lparr>cacheCodec := Some cd, allowIncrementalSerialization := ?i\<rparr>
       \<and> codecOk cd (tuple_ok kinds) (tupleBytes mu kinds))"
  have "\<exists>s. sc = s \<and> clientOk mu kk s \<and> map fst (sc_cache s) = [st] \<and> stateClientType s = WindowStateClient \<and> sc_operatorID s = op \<and> ?Q s"
    using setup_ok[where tk = "\<lambda>_. kinds" and opid = op, OF mu kk n c0(3) kinds] unfolding sc c0(2) mf sum.inject .
  then have c1: "clientOk mu kk sc" "map fst (sc_cache sc) = [st]" "stateClientType sc = WindowStateClient" "sc_operatorID sc = op" and cache: "?Q sc"
    by blast+
  have "map_of (sc_cache sc0) st = Some (NewWindowStateCache k)" using c0(1) by simp
  from cache[rule_format, OF this] obtain c' cd where c': "map_of (sc_cache sc) st = Some c'" "isSimple c' = isSimple (NewWindowStateCache k :: fieldVal StateCache)"
    "cacheBase c' = (cacheBase (NewWindowStateCache k :: fieldVal StateCache))\<lparr>cacheCodec := Some cd, allowIncrementalSerialization := ?i\<rparr>"
    "codecOk cd (tuple_ok kinds) (tupleBytes mu kinds)"
    by blast
  have b: "\<not> isSimple c'" "cacheKind (cacheBase c') = k" "cacheCodec (cacheBase c') = Some cd"
    unfolding c'(2, 3) by (simp_all add: NewWindowStateCache_def newStateCacheBase_def)
  show ?thesis using c1 c'(1, 4) b by (intro exI[of _ "cacheBase c'"]) (simp add: windowClient_def)
qed


text \<open>The empty window operator: no entry in the index, no tuples in the cells.\<close>

definition emptyCells :: "('c \<Rightarrow> skey \<Rightarrow> bytes) \<Rightarrow> mus \<Rightarrow> kind \<Rightarrow> StateClient \<Rightarrow> u16 \<Rightarrow> 'c \<Rightarrow> bool" where
  "emptyCells content mu kk sc st cl \<longleftrightarrow> (\<forall>k \<in> cellSet mu kk sc st. content cl k = [])"

lemma tumbling_start:
  assumes "NewTumblingWindow ka agg k d = Inr tw0" "sc_Setup mu kk (\<lambda>_. kinds) op cfg (tw_StateClient tw0) = Inr sc"
    and "mus_ok mu" "list_all SupportedKind kinds" "0 < cfgNumBuckets cfg" "cfgNumBuckets cfg \<le> 2 ^ 32"
    and "emptyCells content mu kk sc (tw_StateID tw0) cl" "good cl" "cellSet mu kk sc (tw_StateID tw0) \<subseteq> U"
  shows "0 < d" "tw_Aggregator tw0 = agg" "tw_Duration tw0 = d" "tw_KeyAssigner tw0 = ka" "emitted (tw_Collector tw0) = []" "sc_operatorID sc = op"
    and "\<exists>b. cacheKind b = k \<and> twInv content good U mu kk b (tuple_ok kinds) (tupleBytes mu kinds) R new add [] (tw0\<lparr>tw_StateClient := sc\<rparr>) cl"
proof -
  obtain sc0 st where reg: "RegisterState k (NewStateClient WindowStateClient) = (sc0, st)" by fastforce
  have d: "0 < d" and tw: "tw0 = \<lparr>tw_StateID = st, tw_Aggregator = agg, tw_Duration = d, tw_Index = [], tw_KeyAssigner = ka,
      tw_StateClient = sc0, tw_Collector = \<lparr>CurrentTimestamp = -1, emitted = []\<rparr>\<rparr>"
    using assms(1) reg by (auto simp: NewTumblingWindow_def fatal_if_def split: if_splits)
  show "0 < d" "tw_Aggregator tw0 = agg" "tw_Duration tw0 = d" "tw_KeyAssigner tw0 = ka" "emitted (tw_Collector tw0) = []"
    using d tw by simp_all
  obtain b where b: "windowClient mu kk st b (tuple_ok kinds) (tupleBytes mu kinds) sc" "cacheKind b = k" "sc_operatorID sc = op"
    using window_client_ready[OF assms(3, 4) reg _ assms(5, 6), of kk op sc] assms(2) unfolding tw by auto
  have "windowStore content good U mu kk st b (tuple_ok kinds) (tupleBytes mu kinds) (\<lambda>u. []) sc cl"
    using b(1) assms(7-9) tw by (auto simp: windowStore_def emptyCells_def cellSet_def stored_def)
  then show "\<exists>b. cacheKind b = k \<and> twInv content good U mu kk b (tuple_ok kinds) (tupleBytes mu kinds) R new add [] (tw0\<lparr>tw_StateClient := sc\<rparr>) cl"
    using b(2) tw by (intro exI[of _ b]) (simp add: twInv_def wfIndex_def entry_def accumulated_def cellRecs_def)
  show "sc_operatorID sc = op" by (rule b(3))
qed

text \<open>The records an operator accepts: of the input type, with a key of the key type and a timestamp that is not negative.\<close>

definition goodRecords :: "kind \<Rightarrow> (tupleVal \<Rightarrow> fieldVal) \<Rightarrow> (tupleVal \<Rightarrow> bool) \<Rightarrow> winEvent list \<Rightarrow> bool" where
  "goodRecords kk ka R evs \<longleftrightarrow> (\<forall>rs. Records rs \<in> set evs \<longrightarrow> rs \<noteq> [] \<and>
     (\<forall>r \<in> set rs. R r \<and> hasKind kk (ka r) \<and> 0 \<le> timestamp r \<and> timestamp r < 2 ^ 63))"


text \<open>The maximum of an integer field, kept in a value state.\<close>

definition peak :: "tupleVal \<Rightarrow> int" where
  "peak t = (case tupFields t of [NumV i] \<Rightarrow> i | _ \<Rightarrow> - (2 ^ 63))"

definition peakTuple :: "int \<Rightarrow> tupleVal" where
  "peakTuple i = \<lparr>tupFields = [NumV i], timestamp = 0\<rparr>"

definition peakOf :: "tupleVal list \<Rightarrow> int" where
  "peakOf xs = (case xs of [] \<Rightarrow> - (2 ^ 63) | t # _ \<Rightarrow> peak t)"

definition stateTuples :: "StateType \<Rightarrow> tupleVal list" where
  "stateTuples s = (case s of ValueSt v \<Rightarrow> (case vs_state v of None \<Rightarrow> [] | Some t \<Rightarrow> [t]) | ListSt l \<Rightarrow> ls_state l)"

definition maxAgg :: Aggregator where
  "maxAgg = \<lparr>NewFunc = ValueSt (NewValueState (Some (peakTuple (- (2 ^ 63))))),
     AddFunc = (\<lambda>s r. ValueSt (NewValueState (Some (peakTuple (max (peakOf (stateTuples s)) (peak r)))))),
     OutFunc = (\<lambda>s. peakTuple (peakOf (stateTuples s))),
     MergeFunc = (\<lambda>s s'. ValueSt (NewValueState (Some (peakTuple (max (peakOf (stateTuples s)) (peakOf (stateTuples s')))))))\<rparr>"

lemma peak_tuple: "peak (peakTuple i) = i" by (simp add: peak_def peakTuple_def)

lemma peak_bounds: "tuple_ok [KindInt64] t \<Longrightarrow> - (2 ^ 63) \<le> peak t \<and> peak t < 2 ^ 63"
  by (auto simp: tuple_ok_def peak_def split: list.splits fieldVal.splits)

lemma maxAgg_ok:
  "aggOk ValueKind (tuple_ok [KindInt64]) (tuple_ok [KindInt64]) maxAgg [peakTuple (- (2 ^ 63))]
     (\<lambda>xs r. [peakTuple (max (peakOf xs) (peak r))]) (\<lambda>xs ys. [peakTuple (max (peakOf xs) (peakOf ys))]) (\<lambda>xs. peakTuple (peakOf xs))"
proof -
  have ok: "tuple_ok [KindInt64] (peakTuple i)" if "- (2 ^ 63) \<le> i" "i < 2 ^ 63" for i
    using that by (simp add: tuple_ok_def peakTuple_def SupportedKind_def)
  have new: "denotes ValueKind [t] (ValueSt (NewValueState (Some t)))" "IsUpdated (ValueSt (NewValueState (Some t)))" for t
    by (simp_all add: denotes_def HasValue_def IsDeleted_def IsUpdated_def NewValueState_def)
  have st: "stateTuples s = xs" if "denotes ValueKind xs s" for xs s
    using that by (auto simp: denotes_def stateTuples_def split: StateType.splits)
  have "tuple_ok [KindInt64] (peakTuple (max (peakOf xs) (peak r)))"
    if "xs = [peakTuple (- (2 ^ 63))] \<or> list_all (tuple_ok [KindInt64]) xs" "tuple_ok [KindInt64] r" for xs r
    using peak_bounds[OF that(2)] that(1) peak_bounds by (intro ok) (auto simp: peakOf_def peak_tuple max_def split: list.splits)
  then show ?thesis using new by (auto simp: aggOk_def maxAgg_def dest!: st)
qed


end
