(* ===== verification/Spec2Isabelle.thy ===== *)
theory Spec2Isabelle
  imports Even_Partition Hash_Partition Buffers Bucket_Migration State_Batches Client_Facts Window_Facts
begin

text \<open>
  A verification library for Koala, a stream processing system whose operators are
  reconfigured without stopping the dataflow.
\<close>

section \<open>Reconfiguring the routing table\<close>

text \<open>C14. Reconfiguring a routing table with the even policy: for a balanced table and a change of workers
  that keeps their relative order, the reconfiguration returns a balanced table; every key is routed to an
  old worker before and to an updated worker after, and its route changes from \<open>s\<close> to \<open>d\<close> exactly when its
  bucket is reported as moved from \<open>s\<close> to \<open>d\<close>.\<close>

theorem ep_reconfigure_routes:
  assumes "range_order ord" "NumBuckets p = int N" "orderedChange N ws0 ws" "balanced N ws0 (pt_Buckets t)"
  shows "\<exists>t' ch. pt_Reconfigure (ep_RePartitionV2 ord p) t ws = Some (Inr (t', ch))
    \<and> balanced N ws (pt_Buckets t') \<and> pt_H t' = pt_H t
    \<and> (\<forall>key. \<exists>s \<in> set ws0. \<exists>d \<in> set ws. pt_KeyToWorkerID t key = Inr s \<and> pt_KeyToWorkerID t' key = Inr d
         \<and> (unat (pt_H t key) mod N \<in> set (moved ch s d) \<longleftrightarrow> s \<noteq> d))"
proof -
  let ?old = "map (\<lambda>w. \<lparr>WorkerID = w, KeyMap = None\<rparr>) (pt_Buckets t)"
  have bal: "balanced N ws0 (owners ?old)" using assms(4) by simp
  note r = ep_ordered_change_returns[OF assms(1-3) bal]
  from r(1) obtain new ch where run: "ep_RePartitionV2 ord p ws ?old = Some (Inr (new, ch))"
    and bal': "balanced N ws (owners new)" by blast
  have pos: "0 < N" using assms(3) by (cases ws0) (auto simp: orderedChange_def)
  have len: "length (pt_Buckets t) = N" using r(3) by simp
  let ?t' = "t\<lparr>pt_Buckets := map WorkerID new\<rparr>"
  have rec: "pt_Reconfigure (ep_RePartitionV2 ord p) t ws = Some (Inr (?t', ch))"
    using run assms(3) by (auto simp: pt_Reconfigure_Inr orderedChange_def)
  have policy: "partition_policy N (ep_GenerateBucketsV2 p) (ep_RePartitionV2 ord p)"
    using ep_partition_policy[OF assms(1), of p] assms(2) by simp
  note routes = partition_policy.reconfigure_routes[OF policy rec len pos]
  have "\<exists>s \<in> set ws0. pt_KeyToWorkerID t key = Inr s" for key
    using pt_KeyToWorkerID_eq[of t key] r(2) len pos
    by (metis length_0_conv less_numeral_extra(3) mod_less_divisor nth_mem owners_map_mk)
  then have "\<exists>s \<in> set ws0. \<exists>d \<in> set ws. pt_KeyToWorkerID t key = Inr s \<and> pt_KeyToWorkerID ?t' key = Inr d
       \<and> (unat (pt_H t key) mod N \<in> set (moved ch s d) \<longleftrightarrow> s \<noteq> d)" for key
    using routes(2)[of key] routes(3)[of key] by metis
  then show ?thesis using rec bal' by (intro exI[of _ ?t'] exI[of _ ch]) (simp add: owners_def)
qed

theorem ep_reconfigure_routes_witness:
  "\<exists>t' ch. pt_Reconfigure (ep_RePartitionV2 rev \<lparr>NumBuckets = 5\<rparr>)
      \<lparr>pt_H = (\<lambda>_. 3), pt_Buckets = [1, 1, 2, 2, 3]\<rparr> [1, 3] = Some (Inr (t', ch))
    \<and> balanced 5 [1, 3] (pt_Buckets t')"
proof -
  have "balanced 5 [1, 2, 3] [1, 1, 2, 2, 3]" by code_simp
  moreover have "range_order (rev :: (u16 \<times> nat list) list \<Rightarrow> _)" by (simp add: range_order_def)
  moreover have "orderedChange 5 [1, 2, 3] [1, 3]" by code_simp
  ultimately show ?thesis
    using ep_reconfigure_routes[of rev "\<lparr>NumBuckets = 5\<rparr>" 5 "[1, 2, 3]" "[1, 3]"
        "\<lparr>pt_H = (\<lambda>_. 3), pt_Buckets = [1, 1, 2, 2, 3]\<rparr>"] by auto
qed

end
